(* ===== verification/Cron_Prelude.thy ===== *)
theory Cron_Prelude
  imports Main "HOL-Library.Word"
begin

text \<open>
  Shared by every theory of the development: the outcome of a Go call that may return an
  error, panic or fail to return; 64-bit integers; bit sets stored in a \<open>uint64\<close>; and the
  collections of simplification rules that the component proofs use.
\<close>

unbundle bit_operations_syntax

subsection \<open>Outcomes of Go calls\<close>

text \<open>
  A call returns a value, returns a non-nil error, panics, or never returns. A loop whose
  termination is not evident is a \<^theory_text>\<open>partial_function (option)\<close>; \<open>loop_result\<close>
  turns its \<open>None\<close> into \<open>Diverge\<close>.
\<close>

datatype go_panic =
    NilLocation
  | MultipleOptionals
  | IndexOutOfRange
  | NilDereference
  | CloseOfClosedChannel

datatype ('e, 'a) go =
    Ret 'a
  | Err 'e
  | Panic go_panic
  | Diverge

text \<open>A call without an error result.\<close>

type_synonym 'a call = "(unit, 'a) go"

primrec and_then :: "('e, 'a) go \<Rightarrow> ('a \<Rightarrow> ('e, 'b) go) \<Rightarrow> ('e, 'b) go" where
  "and_then (Ret a) k = k a"
| "and_then (Err e) k = Err e"
| "and_then (Panic p) k = Panic p"
| "and_then Diverge k = Diverge"

definition loop_result :: "'a option \<Rightarrow> ('e, 'a) go" where
  "loop_result r = (case r of None \<Rightarrow> Diverge | Some a \<Rightarrow> Ret a)"

lemma loop_result_simps [simp]:
  "loop_result None = Diverge"
  "loop_result (Some a) = Ret a"
  by (simp_all add: loop_result_def)

lemma and_then_eq_Ret:
  "and_then m k = Ret b \<longleftrightarrow> (\<exists>a. m = Ret a \<and> k a = Ret b)"
  by (cases m) auto

lemma and_then_assoc:
  "and_then (and_then m k) h = and_then m (\<lambda>a. and_then (k a) h)"
  by (cases m) auto

text \<open>
  \<open>completes\<close>: the call comes back to its caller, with a value or with an error; it neither
  panics nor hangs.
\<close>

primrec completes :: "('e, 'a) go \<Rightarrow> bool" where
  "completes (Ret a) = True"
| "completes (Err e) = True"
| "completes (Panic p) = False"
| "completes Diverge = False"

lemma completes_and_then:
  "completes m \<Longrightarrow> (\<And>a. m = Ret a \<Longrightarrow> completes (k a)) \<Longrightarrow> completes (and_then m k)"
  by (cases m) auto

lemma completes_and_then_iff:
  "completes (and_then m k) \<longleftrightarrow> completes m \<and> (\<forall>a. m = Ret a \<longrightarrow> completes (k a))"
  by (cases m) auto

primrec the_value :: "('e, 'a) go \<Rightarrow> 'a" where
  "the_value (Ret a) = a"

text \<open>\<open>yields P m\<close>: a value that the call returns satisfies \<open>P\<close>.\<close>

primrec yields :: "('a \<Rightarrow> bool) \<Rightarrow> ('e, 'a) go \<Rightarrow> bool" where
  "yields P (Ret a) \<longleftrightarrow> P a"
| "yields P (Err e) \<longleftrightarrow> True"
| "yields P (Panic p) \<longleftrightarrow> True"
| "yields P Diverge \<longleftrightarrow> True"

lemma yields_iff: "yields P m \<longleftrightarrow> (\<forall>a. m = Ret a \<longrightarrow> P a)"
  by (cases m) auto

lemma yields_if: "yields P m \<Longrightarrow> yields P n \<Longrightarrow> yields P (if c then m else n)"
  by simp

lemma yields_and_then: "yields (\<lambda>a. yields P (k a)) m \<Longrightarrow> yields P (and_then m k)"
  by (cases m) auto

subsection \<open>Machine integers\<close>

type_synonym u64 = "64 word"

text \<open>
  \<open>int\<close> and \<open>time.Duration\<close> are signed 64-bit: \<open>i64\<close> reduces an exact result the way the
  hardware addition does.
\<close>

definition i64 :: "int \<Rightarrow> int" where
  "i64 x = (x + 2 ^ 63) mod 2 ^ 64 - 2 ^ 63"

lemma i64_id: "- (2 ^ 63) \<le> x \<Longrightarrow> x < 2 ^ 63 \<Longrightarrow> i64 x = x"
  by (simp add: i64_def)

lemma i64_range: "- (2 ^ 63) \<le> i64 x" "i64 x < 2 ^ 63"
  by (simp_all add: i64_def)

subsection \<open>Bits of a word\<close>

named_theorems bits_simps \<open>which bits a bit-set expression has\<close>

lemma bit_single [bits_simps]:
  "bit (push_bit n (1 :: u64)) i \<longleftrightarrow> i = n \<and> n < 64"
  by (auto simp: bit_exp_iff)

lemma bit_ones_above [bits_simps]:
  "bit (push_bit n (-1 :: u64)) i \<longleftrightarrow> n \<le> i \<and> i < 64"
  by (auto simp: bit_not_iff bit_mask_iff)

lemmas [bits_simps] = bit_and_iff bit_or_iff bit_not_iff bit_exp_iff bit_mask_iff

lemma word_and_single_pos_iff:
  "0 < push_bit n (1 :: u64) AND w \<longleftrightarrow> bit w n"
proof -
  have "push_bit n 1 AND w = 0 \<longleftrightarrow> \<not> bit w n"
  proof
    assume z: "push_bit n 1 AND w = 0"
    show "\<not> bit w n"
    proof
      assume b: "bit w n"
      then have "n < 64" using bit_imp_le_length [of w n] by simp
      with b have "bit (push_bit n 1 AND w) n" by (simp add: bits_simps)
      with z show False by simp
    qed
  next
    assume "\<not> bit w n"
    then show "push_bit n 1 AND w = 0"
      by (intro bit_eqI) (auto simp: bits_simps)
  qed
  then show ?thesis by (simp add: word_neq_0_conv [symmetric])
qed

lemma word_and_single_neq_iff:
  "w AND push_bit n (1 :: u64) \<noteq> 0 \<longleftrightarrow> bit w n"
  using word_and_single_pos_iff [of n w] by (simp add: and.commute word_neq_0_conv)

end
