(* ===== verification/Chain.thy ===== *)
theory Chain
  imports Cron_Prelude
begin

text \<open>
  chain.go: \<open>Chain.Then\<close> and the wrappers. A job is a function of its context and of the world it
  acts on; running it returns (with nil, \<open>None\<close>, or an error) or panics. The wrappers that keep
  state between runs (\<open>DelayIfStillRunning\<close>, \<open>SkipIfStillRunning\<close>, \<open>MaxConcurrent\<close>) are state
  machines over that state: what an invocation does when it arrives and when it ends.
\<close>

datatype 'b error =
    Failure 'b
  | ErrPanicError "'b error"
  | ErrPanicValue string
  | RetryBackoff "'b error"
  | ContextError

text \<open>What \<open>recover\<close> yields: a value that is an error, or any other value, as \<open>%v\<close> formats it.\<close>

datatype 'b recovered = PanicError "'b error" | PanicValue string

datatype 'b outcome = Returned "'b error option" | Panicked "'b recovered"

type_synonym ('c, 'w, 'b) job = "'c \<Rightarrow> 'w \<Rightarrow> 'b outcome \<times> 'w"

text \<open>\<open>errors.Is(err, ErrPanic)\<close>\<close>

primrec is_ErrPanic :: "'b error \<Rightarrow> bool" where
  "is_ErrPanic (Failure b) \<longleftrightarrow> False"
| "is_ErrPanic (ErrPanicError e) \<longleftrightarrow> True"
| "is_ErrPanic (ErrPanicValue v) \<longleftrightarrow> True"
| "is_ErrPanic (RetryBackoff e) \<longleftrightarrow> is_ErrPanic e"
| "is_ErrPanic ContextError \<longleftrightarrow> False"

subsection \<open>Then\<close>

type_synonym 'j Chain = "('j \<Rightarrow> 'j) list"

definition NewChain :: "('j \<Rightarrow> 'j) list \<Rightarrow> 'j Chain" where
  "NewChain c = c"

text \<open>The loop \<open>for i := range c.wrappers\<close>, from index \<open>i\<close>, \<open>n\<close> iterations left.\<close>

primrec Then_loop :: "'j Chain \<Rightarrow> nat \<Rightarrow> nat \<Rightarrow> 'j \<Rightarrow> 'j" where
  "Then_loop c 0 i j = j"
| "Then_loop c (Suc n) i j = Then_loop c n (i + 1) ((c ! (length c - i - 1)) j)"

definition Then :: "'j Chain \<Rightarrow> 'j \<Rightarrow> 'j" where
  "Then c j = Then_loop c (length c) 0 j"

lemma Then_loop_foldr:
  "n \<le> length c \<Longrightarrow> Then_loop c n (length c - n) j = foldr (\<lambda>w. w) (take n c) j"
proof (induction n arbitrary: j)
  case (Suc n)
  have "Then_loop c (Suc n) (length c - Suc n) j = Then_loop c n (length c - n) ((c ! n) j)"
    using Suc.prems by (simp add: Suc_diff_Suc)
  also have "\<dots> = foldr (\<lambda>w. w) (take (Suc n) c) j"
    using Suc by (simp add: take_Suc_conv_app_nth)
  finally show ?case .
qed simp

lemma Then_foldr: "Then c j = foldr (\<lambda>w. w) c j"
  using Then_loop_foldr [of "length c" c j] by (simp add: Then_def)

text \<open>
  The first wrapper of a chain is the outermost: \<open>NewChain(m1, ..., mn).Then(job)\<close> is
  \<open>m1(...(mn(job)))\<close>; a chain of two chains wraps in two layers.
\<close>

lemma Then_order:
  "Then (NewChain []) j = j \<and> Then (NewChain (m # ms)) j = m (Then (NewChain ms) j) \<and>
   Then (NewChain (ms @ ms')) j = Then (NewChain ms) (Then (NewChain ms') j)"
  by (simp add: Then_foldr NewChain_def)

subsection \<open>Recover and Timeout\<close>

primrec panic_error :: "'b recovered \<Rightarrow> 'b error" where
  "panic_error (PanicError e) = ErrPanicError e"
| "panic_error (PanicValue v) = ErrPanicValue v"

text \<open>\<open>log\<close> is the effect of the log call on the world.\<close>

definition Recover :: "('b error \<Rightarrow> 'w \<Rightarrow> 'w) \<Rightarrow> ('c, 'w, 'b) job \<Rightarrow> ('c, 'w, 'b) job" where
  "Recover log j ctx w =
     (case j ctx w of
        (Returned r, w') \<Rightarrow> (Returned r, w')
      | (Panicked v, w') \<Rightarrow> (Returned (Some (panic_error v)), log (panic_error v) w'))"

text \<open>
  A context, by its deadline on the clock of the world, in nanoseconds. \<open>context.WithTimeout\<close>
  gives a context whose deadline is at most the parent's; whether a context is cancelled is a matter
  of the world. \<open>Timeout\<close> runs the job under such a context; the deferred \<open>cancel\<close> runs when the
  job has ended, however it ended.
\<close>

record go_context =
  deadline :: "int option"

definition WithTimeout :: "int \<Rightarrow> int \<Rightarrow> go_context \<Rightarrow> go_context" where
  "WithTimeout now duration ctx =
     ctx\<lparr>deadline := Some (case deadline ctx of
         None \<Rightarrow> now + duration
       | Some d \<Rightarrow> min d (now + duration))\<rparr>"

definition Timeout ::
  "('w \<Rightarrow> int) \<Rightarrow> (go_context \<Rightarrow> 'w \<Rightarrow> 'w) \<Rightarrow> int \<Rightarrow> (go_context, 'w, 'b) job \<Rightarrow>
    (go_context, 'w, 'b) job" where
  "Timeout now cancel duration j ctx w =
     (let ctx' = WithTimeout (now w) duration ctx; (r, w') = j ctx' w in (r, cancel ctx' w'))"

text \<open>
  A recovered job never panics; a panic becomes an error that \<open>errors.Is\<close> recognises as
  \<open>ErrPanic\<close>, and every other result passes through untouched.
\<close>

lemma Recover_spec:
  "\<exists>r. fst (Recover log j ctx w) = Returned r \<and>
    (case j ctx w of
       (Returned x, w') \<Rightarrow> Recover log j ctx w = (Returned x, w')
     | (Panicked v, w') \<Rightarrow> (\<exists>e. r = Some e \<and> is_ErrPanic e))"
proof (cases "j ctx w")
  case (Pair o1 w')
  show ?thesis
  proof (cases o1)
    case (Panicked v)
    then show ?thesis using Pair by (cases v) (simp_all add: Recover_def)
  qed (use Pair in \<open>simp add: Recover_def\<close>)
qed

subsection \<open>RetryOnError\<close>

text \<open>
  The choice of \<open>select\<close> between the context and the timer is the world's: \<open>wait\<close> tells whether
  the context came first.
\<close>

definition retryBackoff ::
  "('c \<Rightarrow> int \<Rightarrow> 'w \<Rightarrow> bool \<times> 'w) \<Rightarrow> 'c \<Rightarrow> int \<Rightarrow> 'w \<Rightarrow> 'b error option \<times> 'w" where
  "retryBackoff wait ctx backoff w =
     (if backoff \<le> 0 then (None, w)
      else let (cancelled, w') = wait ctx backoff w
           in (if cancelled then Some (RetryBackoff ContextError) else None, w'))"

text \<open>\<open>for attempt := range maxRetries + 1\<close>, with the iterations left.\<close>

primrec retry_loop ::
  "('c \<Rightarrow> int \<Rightarrow> 'w \<Rightarrow> bool \<times> 'w) \<Rightarrow> ('c, 'w, 'b) job \<Rightarrow> 'c \<Rightarrow> int \<Rightarrow> int \<Rightarrow>
    nat \<Rightarrow> int \<Rightarrow> 'b error option \<Rightarrow> 'w \<Rightarrow> 'b outcome \<times> 'w" where
  "retry_loop wait j ctx maxRetries backoff 0 attempt err w = (Returned err, w)"
| "retry_loop wait j ctx maxRetries backoff (Suc k) attempt err w =
     (case j ctx w of
        (Panicked v, w1) \<Rightarrow> (Panicked v, w1)
      | (Returned None, w1) \<Rightarrow> (Returned None, w1)
      | (Returned (Some e), w1) \<Rightarrow>
          if attempt = maxRetries then (Returned (Some e), w1)
          else (case retryBackoff wait ctx backoff w1 of
                  (Some waitErr, w2) \<Rightarrow> (Returned (Some waitErr), w2)
                | (None, w2) \<Rightarrow>
                    retry_loop wait j ctx maxRetries backoff k (attempt + 1) (Some e) w2))"

definition executeWithRetry ::
  "('c \<Rightarrow> int \<Rightarrow> 'w \<Rightarrow> bool \<times> 'w) \<Rightarrow> 'c \<Rightarrow> ('c, 'w, 'b) job \<Rightarrow> int \<Rightarrow> int \<Rightarrow> 'w \<Rightarrow> 'b outcome \<times> 'w" where
  "executeWithRetry wait ctx j maxRetries backoff w =
     retry_loop wait j ctx maxRetries backoff (nat (i64 (maxRetries + 1))) 0 None w"

definition RetryOnError ::
  "('c \<Rightarrow> int \<Rightarrow> 'w \<Rightarrow> bool \<times> 'w) \<Rightarrow> int \<Rightarrow> int \<Rightarrow> ('c, 'w, 'b) job \<Rightarrow> ('c, 'w, 'b) job" where
  "RetryOnError wait maxRetries backoff j ctx w =
     executeWithRetry wait ctx j (max maxRetries 0) backoff w"

text \<open>An invariant of the world that the job and the wait keep is kept by the retries.\<close>

lemma retryBackoff_invariant:
  assumes "\<And>w. P w \<Longrightarrow> P (snd (wait ctx backoff w))" "P w"
  shows "P (snd (retryBackoff wait ctx backoff w))"
  using assms(1) [OF assms(2)] assms(2) by (cases "wait ctx backoff w") (simp add: retryBackoff_def)

text \<open>
  An invariant that the job and the wait keep holds after the retries, if it holds after the first
  run of the job, where there is one.
\<close>

lemma retry_loop_invariant:
  fixes j :: "('c, 'w, 'b) job"
  assumes j: "\<And>w. P w \<Longrightarrow> P (snd (j ctx w))" and wait: "\<And>w. P w \<Longrightarrow> P (snd (wait ctx backoff w))"
  shows "P (if n = 0 then w else snd (j ctx w)) \<Longrightarrow>
    P (snd (retry_loop wait j ctx maxRetries backoff n attempt err w))"
proof (induction n arbitrary: attempt err w)
  case (Suc n)
  obtain r w1 where w1: "j ctx w = (r, w1)" by fastforce
  have p1: "P w1" using Suc.prems w1 by simp
  show ?case
  proof (cases r)
    case (Panicked v)
    then show ?thesis using w1 p1 by simp
  next
    case (Returned res)
    show ?thesis
    proof (cases res)
      case None
      then show ?thesis using w1 p1 Returned by simp
    next
      case (Some e)
      obtain x :: "'b error option" and w2 where b: "retryBackoff wait ctx backoff w1 = (x, w2)" by fastforce
      have p2: "P w2" using retryBackoff_invariant [of P wait ctx backoff w1, OF wait p1] b by (metis snd_conv)
      have "P (if n = 0 then w2 else snd (j ctx w2))" using p2 j [OF p2] by simp
      from Suc.IH [OF this, of "attempt + 1" "Some e"] show ?thesis
        using w1 Returned Some b p1 p2 by (cases x) simp_all
    qed
  qed
qed simp

text \<open>Since the job runs once, it is enough that a run establishes the invariant.\<close>

lemma RetryOnError_invariant:
  assumes "\<And>w. P w \<Longrightarrow> P (snd (j ctx w))" "\<And>w. P w \<Longrightarrow> P (snd (wait ctx backoff w))"
    and "P (snd (j ctx w))" "maxRetries < 2 ^ 63 - 1"
  shows "P (snd (RetryOnError wait maxRetries backoff j ctx w))"
proof -
  have "i64 (max maxRetries 0 + 1) = max maxRetries 0 + 1" using assms(4) by (intro i64_id) auto
  then have "0 < nat (i64 (max maxRetries 0 + 1))" by simp
  then obtain n where n: "nat (i64 (max maxRetries 0 + 1)) = Suc n" using gr0_implies_Suc by blast
  show ?thesis
    unfolding RetryOnError_def executeWithRetry_def n
    by (intro retry_loop_invariant [of P j ctx wait backoff, OF assms(1,2)]) (simp_all add: assms(3))
qed

text \<open>\<open>failing j ctx w\<close>: the run returns an error. \<open>after\<close>: the world after \<open>n\<close> runs.\<close>

definition failing :: "('c, 'w, 'b) job \<Rightarrow> 'c \<Rightarrow> 'w \<Rightarrow> bool" where
  "failing j ctx w \<longleftrightarrow> (\<exists>e. fst (j ctx w) = Returned (Some e))"

definition after_runs :: "('c, 'w, 'b) job \<Rightarrow> 'c \<Rightarrow> nat \<Rightarrow> 'w \<Rightarrow> 'w" where
  "after_runs j ctx n w = ((\<lambda>w. snd (j ctx w)) ^^ n) w"

lemma after_runs_simps [simp]:
  "after_runs j ctx 0 w = w"
  "after_runs j ctx (Suc n) w = after_runs j ctx n (snd (j ctx w))"
  by (simp_all add: after_runs_def funpow_Suc_right del: funpow.simps(2))

lemma retry_loop_runs:
  assumes "backoff \<le> 0" "attempt + int k = maxRetries"
  shows "\<exists>n \<le> k. (\<forall>i < n. failing j ctx (after_runs j ctx i w)) \<and>
    (n < k \<longrightarrow> \<not> failing j ctx (after_runs j ctx n w)) \<and>
    retry_loop wait j ctx maxRetries backoff (Suc k) attempt err w = j ctx (after_runs j ctx n w)"
  using assms(2)
proof (induction k arbitrary: attempt err w)
  case 0
  then show ?case by (auto split: prod.split outcome.split option.split)
next
  case (Suc k)
  show ?case
  proof (cases "failing j ctx w")
    case False
    then have "retry_loop wait j ctx maxRetries backoff (Suc (Suc k)) attempt err w = j ctx w"
      by (auto simp: failing_def split: prod.split outcome.split option.split)
    with False show ?thesis by (intro exI [of _ 0]) simp
  next
    case True
    then obtain e w1 where e: "j ctx w = (Returned (Some e), w1)"
      by (cases "j ctx w") (auto simp: failing_def)
    let ?w = w1
    have "retry_loop wait j ctx maxRetries backoff (Suc (Suc k)) attempt err w =
        retry_loop wait j ctx maxRetries backoff (Suc k) (attempt + 1) (Some e) ?w"
      using Suc.prems assms(1) e by (subst retry_loop.simps(2)) (simp add: retryBackoff_def del: retry_loop.simps)
    moreover obtain n where "n \<le> k" "\<forall>i < n. failing j ctx (after_runs j ctx i ?w)"
        "n < k \<longrightarrow> \<not> failing j ctx (after_runs j ctx n ?w)"
        "retry_loop wait j ctx maxRetries backoff (Suc k) (attempt + 1) (Some e) ?w =
           j ctx (after_runs j ctx n ?w)"
      using Suc.IH [where attempt = "attempt + 1" and err = "Some e" and w = w1] Suc.prems by auto
    ultimately show ?thesis
      using True e by (intro exI [of _ "Suc n"]) (auto simp: less_Suc_eq_0_disj)
  qed
qed

text \<open>
  C28: without a backoff a retried job is run until a run does not fail, at most
  \<open>maxRetries + 1\<close> times, and the result is that of the last run. With the largest \<open>int\<close> as
  \<open>maxRetries\<close> the bound wraps around and the loop has no iteration: the job is not run at all,
  and the wrapper reports success.
\<close>

theorem RetryOnError_runs:
  assumes "backoff \<le> 0" "maxRetries < 2 ^ 63"
  shows "if maxRetries = 2 ^ 63 - 1 then RetryOnError wait maxRetries backoff j ctx w = (Returned None, w)
    else \<exists>n. int n \<le> max maxRetries 0 \<and> (\<forall>i < n. failing j ctx (after_runs j ctx i w)) \<and>
      (int n < max maxRetries 0 \<longrightarrow> \<not> failing j ctx (after_runs j ctx n w)) \<and>
      RetryOnError wait maxRetries backoff j ctx w = j ctx (after_runs j ctx n w)"
proof (cases "maxRetries = 2 ^ 63 - 1")
  case True
  then show ?thesis by (simp add: RetryOnError_def executeWithRetry_def i64_def)
next
  case False
  let ?m = "max maxRetries 0"
  have "i64 (?m + 1) = ?m + 1" using assms(2) False by (intro i64_id) auto
  then have k: "nat (i64 (?m + 1)) = Suc (nat ?m)" by simp
  have "int n \<le> ?m \<longleftrightarrow> n \<le> nat ?m" "int n < ?m \<longleftrightarrow> n < nat ?m" for n by linarith+
  moreover have "0 + int (nat ?m) = ?m" by simp
  ultimately show ?thesis
    using retry_loop_runs [OF assms(1), of 0 "nat ?m" ?m j ctx w wait None] False
    unfolding RetryOnError_def executeWithRetry_def k by auto
qed

text \<open>A job that fails while a counter in its world is positive.\<close>

definition counting_job :: "(unit, nat, string) job" where
  "counting_job ctx w = (if w = 0 then (Returned None, 0) else (Returned (Some (Failure ''busy'')), w - 1))"

theorem RetryOnError_runs_witness:
  "(\<exists>n \<le> 3. RetryOnError (\<lambda>_ _ w. (False, w)) 3 0 counting_job () 2 =
     counting_job () (after_runs counting_job () n 2)) \<and>
   RetryOnError (\<lambda>_ _ w. (False, w)) (2 ^ 63 - 1) 0 counting_job () 2 = (Returned None, 2)"
  using RetryOnError_runs [of 0 3 "\<lambda>_ _ w. (False, w)" counting_job "()" 2]
    RetryOnError_runs [of 0 "2 ^ 63 - 1" "\<lambda>_ _ w. (False, w)" counting_job "()" 2] by auto

subsection \<open>MaxConcurrent and SkipIfStillRunning\<close>

text \<open>
  The buffered channel holds \<open>tokens\<close>; \<open>held\<close> invocations have taken one and run the job. An
  invocation that finds the channel empty is skipped and returns nil. The deferred send gives the
  token back, also when the job panics; it would block on a full channel (\<open>None\<close>).
\<close>

record semaphore =
  capacity :: nat
  tokens :: nat
  held :: nat

definition MaxConcurrent :: "int \<Rightarrow> semaphore" where
  "MaxConcurrent limit = (let l = nat (max limit 1) in \<lparr>capacity = l, tokens = l, held = 0\<rparr>)"

definition SkipIfStillRunning :: semaphore where
  "SkipIfStillRunning = \<lparr>capacity = 1, tokens = 1, held = 0\<rparr>"

text \<open>Whether the arriving invocation runs the job, and the state it leaves.\<close>

definition arrive :: "semaphore \<Rightarrow> bool \<times> semaphore" where
  "arrive s = (if 0 < tokens s then (True, s\<lparr>tokens := tokens s - 1, held := held s + 1\<rparr>) else (False, s))"

definition depart :: "semaphore \<Rightarrow> semaphore option" where
  "depart s = (if tokens s < capacity s then Some (s\<lparr>tokens := tokens s + 1, held := held s - 1\<rparr>) else None)"

inductive sem_step :: "semaphore \<Rightarrow> semaphore \<Rightarrow> bool" where
  invoke: "arrive s = (started, s') \<Longrightarrow> sem_step s s'"
| finish: "0 < held s \<Longrightarrow> depart s = Some s' \<Longrightarrow> sem_step s s'"

definition sem_ok :: "semaphore \<Rightarrow> bool" where
  "sem_ok s \<longleftrightarrow> tokens s + held s = capacity s"

lemma sem_step_ok: "sem_step s s' \<Longrightarrow> sem_ok s \<Longrightarrow> sem_ok s' \<and> capacity s' = capacity s"
  by (induction rule: sem_step.induct) (auto simp: sem_ok_def arrive_def depart_def split: if_splits)

lemma sem_steps_ok: "sem_step\<^sup>*\<^sup>* s s' \<Longrightarrow> sem_ok s \<Longrightarrow> sem_ok s' \<and> capacity s' = capacity s"
  by (induction rule: rtranclp_induct) (auto dest: sem_step_ok)

lemma MaxConcurrent_ok: "sem_ok (MaxConcurrent limit)" "capacity (MaxConcurrent limit) = nat (max limit 1)"
  by (simp_all add: MaxConcurrent_def sem_ok_def Let_def)

lemma SkipIfStillRunning_eq: "SkipIfStillRunning = MaxConcurrent 1"
  by (simp add: SkipIfStillRunning_def MaxConcurrent_def)

text \<open>
  C30: at most \<open>max(limit, 1)\<close> invocations run at a time, one of them is skipped exactly when that
  many are running, and giving a token back never blocks; \<open>SkipIfStillRunning\<close> is the case of
  limit one.
\<close>

theorem MaxConcurrent_bound:
  assumes "sem_step\<^sup>*\<^sup>* (MaxConcurrent limit) s"
  shows "int (held s) \<le> max limit 1 \<and> (\<not> fst (arrive s) \<longleftrightarrow> int (held s) = max limit 1) \<and>
    (held s = 0 \<or> (\<exists>s'. depart s = Some s')) \<and> SkipIfStillRunning = MaxConcurrent 1"
proof -
  have s: "tokens s + held s = capacity s" "int (capacity s) = max limit 1"
    using sem_steps_ok [OF assms MaxConcurrent_ok(1)]
    by (simp_all add: sem_ok_def MaxConcurrent_ok(2) max_def)
  then show ?thesis
    by (auto simp: arrive_def depart_def SkipIfStillRunning_eq)
qed

theorem MaxConcurrent_bound_witness:
  "\<exists>s. sem_step\<^sup>*\<^sup>* (MaxConcurrent 2) s \<and> held s = 2 \<and> \<not> fst (arrive s)"
proof -
  let ?s = "\<lambda>n. \<lparr>capacity = 2, tokens = 2 - n, held = n\<rparr>"
  have "sem_step (?s 0) (?s 1)" "sem_step (?s 1) (?s 2)"
    by (auto intro!: sem_step.invoke [where started = True] simp: arrive_def)
  then have "sem_step\<^sup>*\<^sup>* (?s 0) (?s 2)" by (meson r_into_rtranclp rtranclp_trans)
  then have "sem_step\<^sup>*\<^sup>* (MaxConcurrent 2) (?s 2)" by (simp add: MaxConcurrent_def)
  moreover from MaxConcurrent_bound [OF this] have "\<not> fst (arrive (?s 2))" by simp
  ultimately show ?thesis by (intro exI [of _ "?s 2"]) simp
qed

subsection \<open>DelayIfStillRunning\<close>

text \<open>
  A mutex: invocations wait for it and none is dropped. An invocation reads the clock when it arrives and
  again when it has the mutex, and logs the time in between, in nanoseconds, when that is more than a
  minute. \<open>waiting\<close> holds the first readings of the invocations that wait, \<open>logged\<close> the durations logged.
\<close>

record delay =
  mono_clock :: int
  locked :: bool
  waiting :: "int list"
  running_jobs :: nat
  finished :: nat
  logged :: "int list"


definition log_delay :: "int \<Rightarrow> int list \<Rightarrow> int list" where
  "log_delay dur log = (if dur > 60 * 1000000000 then log @ [dur] else log)"

inductive delay_step :: "delay \<Rightarrow> delay \<Rightarrow> bool" where
  tick: "0 \<le> d \<Longrightarrow> delay_step s (s\<lparr>mono_clock := mono_clock s + d\<rparr>)"
| invoke: "delay_step s (s\<lparr>waiting := waiting s @ [mono_clock s]\<rparr>)"
| lock: "start \<in> set (waiting s) \<Longrightarrow> \<not> locked s \<Longrightarrow>
    delay_step s (s\<lparr>locked := True, waiting := remove1 start (waiting s), running_jobs := running_jobs s + 1,
      logged := log_delay (mono_clock s - start) (logged s)\<rparr>)"
| unlock: "0 < running_jobs s \<Longrightarrow>
    delay_step s (s\<lparr>locked := False, running_jobs := running_jobs s - 1, finished := finished s + 1\<rparr>)"

inductive_simps delay_step_iff: "delay_step s s'"









end
