(* ===== verification/Chain_Order.thy ===== *)
theory Chain_Order
  imports Chain
begin

text \<open>
  The order of wrappers in a chain, on the example of doc.go: \<open>Timeout\<close> and \<open>RetryOnError\<close>. A job
  is observed by logging, at the start of each of its runs, the context it is given and the time.
\<close>

type_synonym runs_log = "(go_context \<times> int) list"

definition observed ::
  "('w \<Rightarrow> int) \<Rightarrow> (go_context, 'w, 'b) job \<Rightarrow> (go_context, 'w \<times> runs_log, 'b) job" where
  "observed now j ctx w =
     (let (r, w') = j ctx (fst w) in (r, (w', snd w @ [(ctx, now (fst w))])))"

text \<open>The effects of the wrappers on the world, which do not touch the log.\<close>

definition wait_logged ::
  "(go_context \<Rightarrow> int \<Rightarrow> 'w \<Rightarrow> bool \<times> 'w) \<Rightarrow> go_context \<Rightarrow> int \<Rightarrow> 'w \<times> runs_log \<Rightarrow> bool \<times> ('w \<times> runs_log)" where
  "wait_logged wait ctx d w = (let (b, w') = wait ctx d (fst w) in (b, (w', snd w)))"

definition cancel_logged ::
  "(go_context \<Rightarrow> 'w \<Rightarrow> 'w) \<Rightarrow> go_context \<Rightarrow> 'w \<times> runs_log \<Rightarrow> 'w \<times> runs_log" where
  "cancel_logged cancel ctx w = (cancel ctx (fst w), snd w)"

definition timeout_then_retry ::
  "('w \<Rightarrow> int) \<Rightarrow> (go_context \<Rightarrow> int \<Rightarrow> 'w \<Rightarrow> bool \<times> 'w) \<Rightarrow> (go_context \<Rightarrow> 'w \<Rightarrow> 'w) \<Rightarrow>
    int \<Rightarrow> int \<Rightarrow> int \<Rightarrow> (go_context, 'w \<times> runs_log, 'b) job Chain" where
  "timeout_then_retry now wait cancel d n b =
     NewChain [Timeout (now \<circ> fst) (cancel_logged cancel) d, RetryOnError (wait_logged wait) n b]"

definition retry_then_timeout ::
  "('w \<Rightarrow> int) \<Rightarrow> (go_context \<Rightarrow> int \<Rightarrow> 'w \<Rightarrow> bool \<times> 'w) \<Rightarrow> (go_context \<Rightarrow> 'w \<Rightarrow> 'w) \<Rightarrow>
    int \<Rightarrow> int \<Rightarrow> int \<Rightarrow> (go_context, 'w \<times> runs_log, 'b) job Chain" where
  "retry_then_timeout now wait cancel d n b =
     NewChain [RetryOnError (wait_logged wait) n b, Timeout (now \<circ> fst) (cancel_logged cancel) d]"

definition runs_of ::
  "('w \<Rightarrow> int) \<Rightarrow> (go_context, 'w \<times> runs_log, 'b) job Chain \<Rightarrow> (go_context, 'w, 'b) job \<Rightarrow>
    go_context \<Rightarrow> 'w \<Rightarrow> runs_log" where
  "runs_of now ch j ctx w = snd (snd (Then ch (observed now j) ctx (w, [])))"

lemma observed_log: "snd (snd (observed now j ctx w)) = snd w @ [(ctx, now (fst w))]"
  by (simp add: observed_def split: prod.split)

lemma wait_logged_log: "snd (snd (wait_logged wait ctx d w)) = snd w"
  by (simp add: wait_logged_def split: prod.split)

lemma Timeout_log:
  "snd (snd (Timeout (now \<circ> fst) (cancel_logged cancel) d j ctx w)) =
     snd (snd (j (WithTimeout (now (fst w)) d ctx) w))"
  by (simp add: Timeout_def cancel_logged_def Let_def split: prod.split)

text \<open>Where every run of the job logs what \<open>Q\<close> accepts, so do the retries, and they log something.\<close>

lemma RetryOnError_log:
  fixes j :: "(go_context, 'w \<times> runs_log, 'b) job"
  assumes log: "\<And>w. \<exists>x. snd (snd (j ctx w)) = snd w @ [x] \<and> Q x" and "maxRetries < 2 ^ 63 - 1"
  shows "let l = snd (snd (RetryOnError (wait_logged wait) maxRetries backoff j ctx (w, []))) in l \<noteq> [] \<and> list_all Q l"
proof -
  define P where "P = (\<lambda>w :: 'w \<times> runs_log. snd w \<noteq> [] \<and> list_all Q (snd w))"
  have step: "P (snd (j ctx v))" if "list_all Q (snd v)" for v
    using log [of v] that by (auto simp: P_def)
  have "P (snd (RetryOnError (wait_logged wait) maxRetries backoff j ctx (w, [])))"
    by (rule RetryOnError_invariant [OF _ _ _ assms(2)])
      (use step in \<open>simp_all add: P_def wait_logged_log\<close>)
  then show ?thesis by (simp add: P_def Let_def)
qed

text \<open>
  C19: the documentation says that \<open>NewChain(Timeout(d), RetryOnError(n, b))\<close> gives each attempt its own
  timeout and that the reverse order shares one timeout across all attempts. It is the other way round:
  in the first chain every attempt runs under the one deadline that was fixed when the job
  started, in the second each attempt gets a deadline of its own, \<open>d\<close> after its start.
\<close>

theorem timeout_retry_order:
  assumes "maxRetries < 2 ^ 63 - 1"
  shows "(let log = runs_of now (timeout_then_retry now wait cancel d maxRetries backoff) j ctx w
      in log \<noteq> [] \<and> list_all (\<lambda>(c, t). c = WithTimeout (now w) d ctx) log) \<and>
    (let log = runs_of now (retry_then_timeout now wait cancel d maxRetries backoff) j ctx w
      in log \<noteq> [] \<and> list_all (\<lambda>(c, t). c = WithTimeout t d ctx) log)"
proof
  show "let log = runs_of now (timeout_then_retry now wait cancel d maxRetries backoff) j ctx w
      in log \<noteq> [] \<and> list_all (\<lambda>(c, t). c = WithTimeout (now w) d ctx) log"
    using RetryOnError_log [of "observed now j" "WithTimeout (now w) d ctx" "\<lambda>(c, t). c = WithTimeout (now w) d ctx"
        maxRetries wait backoff w] assms
    by (simp add: runs_of_def timeout_then_retry_def Then_foldr NewChain_def Timeout_log observed_log)
  show "let log = runs_of now (retry_then_timeout now wait cancel d maxRetries backoff) j ctx w
      in log \<noteq> [] \<and> list_all (\<lambda>(c, t). c = WithTimeout t d ctx) log"
    using RetryOnError_log [of "Timeout (now \<circ> fst) (cancel_logged cancel) d (observed now j)" ctx
        "\<lambda>(c, t). c = WithTimeout t d ctx" maxRetries wait backoff w] assms
    by (simp add: runs_of_def retry_then_timeout_def Then_foldr NewChain_def Timeout_log observed_log)
qed

text \<open>A job on a clock that takes ten seconds and fails before second 15, with five seconds of timeout.\<close>

definition slow_job :: "(go_context, int, string) job" where
  "slow_job ctx w = (Returned (if w < 15 then Some (Failure ''late'') else None), w + 10)"

theorem timeout_retry_order_witness:
  "list_all (\<lambda>(c, t). c = \<lparr>deadline = Some 5\<rparr>)
     (runs_of id (timeout_then_retry id (\<lambda>_ _ w. (False, w)) (\<lambda>_ w. w) 5 3 0) slow_job \<lparr>deadline = None\<rparr> 0) \<and>
   list_all (\<lambda>(c, t). c = \<lparr>deadline = Some (t + 5)\<rparr>)
     (runs_of id (retry_then_timeout id (\<lambda>_ _ w. (False, w)) (\<lambda>_ w. w) 5 3 0) slow_job \<lparr>deadline = None\<rparr> 0)"
  using timeout_retry_order [of 3 id "\<lambda>_ _ w. (False, w)" "\<lambda>_ w. w" 5 0 slow_job "\<lparr>deadline = None\<rparr>" 0]
  by (simp add: Let_def WithTimeout_def)

end
