(* ===== verification/Spec_Fields.thy ===== *)
theory Spec_Fields
  imports Cron_Prelude
begin

text \<open>
  Bit-set fields of a schedule: the acceptable ranges (\<open>bounds\<close> and the six \<open>...Bounds\<close>
  functions of spec.go), the bit test \<open>hasBit\<close>, and the constructors of bit sets \<open>getBits\<close> and
  \<open>all\<close> of parser.go. The lemmas say which bits \<open>getBits\<close> sets, that its loop ends where the
  parser uses it, and what the ranges are.
\<close>

subsection \<open>Bounds\<close>

text \<open>The values of spec.go: the ranges of the fields, the months and the days of the week.\<close>

definition minSecondValue :: u64 where "minSecondValue = 0"
definition maxSecondValue :: u64 where "maxSecondValue = 59"
definition minMinuteValue :: u64 where "minMinuteValue = 0"
definition maxMinuteValue :: u64 where "maxMinuteValue = 59"
definition minHourValue :: u64 where "minHourValue = 0"
definition maxHourValue :: u64 where "maxHourValue = 23"
definition minDayOfMonthValue :: u64 where "minDayOfMonthValue = 1"
definition maxDayOfMonthValue :: u64 where "maxDayOfMonthValue = 31"
definition minMonthValue :: u64 where "minMonthValue = 1"
definition maxMonthValue :: u64 where "maxMonthValue = 12"
definition minDayOfWeekValue :: u64 where "minDayOfWeekValue = 0"
definition maxDayOfWeekValue :: u64 where "maxDayOfWeekValue = 6"
definition monthJanuaryValue :: u64 where "monthJanuaryValue = 1"
definition monthFebruaryValue :: u64 where "monthFebruaryValue = 2"
definition monthMarchValue :: u64 where "monthMarchValue = 3"
definition monthAprilValue :: u64 where "monthAprilValue = 4"
definition monthMayValue :: u64 where "monthMayValue = 5"
definition monthJuneValue :: u64 where "monthJuneValue = 6"
definition monthJulyValue :: u64 where "monthJulyValue = 7"
definition monthAugustValue :: u64 where "monthAugustValue = 8"
definition monthSeptemberValue :: u64 where "monthSeptemberValue = 9"
definition monthOctoberValue :: u64 where "monthOctoberValue = 10"
definition monthNovemberValue :: u64 where "monthNovemberValue = 11"
definition monthDecemberValue :: u64 where "monthDecemberValue = 12"
definition weekdaySundayValue :: u64 where "weekdaySundayValue = 0"
definition weekdayMondayValue :: u64 where "weekdayMondayValue = 1"
definition weekdayTuesdayValue :: u64 where "weekdayTuesdayValue = 2"
definition weekdayWednesdayValue :: u64 where "weekdayWednesdayValue = 3"
definition weekdayThursdayValue :: u64 where "weekdayThursdayValue = 4"
definition weekdayFridayValue :: u64 where "weekdayFridayValue = 5"
definition weekdaySaturdayValue :: u64 where "weekdaySaturdayValue = 6"

lemmas value_defs =
  minSecondValue_def maxSecondValue_def minMinuteValue_def maxMinuteValue_def minHourValue_def
  maxHourValue_def minDayOfMonthValue_def maxDayOfMonthValue_def minMonthValue_def
  maxMonthValue_def minDayOfWeekValue_def maxDayOfWeekValue_def monthJanuaryValue_def
  monthFebruaryValue_def monthMarchValue_def monthAprilValue_def monthMayValue_def
  monthJuneValue_def monthJulyValue_def monthAugustValue_def monthSeptemberValue_def
  monthOctoberValue_def monthNovemberValue_def monthDecemberValue_def weekdaySundayValue_def
  weekdayMondayValue_def weekdayTuesdayValue_def weekdayWednesdayValue_def weekdayThursdayValue_def
  weekdayFridayValue_def weekdaySaturdayValue_def

text \<open>\<open>names\<close> is a Go map that may be nil, here \<open>None\<close>.\<close>

record bounds =
  bmin :: u64
  bmax :: u64
  bnames :: "(string \<times> u64) list option"

definition starBit :: u64 where
  "starBit = push_bit 63 1"

definition secondBounds :: bounds where
  "secondBounds = \<lparr>bmin = minSecondValue, bmax = maxSecondValue, bnames = None\<rparr>"

definition minuteBounds :: bounds where
  "minuteBounds = \<lparr>bmin = minMinuteValue, bmax = maxMinuteValue, bnames = None\<rparr>"

definition hourBounds :: bounds where
  "hourBounds = \<lparr>bmin = minHourValue, bmax = maxHourValue, bnames = None\<rparr>"

definition dayOfMonthBounds :: bounds where
  "dayOfMonthBounds = \<lparr>bmin = minDayOfMonthValue, bmax = maxDayOfMonthValue, bnames = None\<rparr>"

definition monthBounds :: bounds where
  "monthBounds = \<lparr>bmin = minMonthValue, bmax = maxMonthValue, bnames = Some
     [(''jan'', monthJanuaryValue), (''feb'', monthFebruaryValue),
      (''mar'', monthMarchValue), (''apr'', monthAprilValue), (''may'', monthMayValue),
      (''jun'', monthJuneValue), (''jul'', monthJulyValue),
      (''aug'', monthAugustValue), (''sep'', monthSeptemberValue),
      (''oct'', monthOctoberValue), (''nov'', monthNovemberValue),
      (''dec'', monthDecemberValue)]\<rparr>"

definition dayOfWeekBounds :: bounds where
  "dayOfWeekBounds = \<lparr>bmin = minDayOfWeekValue, bmax = maxDayOfWeekValue, bnames = Some
     [(''sun'', weekdaySundayValue), (''mon'', weekdayMondayValue),
      (''tue'', weekdayTuesdayValue), (''wed'', weekdayWednesdayValue),
      (''thu'', weekdayThursdayValue), (''fri'', weekdayFridayValue),
      (''sat'', weekdaySaturdayValue)]\<rparr>"

lemmas bounds_defs = secondBounds_def minuteBounds_def hourBounds_def dayOfMonthBounds_def
  monthBounds_def dayOfWeekBounds_def value_defs

subsection \<open>Testing and building bit sets\<close>

definition hasBit :: "u64 \<Rightarrow> nat \<Rightarrow> bool" where
  "hasBit bitset position \<longleftrightarrow> 0 < push_bit position 1 AND bitset"

partial_function (option) getBits_loop :: "u64 \<Rightarrow> u64 \<Rightarrow> u64 \<Rightarrow> u64 \<Rightarrow> u64 option" where
  "getBits_loop i upper step bits =
     (if i \<le> upper then getBits_loop (i + step) upper step (bits OR push_bit (unat i) 1)
      else Some bits)"

declare getBits_loop.simps [code]

definition getBits :: "u64 \<Rightarrow> u64 \<Rightarrow> u64 \<Rightarrow> u64 option" where
  "getBits lower upper step =
     (if step = 1
      then Some (NOT (push_bit (unat (upper + 1)) (- 1)) AND push_bit (unat lower) (- 1))
      else getBits_loop lower upper step 0)"

definition all_bits :: "bounds \<Rightarrow> u64 option" where
  "all_bits r = map_option (\<lambda>b. b OR starBit) (getBits (bmin r) (bmax r) 1)"

lemma hasBit_iff: "hasBit w n \<longleftrightarrow> bit w n"
  by (simp only: hasBit_def word_and_single_pos_iff)

lemma bit_starBit: "bit starBit i \<longleftrightarrow> i = 63"
  unfolding starBit_def bit_single by auto

subsection \<open>What getBits computes\<close>

lemma u64_bit_less: "bit (w :: u64) i \<Longrightarrow> i < 64"
  using bit_imp_le_length [of w i] by simp

lemma dvd_from_next:
  fixes i n s u :: nat
  assumes "0 < s" "i \<le> u"
  shows "n = i \<or> (i + s \<le> n \<and> n \<le> u \<and> s dvd n - (i + s)) \<longleftrightarrow> i \<le> n \<and> n \<le> u \<and> s dvd n - i"
proof (cases "i < n")
  case True
  then have "s dvd n - i \<longleftrightarrow> i + s \<le> n \<and> s dvd n - (i + s)"
    using dvd_imp_le [of s "n - i"] dvd_minus_self [of s "n - i"] assms(1) by (auto simp: diff_diff_left)
  with True show ?thesis by auto
qed (use assms in auto)

lemma getBits_loop_bits:
  assumes "unat upper < 64" "0 < unat step" "unat step < 2 ^ 63" "unat i < 2 ^ 63 + 64"
  shows "\<exists>b. getBits_loop i upper step bits = Some b \<and>
    (\<forall>n. bit b n \<longleftrightarrow> bit bits n \<or>
      (unat i \<le> n \<and> n \<le> unat upper \<and> unat step dvd n - unat i))"
  using assms(4)
proof (induction "64 - unat i" arbitrary: i bits rule: less_induct)
  case less
  show ?case
  proof (cases "i \<le> upper")
    case False
    then show ?thesis
      by (subst getBits_loop.simps) (auto simp: word_le_nat_alt)
  next
    case True
    then have i: "unat i \<le> unat upper" "unat i < 64" using assms(1) by (simp_all add: word_le_nat_alt)
    have plus: "unat (i + step) = unat i + unat step"
      using i assms(3) by (simp add: unat_word_ariths)
    have "64 - unat (i + step) < 64 - unat i" "unat (i + step) < 2 ^ 63 + 64"
      using i assms(2,3) by (simp_all add: plus)
    from less.hyps [OF this, of "bits OR push_bit (unat i) 1"] obtain b where
      b: "getBits_loop (i + step) upper step (bits OR push_bit (unat i) 1) = Some b"
        "\<forall>n. bit b n \<longleftrightarrow> bit (bits OR push_bit (unat i) 1) n \<or>
          (unat (i + step) \<le> n \<and> n \<le> unat upper \<and> unat step dvd n - unat (i + step))"
      by blast
    have step: "n = unat i \<or> (unat i + unat step \<le> n \<and> n \<le> unat upper \<and> unat step dvd n - (unat i + unat step))
        \<longleftrightarrow> unat i \<le> n \<and> n \<le> unat upper \<and> unat step dvd n - unat i" for n
      using assms(2) i(1) by (rule dvd_from_next)
    have eq: "getBits_loop i upper step bits = Some b"
      using b(1) True by (subst getBits_loop.simps) simp
    have "bit b n \<longleftrightarrow> bit bits n \<or> (unat i \<le> n \<and> n \<le> unat upper \<and> unat step dvd n - unat i)" for n
      using b(2) step [of n] i(2) by (auto simp: bit_or_iff bit_exp_iff plus)
    with eq show ?thesis by blast
  qed
qed

lemma getBits_step1:
  assumes "unat upper < 64"
  shows "\<exists>b. getBits lower upper 1 = Some b \<and>
    (\<forall>n. bit b n \<longleftrightarrow> unat lower \<le> n \<and> n \<le> unat upper)"
proof -
  have "unat (upper + 1) = unat upper + 1" using assms by (simp add: unat_word_ariths)
  then show ?thesis
    using assms by (auto simp: getBits_def bit_and_iff bit_not_iff bit_mask_iff)
qed

lemma getBits_step_bits:
  assumes "unat upper < 64" "0 < unat step" "unat step < 2 ^ 63" "unat lower < 2 ^ 63 + 64"
  shows "\<exists>b. getBits lower upper step = Some b \<and>
    (\<forall>n. bit b n \<longleftrightarrow> unat lower \<le> n \<and> n \<le> unat upper \<and> unat step dvd n - unat lower)"
proof (cases "step = 1")
  case True
  with getBits_step1 [OF assms(1), of lower] show ?thesis by simp
next
  case False
  with getBits_loop_bits [OF assms(1-3), of lower 0] assms(4) show ?thesis
    by (simp add: getBits_def)
qed

text \<open>
  For an upper bound below 64 and a step that is positive and below \<open>2 ^ 63\<close>, \<open>getBits\<close>
  ends and sets exactly the bits \<open>lower, lower + step, ...\<close> up to \<open>upper\<close>.
\<close>

lemma getBits_spec:
  assumes "unat upper < 64" "0 < unat step" "unat step < 2 ^ 63" "unat lower < 2 ^ 63 + 64"
  shows "\<exists>b. getBits lower upper step = Some b \<and>
    (\<forall>n. bit b n \<longleftrightarrow> unat lower \<le> n \<and> n \<le> unat upper \<and> unat step dvd n - unat lower)"
  by (rule getBits_step_bits [OF assms])

end
