(* ===== verification/Go_Calendar.thy ===== *)
theory Go_Calendar
  imports Main
begin

text \<open>
  The proleptic Gregorian calendar as Go's package \<open>time\<close> uses it: day numbers, years, months,
  days of the month and weekdays, and the facts that tie them together (a day lies in the
  year and month computed for it, a valid date is recovered from its day number).
\<close>

subsection \<open>The calendar\<close>

text \<open>Days are numbered from 0, which is Monday, January 1 of the year 1.\<close>

definition leap :: "int \<Rightarrow> bool" where
  "leap y \<longleftrightarrow> y mod 4 = 0 \<and> (y mod 100 \<noteq> 0 \<or> y mod 400 = 0)"

definition days_before_year :: "int \<Rightarrow> int" where
  "days_before_year y = (let p = y - 1 in 365 * p + p div 4 - p div 100 + p div 400)"

definition year_of_day :: "int \<Rightarrow> int" where
  "year_of_day n =
     (let y = (400 * n) div 146097 + 1
      in if n < days_before_year y then y - 1
         else if days_before_year (y + 1) \<le> n then y + 1
         else y)"

definition leap_day :: "int \<Rightarrow> int" where
  "leap_day y = (if leap y then 1 else 0)"

fun days_before_month :: "int \<Rightarrow> nat \<Rightarrow> int" where
  "days_before_month y m =
     (if m \<le> 1 then 0
      else if m = 2 then 31
      else (if m = 3 then 59 else if m = 4 then 90 else if m = 5 then 120
            else if m = 6 then 151 else if m = 7 then 181 else if m = 8 then 212
            else if m = 9 then 243 else if m = 10 then 273 else if m = 11 then 304
            else if m = 12 then 334 else 365) + leap_day y)"

declare days_before_month.simps [simp del]

definition month_of_yday :: "int \<Rightarrow> int \<Rightarrow> nat" where
  "month_of_yday y d =
     (if d < days_before_month y 2 then 1 else if d < days_before_month y 3 then 2
      else if d < days_before_month y 4 then 3 else if d < days_before_month y 5 then 4
      else if d < days_before_month y 6 then 5 else if d < days_before_month y 7 then 6
      else if d < days_before_month y 8 then 7 else if d < days_before_month y 9 then 8
      else if d < days_before_month y 10 then 9 else if d < days_before_month y 11 then 10
      else if d < days_before_month y 12 then 11 else 12)"

definition yday :: "int \<Rightarrow> int" where
  "yday n = n - days_before_year (year_of_day n)"

definition month_of_day :: "int \<Rightarrow> nat" where
  "month_of_day n = month_of_yday (year_of_day n) (yday n)"

definition mday_of_day :: "int \<Rightarrow> nat" where
  "mday_of_day n = nat (yday n - days_before_month (year_of_day n) (month_of_day n)) + 1"

definition weekday_of_day :: "int \<Rightarrow> nat" where
  "weekday_of_day n = nat ((n + 1) mod 7)"

definition day_number :: "int \<Rightarrow> nat \<Rightarrow> int \<Rightarrow> int" where
  "day_number y m d = days_before_year y + days_before_month y m + (d - 1)"

subsection \<open>Facts about the calendar\<close>

lemma div_unique:
  fixes p k q :: int
  assumes "k * q \<le> p" "p < k * q + k"
  shows "p div k = q"
  using assms by (intro int_div_pos_eq [of p k q "p - k * q"]) simp_all

lemma div_bounds:
  fixes p k :: int
  assumes "0 < k"
  shows "k * (p div k) \<le> p" "p < k * (p div k) + k"
  using assms pos_mod_sign [of k p] pos_mod_bound [of k p] mult_div_mod_eq [of k p] by linarith+

lemma div_step:
  fixes p k :: int
  assumes "0 < k"
  shows "(p + 1) div k = p div k + (if (p + 1) mod k = 0 then 1 else 0)"
proof (cases "(p + 1) mod k = 0")
  case True
  then obtain q where q: "p + 1 = k * q" by (auto simp: mod_eq_0_iff_dvd dvd_def)
  then have "p div k = q - 1"
    using assms by (intro div_unique) (simp_all add: algebra_simps)
  with True q assms show ?thesis by simp
next
  case False
  have m: "0 < (p + 1) mod k" "(p + 1) mod k < k" "k * ((p + 1) div k) + (p + 1) mod k = p + 1"
    using False assms pos_mod_sign [of k "p + 1"] pos_mod_bound [of k "p + 1"]
    by (simp_all add: order_less_le)
  have "p div k = (p + 1) div k"
    using m by (intro div_unique) linarith+
  with False show ?thesis by simp
qed

lemma leap_day_eq:
  "leap_day y = (if y mod 4 = 0 then 1 else 0) - (if y mod 100 = 0 then 1 else 0)
     + (if y mod 400 = 0 then 1 else 0)"
proof -
  have dvds: "100 dvd y \<Longrightarrow> 4 dvd y" "400 dvd y \<Longrightarrow> 100 dvd y"
    by (auto elim: dvd_trans [rotated])
  have cases: "(if a \<and> (\<not> b \<or> c) then 1 else 0 :: int)
      = (if a then 1 else 0) - (if b then 1 else 0) + (if c then 1 else 0)"
    if "b \<longrightarrow> a" "c \<longrightarrow> b" for a b c
    using that by (cases a; cases b; cases c) simp_all
  show ?thesis
    unfolding leap_day_def leap_def mod_eq_0_iff_dvd by (rule cases) (use dvds in blast)+
qed

lemma days_before_year_step: "days_before_year (y + 1) = days_before_year y + 365 + leap_day y"
proof -
  have sum: "365 * y + a' - b' + c' = 365 * (y - 1) + a - b + c + 365 + (d - e + f)"
    if "a' = a + d" "b' = b + e" "c' = c + f" for a a' b b' c c' d e f :: int
    using that by simp
  have "y div k = (y - 1) div k + (if y mod k = 0 then 1 else 0)" if "0 < k" for k :: int
    using div_step [OF that, of "y - 1"] by simp
  then show ?thesis
    unfolding days_before_year_def Let_def leap_day_eq add_diff_cancel_right'
    by (intro sum) simp_all
qed

lemma leap_day_cases: "leap_day y = 0 \<or> leap_day y = 1"
  by (simp add: leap_day_def)

lemma days_before_year_add:
  "days_before_year y + 365 * int n \<le> days_before_year (y + int n)"
proof (induction n)
  case (Suc n)
  have "days_before_year (y + int (Suc n)) = days_before_year (y + int n) + 365 + leap_day (y + int n)"
    using days_before_year_step [of "y + int n"] by (simp add: algebra_simps)
  with Suc leap_day_cases [of "y + int n"] show ?case by auto
qed simp

lemma days_before_year_gap:
  assumes "x < y"
  shows "days_before_year x + 365 \<le> days_before_year y"
proof -
  have "days_before_year x + 365 * int (nat (y - x)) \<le> days_before_year y"
    using days_before_year_add [of x "nat (y - x)"] assms by simp
  with assms show ?thesis by simp
qed

lemma days_before_year_mono: "x \<le> y \<Longrightarrow> days_before_year x \<le> days_before_year y"
  using days_before_year_gap [of x y] by (cases "x = y") auto

lemma days_before_year_linear:
  "146097 * (y - 1) - 800 \<le> 400 * days_before_year y"
  "400 * days_before_year y \<le> 146097 * (y - 1) + 400"
  using div_bounds [of 4 "y - 1"] div_bounds [of 100 "y - 1"] div_bounds [of 400 "y - 1"]
  by (simp_all add: days_before_year_def Let_def)

lemma days_before_year_estimate:
  assumes "y = (400 * n) div 146097 + 1"
  shows "days_before_year (y - 1) \<le> n" "n < days_before_year (y + 2)"
proof -
  define q where "q = (400 * n) div 146097"
  have q: "146097 * q \<le> 400 * n" "400 * n < 146097 * q + 146097" "y = q + 1"
    using div_bounds [of 146097 "400 * n"] assms by (simp_all add: q_def)
  show "days_before_year (y - 1) \<le> n"
    using q days_before_year_linear [of "y - 1"] by simp
  show "n < days_before_year (y + 2)"
    using q days_before_year_linear [of "y + 2"] by simp
qed

lemma year_of_day_bounds:
  "days_before_year (year_of_day n) \<le> n" "n < days_before_year (year_of_day n + 1)"
proof -
  define y where "y = (400 * n) div 146097 + 1"
  note est = days_before_year_estimate [OF y_def]
  have eq: "year_of_day n =
      (if n < days_before_year y then y - 1
       else if days_before_year (y + 1) \<le> n then y + 1 else y)"
    by (simp add: year_of_day_def y_def Let_def)
  show "days_before_year (year_of_day n) \<le> n" "n < days_before_year (year_of_day n + 1)"
    using est by (auto simp: eq add.commute)
qed

lemma year_of_day_unique:
  assumes "days_before_year y \<le> n" "n < days_before_year (y + 1)"
  shows "year_of_day n = y"
proof (rule ccontr)
  assume "year_of_day n \<noteq> y"
  then have "year_of_day n + 1 \<le> y \<or> y + 1 \<le> year_of_day n" by linarith
  then show False
    using assms year_of_day_bounds [of n]
      days_before_year_mono [of "year_of_day n + 1" y]
      days_before_year_mono [of "y + 1" "year_of_day n"] by auto
qed

lemma yday_bounds: "0 \<le> yday n" "yday n < 365 + leap_day (year_of_day n)"
  using year_of_day_bounds [of n] days_before_year_step [of "year_of_day n"]
  by (simp_all add: yday_def)

subsection \<open>Months\<close>

lemma days_before_month_values:
  "days_before_month y 1 = 0" "days_before_month y 2 = 31"
  "days_before_month y 3 = 59 + leap_day y" "days_before_month y 4 = 90 + leap_day y"
  "days_before_month y 5 = 120 + leap_day y" "days_before_month y 6 = 151 + leap_day y"
  "days_before_month y 7 = 181 + leap_day y" "days_before_month y 8 = 212 + leap_day y"
  "days_before_month y 9 = 243 + leap_day y" "days_before_month y 10 = 273 + leap_day y"
  "days_before_month y 11 = 304 + leap_day y" "days_before_month y 12 = 334 + leap_day y"
  "days_before_month y 13 = 365 + leap_day y"
  "days_before_month y (Suc 0) = 0" "days_before_month y (Suc (Suc 0)) = 31"
  by (simp_all add: days_before_month.simps)

lemma month_cases:
  assumes "1 \<le> m" "m \<le> 12"
  shows "m = 1 \<or> m = 2 \<or> m = 3 \<or> m = 4 \<or> m = 5 \<or> m = 6 \<or> m = 7 \<or> m = 8 \<or> m = 9
    \<or> m = 10 \<or> m = 11 \<or> m = (12 :: nat)"
  using assms by presburger

lemma days_before_month_step:
  assumes "1 \<le> m" "m \<le> 12"
  shows "days_before_month y m + 28 \<le> days_before_month y (m + 1)"
    "days_before_month y (m + 1) \<le> days_before_month y m + 31"
proof -
  note m = month_cases [OF assms]
  have leap: "0 \<le> leap_day y" "leap_day y \<le> 1" by (simp_all add: leap_day_def)
  from m leap show "days_before_month y m + 28 \<le> days_before_month y (m + 1)"
    by (elim disjE) (simp_all add: days_before_month_values)
  from m leap show "days_before_month y (m + 1) \<le> days_before_month y m + 31"
    by (elim disjE) (simp_all add: days_before_month_values)
qed

lemma days_before_month_mono:
  assumes "1 \<le> m" "m \<le> k" "k \<le> 13"
  shows "days_before_month y m \<le> days_before_month y k"
  using assms(2,1,3)
proof (induction k rule: dec_induct)
  case (step k)
  then show ?case using days_before_month_step [of k y] by simp
qed simp

lemma month_of_yday_bounds:
  assumes "0 \<le> d" "d < 365 + leap_day y"
  shows "1 \<le> month_of_yday y d" "month_of_yday y d \<le> 12"
    "days_before_month y (month_of_yday y d) \<le> d"
    "d < days_before_month y (month_of_yday y d + 1)"
  using assms by (simp_all add: month_of_yday_def days_before_month_values)

lemma month_of_yday_unique:
  assumes "1 \<le> m" "m \<le> 12" "days_before_month y m \<le> d" "d < days_before_month y (m + 1)"
  shows "month_of_yday y d = m"
proof (rule ccontr)
  let ?k = "month_of_yday y d"
  have "0 \<le> days_before_month y m" "days_before_month y (m + 1) \<le> 365 + leap_day y"
    using days_before_month_mono [of 1 m y] days_before_month_mono [of "m + 1" 13 y] assms
    by (simp_all add: days_before_month_values)
  with assms have "0 \<le> d" "d < 365 + leap_day y" by simp_all
  note k = month_of_yday_bounds [OF this]
  assume "?k \<noteq> m"
  then have "?k + 1 \<le> m \<or> m + 1 \<le> ?k" by linarith
  then show False
    using assms k days_before_month_mono [of "?k + 1" m y] days_before_month_mono [of "m + 1" ?k y]
    by auto
qed

lemma month_of_day_bounds:
  "1 \<le> month_of_day n" "month_of_day n \<le> 12"
  "days_before_year (year_of_day n) + days_before_month (year_of_day n) (month_of_day n) \<le> n"
  "n < days_before_year (year_of_day n) + days_before_month (year_of_day n) (month_of_day n + 1)"
  using month_of_yday_bounds [OF yday_bounds, of n] by (simp_all add: month_of_day_def yday_def)

lemma date_of_day_unique:
  assumes "1 \<le> m" "m \<le> 12"
    "days_before_year y + days_before_month y m \<le> n"
    "n < days_before_year y + days_before_month y (m + 1)"
  shows "year_of_day n = y" "month_of_day n = m"
proof -
  have "0 \<le> days_before_month y m" "days_before_month y (m + 1) \<le> 365 + leap_day y"
    using days_before_month_mono [of 1 m y] days_before_month_mono [of "m + 1" 13 y] assms
    by (simp_all add: days_before_month_values)
  with assms show y: "year_of_day n = y"
    using days_before_year_step [of y] by (intro year_of_day_unique) linarith+
  show "month_of_day n = m"
    unfolding month_of_day_def yday_def y using assms by (intro month_of_yday_unique) linarith+
qed

end
