(* ===== verification/Go_Time.thy ===== *)
theory Go_Time
  imports Cron_Prelude Go_Calendar
begin

text \<open>
  The part of Go's package \<open>time\<close> the scheduler uses, over the calendar of Go_Calendar: the
  type \<open>time.Time\<close> (an instant with a location), \<open>time.Date\<close>, \<open>Add\<close>, \<open>AddDate\<close>,
  \<open>Truncate\<close>, \<open>In\<close>, the calendar accessors and the comparisons. The time-zone data base is
  not code of the repository: it is the argument \<open>tz\<close>, which tells for a location and a Unix
  second the zone in force there (its offset and the half-open interval it covers), as
  \<open>Location.lookup\<close> does. Monotonic clock readings are left out.
\<close>

subsection \<open>Instants\<close>

datatype location = UTC | Local | Named string

record zone =
  zone_offset :: int
  zone_start :: int
  zone_end :: int

type_synonym tzdata = "location \<Rightarrow> int \<Rightarrow> zone"

text \<open>\<open>tsec\<close> counts seconds since midnight UTC of day 0; \<open>tnsec\<close> is below \<open>10 ^ 9\<close>.\<close>

record gotime =
  tsec :: int
  tnsec :: nat
  tloc :: location

definition zero_time :: gotime where
  "zero_time = \<lparr>tsec = 0, tnsec = 0, tloc = UTC\<rparr>"

definition unix_epoch :: int where
  "unix_epoch = 62135596800"

abbreviation nanos :: int where
  "nanos \<equiv> 1000000000"

definition valid_time :: "gotime \<Rightarrow> bool" where
  "valid_time t \<longleftrightarrow> tnsec t < 1000000000"

definition instant :: "gotime \<Rightarrow> int" where
  "instant t = tsec t * nanos + int (tnsec t)"

definition lookup_zone :: "tzdata \<Rightarrow> location \<Rightarrow> int \<Rightarrow> zone" where
  "lookup_zone tz l u =
     (if l = UTC then \<lparr>zone_offset = 0, zone_start = - (2 ^ 63), zone_end = 2 ^ 63 - 1\<rparr>
      else tz l u)"

definition local_sec :: "tzdata \<Rightarrow> gotime \<Rightarrow> int" where
  "local_sec tz t = tsec t + zone_offset (lookup_zone tz (tloc t) (tsec t - unix_epoch))"

definition local_day :: "tzdata \<Rightarrow> gotime \<Rightarrow> int" where
  "local_day tz t = local_sec tz t div 86400"

definition t_Year :: "tzdata \<Rightarrow> gotime \<Rightarrow> int" where
  "t_Year tz t = year_of_day (local_day tz t)"

definition t_Month :: "tzdata \<Rightarrow> gotime \<Rightarrow> nat" where
  "t_Month tz t = month_of_day (local_day tz t)"

definition t_Day :: "tzdata \<Rightarrow> gotime \<Rightarrow> nat" where
  "t_Day tz t = mday_of_day (local_day tz t)"

definition t_Weekday :: "tzdata \<Rightarrow> gotime \<Rightarrow> nat" where
  "t_Weekday tz t = weekday_of_day (local_day tz t)"

definition t_Hour :: "tzdata \<Rightarrow> gotime \<Rightarrow> nat" where
  "t_Hour tz t = nat (local_sec tz t mod 86400 div 3600)"

definition t_Minute :: "tzdata \<Rightarrow> gotime \<Rightarrow> nat" where
  "t_Minute tz t = nat (local_sec tz t mod 3600 div 60)"

definition t_Second :: "tzdata \<Rightarrow> gotime \<Rightarrow> nat" where
  "t_Second tz t = nat (local_sec tz t mod 60)"

text \<open>
  \<open>time.Date\<close>: the fields may be out of range and are normalised; the offset is the one in
  force at the wall clock reading taken as UTC, corrected when the instant that gives lies
  outside that zone's interval.
\<close>

definition go_Date ::
  "tzdata \<Rightarrow> int \<Rightarrow> int \<Rightarrow> int \<Rightarrow> int \<Rightarrow> int \<Rightarrow> int \<Rightarrow> int \<Rightarrow> location \<Rightarrow> gotime" where
  "go_Date tz year month day hour minute second nsec loc =
     (let y = year + (month - 1) div 12;
          m = nat ((month - 1) mod 12) + 1;
          wall = day_number y m day * 86400 + hour * 3600 + minute * 60 + (second + nsec div nanos);
          unix = wall - unix_epoch;
          z = lookup_zone tz loc unix;
          utc = unix - zone_offset z;
          offset = (if zone_offset z \<noteq> 0 \<and> (utc < zone_start z \<or> zone_end z \<le> utc)
                    then zone_offset (lookup_zone tz loc utc) else zone_offset z)
      in \<lparr>tsec = wall - offset, tnsec = nat (nsec mod nanos), tloc = loc\<rparr>)"

definition go_Add :: "gotime \<Rightarrow> int \<Rightarrow> gotime" where
  "go_Add t d =
     (let n = int (tnsec t) + d
      in t\<lparr>tsec := tsec t + n div nanos, tnsec := nat (n mod nanos)\<rparr>)"

definition go_AddDate :: "tzdata \<Rightarrow> gotime \<Rightarrow> int \<Rightarrow> int \<Rightarrow> int \<Rightarrow> gotime" where
  "go_AddDate tz t years months days =
     go_Date tz (t_Year tz t + years) (int (t_Month tz t) + months) (int (t_Day tz t) + days)
       (int (t_Hour tz t)) (int (t_Minute tz t)) (int (t_Second tz t)) (int (tnsec t)) (tloc t)"

text \<open>\<open>Truncate\<close> rounds down to a multiple of \<open>d\<close> since the zero time, whatever the zone.\<close>

definition go_Truncate :: "gotime \<Rightarrow> int \<Rightarrow> gotime" where
  "go_Truncate t d = (if d \<le> 0 then t else go_Add t (- (instant t mod d)))"

definition go_In :: "gotime \<Rightarrow> location \<Rightarrow> gotime" where
  "go_In t l = t\<lparr>tloc := l\<rparr>"

definition IsZero :: "gotime \<Rightarrow> bool" where
  "IsZero t \<longleftrightarrow> tsec t = 0 \<and> tnsec t = 0"

definition Before :: "gotime \<Rightarrow> gotime \<Rightarrow> bool" where
  "Before t u \<longleftrightarrow> tsec t < tsec u \<or> (tsec t = tsec u \<and> tnsec t < tnsec u)"

definition After :: "gotime \<Rightarrow> gotime \<Rightarrow> bool" where
  "After t u \<longleftrightarrow> tsec u < tsec t \<or> (tsec t = tsec u \<and> tnsec u < tnsec t)"

text \<open>\<open>Sub\<close> saturates at the bounds of \<open>Duration\<close>.\<close>

definition go_Sub :: "gotime \<Rightarrow> gotime \<Rightarrow> int" where
  "go_Sub t u = max (- (2 ^ 63)) (min (2 ^ 63 - 1) (instant t - instant u))"

subsection \<open>Locations by name\<close>

text \<open>
  \<open>LoadLocation\<close> resolves two names itself and refuses names that leave its directories;
  \<open>known\<close> tells which others the time-zone data base has.
\<close>

fun containsDotDot :: "string \<Rightarrow> bool" where
  "containsDotDot (c # d # s) \<longleftrightarrow>
     (c = CHR ''.'' \<and> d = CHR ''.'') \<or> containsDotDot (d # s)"
| "containsDotDot s \<longleftrightarrow> False"

definition LoadLocation :: "(string \<Rightarrow> bool) \<Rightarrow> string \<Rightarrow> location option" where
  "LoadLocation known name =
     (if name = [] \<or> name = ''UTC'' then Some UTC
      else if name = ''Local'' then Some Local
      else if containsDotDot name \<or> hd name = CHR ''/'' \<or> hd name = CHR 0x5C then None
      else if known name then Some (Named name)
      else None)"

end
