(* ===== verification/Spec_Schedule.thy ===== *)
theory Spec_Schedule
  imports Spec_Fields Go_Time
begin

text \<open>
  The activation search of spec.go: \<open>SpecSchedule\<close>, the field predicates, the five
  \<open>advance...\<close> loops with their reset helpers, \<open>advance\<close>, \<open>find\<close>, \<open>prepareNext\<close>,
  \<open>nextActivation\<close> and \<open>Next\<close>. A pointer \<open>added *bool\<close> is the flag passed in and returned.
  The loops are \<^theory_text>\<open>partial_function (option)\<close>: with an arbitrary zone data base a
  loop need not end, which is \<open>None\<close>.
\<close>

record SpecSchedule =
  sSecond :: u64
  sMinute :: u64
  sHour :: u64
  sDom :: u64
  sMonth :: u64
  sDow :: u64
  sLocation :: "location option"

definition middayHour :: int where
  "middayHour = 12"

definition hoursPerDay :: int where
  "hoursPerDay = 24"

definition yearSearchSpan :: int where
  "yearSearchSpan = 5"

abbreviation go_Second :: int where
  "go_Second \<equiv> 1000000000"

abbreviation go_Minute :: int where
  "go_Minute \<equiv> 60 * go_Second"

abbreviation go_Hour :: int where
  "go_Hour \<equiv> 3600 * go_Second"

subsection \<open>Field predicates\<close>

definition monthMatches :: "tzdata \<Rightarrow> SpecSchedule \<Rightarrow> gotime \<Rightarrow> bool" where
  "monthMatches tz s candidate \<longleftrightarrow> hasBit (sMonth s) (t_Month tz candidate)"

definition hourMatches :: "tzdata \<Rightarrow> SpecSchedule \<Rightarrow> gotime \<Rightarrow> bool" where
  "hourMatches tz s candidate \<longleftrightarrow> hasBit (sHour s) (t_Hour tz candidate)"

definition minuteMatches :: "tzdata \<Rightarrow> SpecSchedule \<Rightarrow> gotime \<Rightarrow> bool" where
  "minuteMatches tz s candidate \<longleftrightarrow> hasBit (sMinute s) (t_Minute tz candidate)"

definition secondMatches :: "tzdata \<Rightarrow> SpecSchedule \<Rightarrow> gotime \<Rightarrow> bool" where
  "secondMatches tz s candidate \<longleftrightarrow> hasBit (sSecond s) (t_Second tz candidate)"

definition dayMatches :: "tzdata \<Rightarrow> SpecSchedule \<Rightarrow> gotime \<Rightarrow> bool" where
  "dayMatches tz s candidate \<longleftrightarrow>
     (let domMatch = hasBit (sDom s) (t_Day tz candidate);
          dowMatch = hasBit (sDow s) (t_Weekday tz candidate)
      in if 0 < sDom s AND starBit \<or> 0 < sDow s AND starBit then domMatch \<and> dowMatch
         else domMatch \<or> dowMatch)"

subsection \<open>Resetting the finer fields\<close>

definition resetMonth :: "tzdata \<Rightarrow> gotime \<Rightarrow> bool \<Rightarrow> location \<Rightarrow> gotime \<times> bool" where
  "resetMonth tz c added loc =
     (if added then (c, added)
      else (go_Date tz (t_Year tz c) (int (t_Month tz c)) 1 0 0 0 0 loc, True))"

definition resetDay :: "tzdata \<Rightarrow> gotime \<Rightarrow> bool \<Rightarrow> location \<Rightarrow> gotime \<times> bool" where
  "resetDay tz c added loc =
     (if added then (c, added)
      else (go_Date tz (t_Year tz c) (int (t_Month tz c)) (int (t_Day tz c)) 0 0 0 0 loc, True))"

definition resetHour :: "tzdata \<Rightarrow> gotime \<Rightarrow> bool \<Rightarrow> location \<Rightarrow> gotime \<times> bool" where
  "resetHour tz c added loc =
     (if added then (c, added)
      else (go_Date tz (t_Year tz c) (int (t_Month tz c)) (int (t_Day tz c)) (int (t_Hour tz c))
              0 0 0 loc, True))"

definition truncateMinute :: "gotime \<Rightarrow> bool \<Rightarrow> gotime \<times> bool" where
  "truncateMinute c added = (if added then (c, added) else (go_Truncate c go_Minute, True))"

definition truncateSecond :: "gotime \<Rightarrow> bool \<Rightarrow> gotime \<times> bool" where
  "truncateSecond c added = (if added then (c, added) else (go_Truncate c go_Second, True))"

definition normalizeMidnight :: "tzdata \<Rightarrow> gotime \<Rightarrow> gotime" where
  "normalizeMidnight tz c =
     (if t_Hour tz c = 0 then c
      else if int (t_Hour tz c) > middayHour then
        go_Add c (i64 ((hoursPerDay - int (t_Hour tz c)) * go_Hour))
      else go_Add c (i64 (- int (t_Hour tz c) * go_Hour)))"

subsection \<open>The loops\<close>

partial_function (option) advanceMonth ::
  "tzdata \<Rightarrow> SpecSchedule \<Rightarrow> location \<Rightarrow> gotime \<Rightarrow> bool \<Rightarrow> (gotime \<times> bool \<times> bool) option" where
  "advanceMonth tz s loc c added =
     (if monthMatches tz s c then Some (c, added, False)
      else let (c1, added1) = resetMonth tz c added loc;
               c2 = go_AddDate tz c1 0 1 0
           in if t_Month tz c2 = 1 then Some (c2, added1, True)
              else advanceMonth tz s loc c2 added1)"

partial_function (option) advanceDay ::
  "tzdata \<Rightarrow> SpecSchedule \<Rightarrow> location \<Rightarrow> gotime \<Rightarrow> bool \<Rightarrow> (gotime \<times> bool \<times> bool) option" where
  "advanceDay tz s loc c added =
     (if dayMatches tz s c then Some (c, added, False)
      else let (c1, added1) = resetDay tz c added loc;
               c2 = normalizeMidnight tz (go_AddDate tz c1 0 0 1)
           in if t_Day tz c2 = 1 then Some (c2, added1, True)
              else advanceDay tz s loc c2 added1)"

partial_function (option) advanceHour ::
  "tzdata \<Rightarrow> SpecSchedule \<Rightarrow> location \<Rightarrow> gotime \<Rightarrow> bool \<Rightarrow> (gotime \<times> bool \<times> bool) option" where
  "advanceHour tz s loc c added =
     (if hourMatches tz s c then Some (c, added, False)
      else let (c1, added1) = resetHour tz c added loc;
               c2 = go_Add c1 go_Hour
           in if t_Hour tz c2 = 0 then Some (c2, added1, True)
              else advanceHour tz s loc c2 added1)"

partial_function (option) advanceMinute ::
  "tzdata \<Rightarrow> SpecSchedule \<Rightarrow> gotime \<Rightarrow> bool \<Rightarrow> (gotime \<times> bool \<times> bool) option" where
  "advanceMinute tz s c added =
     (if minuteMatches tz s c then Some (c, added, False)
      else let (c1, added1) = truncateMinute c added;
               c2 = go_Add c1 go_Minute
           in if t_Minute tz c2 = 0 then Some (c2, added1, True)
              else advanceMinute tz s c2 added1)"

partial_function (option) advanceSecond ::
  "tzdata \<Rightarrow> SpecSchedule \<Rightarrow> gotime \<Rightarrow> bool \<Rightarrow> (gotime \<times> bool \<times> bool) option" where
  "advanceSecond tz s c added =
     (if secondMatches tz s c then Some (c, added, False)
      else let (c1, added1) = truncateSecond c added;
               c2 = go_Add c1 go_Second
           in if t_Second tz c2 = 0 then Some (c2, added1, True)
              else advanceSecond tz s c2 added1)"

declare advanceMonth.simps [code] advanceDay.simps [code] advanceHour.simps [code]
  advanceMinute.simps [code] advanceSecond.simps [code]

text \<open>\<open>advance\<close> runs its steps in order and stops at the first that wrapped.\<close>

primrec run_steps ::
  "(gotime \<Rightarrow> bool \<Rightarrow> (gotime \<times> bool \<times> bool) option) list \<Rightarrow> gotime \<Rightarrow> bool \<Rightarrow>
    (gotime \<times> bool \<times> bool) option" where
  "run_steps [] c added = Some (c, added, False)"
| "run_steps (f # fs) c added =
     (case f c added of
        None \<Rightarrow> None
      | Some (c', added', wrapped) \<Rightarrow>
          if wrapped then Some (c', added', True) else run_steps fs c' added')"

definition advance ::
  "tzdata \<Rightarrow> SpecSchedule \<Rightarrow> location \<Rightarrow> gotime \<Rightarrow> bool \<Rightarrow> (gotime \<times> bool \<times> bool) option" where
  "advance tz s loc =
     run_steps [advanceMonth tz s loc, advanceDay tz s loc, advanceHour tz s loc,
       advanceMinute tz s, advanceSecond tz s]"

partial_function (option) find_activation ::
  "tzdata \<Rightarrow> SpecSchedule \<Rightarrow> location \<Rightarrow> int \<Rightarrow> gotime \<Rightarrow> bool \<Rightarrow> (gotime \<times> bool) option" where
  "find_activation tz s loc yearLimit c added =
     (if t_Year tz c \<le> yearLimit then
        (case advance tz s loc c added of
           None \<Rightarrow> None
         | Some (c', added', wrapped) \<Rightarrow>
             if wrapped then find_activation tz s loc yearLimit c' added' else Some (c', True))
      else Some (zero_time, False))"

declare find_activation.simps [code]

subsection \<open>Next\<close>

text \<open>
  A nil \<open>Location\<close> is neither \<open>time.Local\<close> nor a location \<open>In\<close> accepts: \<open>In\<close> panics.
\<close>

definition prepareNext :: "SpecSchedule \<Rightarrow> gotime \<Rightarrow> (gotime \<times> location) call" where
  "prepareNext s candidate =
     (case sLocation s of
        None \<Rightarrow> Panic NilLocation
      | Some l \<Rightarrow>
          (let loc = (if l = Local then tloc candidate else l);
               c = (if l \<noteq> Local then go_In candidate l else candidate)
           in Ret (go_Add c (go_Second - int (tnsec c)), loc)))"

definition nextActivation :: "tzdata \<Rightarrow> SpecSchedule \<Rightarrow> gotime \<Rightarrow> (gotime \<times> bool) call" where
  "nextActivation tz s candidate =
     and_then (prepareNext s candidate) (\<lambda>(c, loc).
       loop_result (find_activation tz s loc (t_Year tz c + yearSearchSpan) c False))"

definition spec_Next :: "tzdata \<Rightarrow> SpecSchedule \<Rightarrow> gotime \<Rightarrow> gotime call" where
  "spec_Next tz s candidate =
     and_then (nextActivation tz s candidate) (\<lambda>(t, ok).
       Ret (if ok then go_In t (tloc candidate) else zero_time))"

end
