(* ===== verification/Time_Units.thy ===== *)
theory Time_Units
  imports Go_Calendar
begin

text \<open>
  Units of the local time line. A unit (year, month, day, hour, minute, second) cuts the
  integers (seconds of local time) into intervals; \<open>ustart x\<close> and \<open>uend x\<close> are the bounds of
  the interval that holds \<open>x\<close>. The locale \<open>time_unit\<close> states what the search over a
  schedule's fields needs of a unit, \<open>nested_units\<close> that one unit refines another; both are
  interpreted on the calendar's own units.
\<close>

locale time_unit =
  fixes ustart :: "int \<Rightarrow> int"
    and uend :: "int \<Rightarrow> int"
  assumes start_le: "ustart x \<le> x"
    and end_gt: "x < uend x"
    and same_start: "ustart x \<le> z \<Longrightarrow> z < uend x \<Longrightarrow> ustart z = ustart x"
    and same_end: "ustart x \<le> z \<Longrightarrow> z < uend x \<Longrightarrow> uend z = uend x"
    and start_end: "ustart (uend x) = uend x"
begin

lemma start_start: "ustart (ustart x) = ustart x"
  using same_start [of x "ustart x"] start_le [of x] end_gt [of x] by simp

lemma end_start: "uend (ustart x) = uend x"
  using same_end [of x "ustart x"] start_le [of x] end_gt [of x] by simp

lemma aligned_end_le: "ustart y = y \<Longrightarrow> x < y \<Longrightarrow> uend x \<le> y"
  using same_start [of x y] start_le [of x] by force

lemma aligned_start_ge: "ustart y = y \<Longrightarrow> y \<le> x \<Longrightarrow> y \<le> ustart x"
  using same_start [of x y] end_gt [of x] by force

lemma end_mono: "x \<le> y \<Longrightarrow> uend x \<le> uend y"
  using same_end [of x y] start_le [of x] end_gt [of y] by force

lemma start_eq_end: "ustart x = ustart y \<Longrightarrow> uend x = uend y"
  by (metis end_start)

end

locale nested_units =
  inner: time_unit ustart uend + outer: time_unit ostart oend
  for ustart uend ostart oend :: "int \<Rightarrow> int" +
  assumes outer_start_le: "ostart x \<le> ustart x"
    and outer_end_ge: "uend x \<le> oend x"
begin

lemma outer_of_start: "ostart (ustart x) = ostart x"
  using outer.same_start [of x "ustart x"] outer_start_le [of x] inner.start_le [of x]
    outer.end_gt [of x] by simp

lemma aligned_outer: "ostart x = x \<Longrightarrow> ustart x = x"
  using outer_start_le [of x] inner.start_le [of x] by simp

lemma outer_same:
  assumes "ustart x = ustart y"
  shows "ostart x = ostart y"
  by (metis assms outer_of_start)

lemma end_cases:
  "(uend x < oend x \<and> ostart (uend x) = ostart x) \<or> (uend x = oend x \<and> ostart (uend x) = uend x)"
proof (cases "uend x < oend x")
  case True
  then show ?thesis
    using outer.same_start [of x "uend x"] outer.start_le [of x] inner.end_gt [of x] by simp
next
  case False
  then have "uend x = oend x" using outer_end_ge [of x] by simp
  then show ?thesis using outer.start_end [of x] by simp
qed

lemma end_aligned_iff: "ostart (uend x) = uend x \<longleftrightarrow> uend x = oend x"
  using end_cases [of x] outer.start_le [of x] inner.end_gt [of x] by auto

end

lemma nested_unitsI:
  assumes "time_unit s e" "time_unit os oe" "\<And>x. s (os x) = os x"
  shows "nested_units s e os oe"
proof (rule nested_units.intro)
  show "nested_units_axioms s e os oe"
  proof
    fix x
    show "os x \<le> s x"
      using time_unit.aligned_start_ge [OF assms(1) assms(3)] time_unit.start_le [OF assms(2)] by blast
    have "s (oe x) = oe x"
      using assms(3) [of "oe x"] time_unit.start_end [OF assms(2), of x] by simp
    then show "e x \<le> oe x"
      using time_unit.aligned_end_le [OF assms(1)] time_unit.end_gt [OF assms(2)] by blast
  qed
qed (use assms in simp_all)

subsection \<open>Units of a fixed length\<close>

definition fixed_start :: "int \<Rightarrow> int \<Rightarrow> int" where
  "fixed_start k x = x div k * k"

definition fixed_end :: "int \<Rightarrow> int \<Rightarrow> int" where
  "fixed_end k x = (x div k + 1) * k"

lemma fixed_unit:
  assumes "0 < k"
  shows "time_unit (fixed_start k) (fixed_end k)"
proof
  fix x z :: int
  show "fixed_start k x \<le> x" "x < fixed_end k x"
    using div_bounds [OF assms, of x] by (simp_all add: fixed_start_def fixed_end_def algebra_simps)
  show "fixed_start k (fixed_end k x) = fixed_end k x"
    using assms by (simp add: fixed_start_def fixed_end_def)
  assume "fixed_start k x \<le> z" "z < fixed_end k x"
  then have "z div k = x div k"
    by (intro div_unique) (simp_all add: fixed_start_def fixed_end_def algebra_simps)
  then show "fixed_start k z = fixed_start k x" "fixed_end k z = fixed_end k x"
    by (simp_all add: fixed_start_def fixed_end_def)
qed

lemma fixed_start_mult: "fixed_start k (q * (c * k)) = q * (c * k)"
  by (cases "k = 0") (simp_all add: fixed_start_def mult.assoc [symmetric])

lemma fixed_nested:
  assumes "0 < k" "0 < c"
  shows "nested_units (fixed_start k) (fixed_end k) (fixed_start (c * k)) (fixed_end (c * k))"
proof (rule nested_unitsI)
  show "fixed_start k (fixed_start (c * k) x) = fixed_start (c * k) x" for x
    unfolding fixed_start_def [of "c * k"] by (rule fixed_start_mult)
qed (use assms in \<open>simp_all add: fixed_unit\<close>)

lemma fixed_aligned_iff: "fixed_start k x = x \<longleftrightarrow> x mod k = 0"
  using minus_mod_eq_div_mult [of x k] by (auto simp: fixed_start_def)

text \<open>
  A unit given on day numbers is read on seconds by scaling it with the length of a day.
\<close>

definition scaled :: "(int \<Rightarrow> int) \<Rightarrow> int \<Rightarrow> int" where
  "scaled f x = f (x div 86400) * 86400"

lemma div_in_scaled:
  fixes a b z :: int
  shows "a * 86400 \<le> z \<Longrightarrow> a \<le> z div 86400" "z < b * 86400 \<Longrightarrow> z div 86400 < b"
  using div_bounds [of 86400 z] by simp_all

lemma scaled_unit:
  assumes "time_unit s e"
  shows "time_unit (scaled s) (scaled e)"
proof
  fix x z :: int
  let ?d = "x div 86400"
  have d: "s ?d \<le> ?d" "?d + 1 \<le> e ?d"
    using time_unit.start_le [OF assms, of ?d] time_unit.end_gt [OF assms, of ?d] by simp_all
  show "scaled s x \<le> x" "x < scaled e x"
    using d div_bounds [of 86400 x] by (simp_all add: scaled_def)
  show "scaled s (scaled e x) = scaled e x"
    using time_unit.start_end [OF assms] by (simp add: scaled_def)
  assume z: "scaled s x \<le> z" "z < scaled e x"
  then have "s ?d \<le> z div 86400" "z div 86400 < e ?d"
    by (simp_all add: scaled_def div_in_scaled)
  then show "scaled s z = scaled s x" "scaled e z = scaled e x"
    using time_unit.same_start [OF assms, of ?d "z div 86400"]
      time_unit.same_end [OF assms, of ?d "z div 86400"]
    by (simp_all add: scaled_def)
qed

lemma scaled_nested:
  assumes "nested_units s e os oe"
  shows "nested_units (scaled s) (scaled e) (scaled os) (scaled oe)"
proof (rule nested_unitsI)
  from assms show "time_unit (scaled s) (scaled e)" "time_unit (scaled os) (scaled oe)"
    by (simp_all add: scaled_unit nested_units_def)
  show "scaled s (scaled os x) = scaled os x" for x
    using assms time_unit.start_start [of os oe] nested_units.aligned_outer [OF assms]
    by (simp add: scaled_def nested_units_def)
qed

subsection \<open>Years and months, on day numbers\<close>

definition year_start :: "int \<Rightarrow> int" where
  "year_start n = days_before_year (year_of_day n)"

definition year_end :: "int \<Rightarrow> int" where
  "year_end n = days_before_year (year_of_day n + 1)"

definition month_start :: "int \<Rightarrow> int" where
  "month_start n = day_number (year_of_day n) (month_of_day n) 1"

definition month_end :: "int \<Rightarrow> int" where
  "month_end n = day_number (year_of_day n) (month_of_day n + 1) 1"

lemma year_unit: "time_unit year_start year_end"
proof
  fix x z :: int
  show "year_start x \<le> x" "x < year_end x"
    using year_of_day_bounds [of x] by (simp_all add: year_start_def year_end_def)
  have "year_of_day (year_end x) = year_of_day x + 1"
    using days_before_year_gap [of "year_of_day x + 1" "year_of_day x + 1 + 1"]
    unfolding year_end_def by (intro year_of_day_unique) simp_all
  then show "year_start (year_end x) = year_end x"
    by (simp add: year_start_def year_end_def)
  assume "year_start x \<le> z" "z < year_end x"
  then have "year_of_day z = year_of_day x"
    by (intro year_of_day_unique) (simp_all add: year_start_def year_end_def)
  then show "year_start z = year_start x" "year_end z = year_end x"
    by (simp_all add: year_start_def year_end_def)
qed

lemma month_start_alt:
  "month_start n = days_before_year (year_of_day n) + days_before_month (year_of_day n) (month_of_day n)"
  by (simp add: month_start_def day_number_def)

lemma month_end_alt:
  "month_end n = days_before_year (year_of_day n) + days_before_month (year_of_day n) (month_of_day n + 1)"
  by (simp add: month_end_def day_number_def)

lemma day_of_month: "month_start n + (int (mday_of_day n) - 1) = n"
  using month_of_day_bounds(3) [of n] by (simp add: mday_of_day_def month_start_alt yday_def)

lemma mday_eq_1_iff: "mday_of_day n = 1 \<longleftrightarrow> month_start n = n"
  using day_of_month [of n] by auto

lemma same_month:
  assumes "month_start x \<le> z" "z < month_end x"
  shows "year_of_day z = year_of_day x" "month_of_day z = month_of_day x"
  using assms date_of_day_unique [of "month_of_day x" "year_of_day x" z] month_of_day_bounds [of x]
  by (simp_all add: month_start_alt month_end_alt)

lemma month_end_date:
  shows year_month_end: "year_of_day (month_end n) =
      (if month_of_day n = 12 then year_of_day n + 1 else year_of_day n)"
    and month_month_end: "month_of_day (month_end n) =
      (if month_of_day n = 12 then 1 else month_of_day n + 1)"
proof -
  let ?y = "year_of_day n" and ?m = "month_of_day n"
  define y m where "y = (if ?m = 12 then ?y + 1 else ?y)" and "m = (if ?m = 12 then 1 else ?m + 1)"
  have m: "1 \<le> m" "m \<le> 12"
    using month_of_day_bounds(1,2) [of n] by (auto simp: m_def)
  have eq: "month_end n = days_before_year y + days_before_month y m"
    using days_before_year_step [of ?y]
    by (simp add: month_end_alt y_def m_def days_before_month_values)
  have "year_of_day (month_end n) = y" "month_of_day (month_end n) = m"
    using date_of_day_unique [OF m, of y "month_end n"] days_before_month_step(1) [OF m, of y] eq
    by simp_all
  then show "year_of_day (month_end n) = (if ?m = 12 then ?y + 1 else ?y)"
    "month_of_day (month_end n) = (if ?m = 12 then 1 else ?m + 1)"
    by (simp_all add: y_def m_def)
qed

lemma month_unit: "time_unit month_start month_end"
proof
  fix x z :: int
  show "month_start x \<le> x" "x < month_end x"
    using month_of_day_bounds [of x] by (simp_all add: month_start_alt month_end_alt)
  show "month_start (month_end x) = month_end x"
    using days_before_year_step [of "year_of_day x"]
    unfolding month_start_alt [of "month_end x"] month_end_date
    by (simp add: month_end_alt days_before_month_values)
  assume "month_start x \<le> z" "z < month_end x"
  note eqs = same_month [OF this]
  show "month_start z = month_start x" "month_end z = month_end x"
    unfolding month_start_def month_end_def eqs by simp_all
qed

lemma date_of_year_start:
  "year_of_day (days_before_year y) = y" "month_of_day (days_before_year y) = 1"
  using date_of_day_unique [of 1 y "days_before_year y"] by (simp_all add: days_before_month_values)

lemma month_in_year: "nested_units month_start month_end year_start year_end"
proof (rule nested_unitsI)
  show "month_start (year_start x) = year_start x" for x
    by (simp add: month_start_alt year_start_def date_of_year_start days_before_month_values)
qed (simp_all add: month_unit year_unit)

lemma fixed_one: "fixed_start 1 = (\<lambda>x. x)" "fixed_end 1 = (\<lambda>x. x + 1)"
  by (simp_all add: fixed_start_def fixed_end_def fun_eq_iff)

lemma fixed_day: "scaled (fixed_start 1) = fixed_start 86400" "scaled (fixed_end 1) = fixed_end 86400"
  by (simp_all add: fixed_one scaled_def fixed_start_def fixed_end_def fun_eq_iff)

lemma day_in_month:
  "nested_units (fixed_start 86400) (fixed_end 86400) (scaled month_start) (scaled month_end)"
proof -
  have "nested_units (fixed_start 1) (fixed_end 1) month_start month_end"
    by (rule nested_unitsI) (simp_all add: month_unit fixed_unit, simp add: fixed_one)
  from scaled_nested [OF this] show ?thesis by (simp add: fixed_day)
qed

subsection \<open>Reading a second in the calendar\<close>

lemma clock_sum:
  fixes x :: int
  shows "x mod 86400 div 3600 * 3600 + x mod 3600 div 60 * 60 + x mod 60 = x mod 86400"
proof -
  have "x mod 86400 = x mod 86400 div 3600 * 3600 + x mod 86400 mod 3600"
    by (rule div_mult_mod_eq [symmetric])
  also have "x mod 86400 mod 3600 = x mod 3600" by (rule mod_mod_cancel) simp
  also have "x mod 3600 = x mod 3600 div 60 * 60 + x mod 3600 mod 60"
    by (rule div_mult_mod_eq [symmetric])
  also have "x mod 3600 mod 60 = x mod 60" by (rule mod_mod_cancel) simp
  finally show ?thesis by (simp only: add.assoc)
qed

lemma hour_start_sum:
  fixes x :: int
  shows "x div 86400 * 86400 + x mod 86400 div 3600 * 3600 = x div 3600 * 3600"
proof (rule add_right_imp_eq)
  have "x mod 86400 div 3600 * 3600 + x mod 86400 mod 3600 = x mod 86400" by (rule div_mult_mod_eq)
  then have "x mod 86400 div 3600 * 3600 + x mod 3600 = x mod 86400"
    by (simp only: mod_mod_cancel [of 3600 86400 x, simplified])
  then show "x div 86400 * 86400 + x mod 86400 div 3600 * 3600 + x mod 3600
      = x div 3600 * 3600 + x mod 3600"
    by (simp only: add.assoc div_mult_mod_eq)
qed

lemma hour_of_second: "(x :: int) mod 86400 div 3600 = x div 3600 mod 24"
  using zmod_zmult2_eq [of 24 x 3600] by simp

lemma minute_of_second: "(x :: int) mod 3600 div 60 = x div 60 mod 60"
  using zmod_zmult2_eq [of 60 x 60] by simp

lemma scaled_aligned:
  assumes "scaled f x = x"
  shows "f (x div 86400) = x div 86400" "x mod 86400 = 0"
proof -
  have "x = f (x div 86400) * 86400" using assms by (simp add: scaled_def)
  then show "f (x div 86400) = x div 86400" "x mod 86400 = 0"
    by (metis nonzero_mult_div_cancel_right zero_neq_numeral, metis mod_mult_self2_is_0)
qed

lemma scaled_aligned_iff:
  "x mod 86400 = 0 \<Longrightarrow> scaled f x = x \<longleftrightarrow> f (x div 86400) = x div 86400"
  by (auto simp: scaled_def dest: arg_cong [where f = "\<lambda>z. z div 86400"])

lemma month_of_month_start: "month_of_day (month_start n) = month_of_day n"
  using time_unit.start_le [OF month_unit, of n] time_unit.end_gt [OF month_unit, of n]
  by (intro same_month) simp_all

lemma january_iff: "month_start n = n \<Longrightarrow> month_of_day n = 1 \<longleftrightarrow> year_start n = n"
  using days_before_month_mono [of 2 "month_of_day n" "year_of_day n"] month_of_day_bounds(1,2) [of n]
  by (cases "month_of_day n = 1")
    (auto simp: month_start_alt year_start_def days_before_month_values)

lemma leap_of_feb_29:
  assumes "month_of_day n = 2" "mday_of_day n = 29"
  shows "leap (year_of_day n)"
  using month_of_day_bounds(4) [of n] day_of_month [of n] assms
  by (auto simp: month_start_alt days_before_month_values leap_day_def split: if_splits)

lemma next_month_number:
  "day_number (year_of_day n + int (month_of_day n) div 12) (nat (int (month_of_day n) mod 12) + 1) 1
     = month_end n"
proof (cases "month_of_day n = 12")
  case True
  then show ?thesis
    using days_before_year_step [of "year_of_day n"]
    by (simp add: month_end_alt day_number_def days_before_month_values)
next
  case False
  with month_of_day_bounds(1,2) [of n]
  have "int (month_of_day n) div 12 = 0" "nat (int (month_of_day n) mod 12) = month_of_day n"
    by simp_all
  then show ?thesis by (simp add: month_end_def)
qed

subsection \<open>The units of a schedule's fields\<close>

interpretation seconds: nested_units "fixed_start 1" "fixed_end 1" "fixed_start 60" "fixed_end 60"
  using fixed_nested [of 1 60] by simp

interpretation minutes: nested_units "fixed_start 60" "fixed_end 60" "fixed_start 3600" "fixed_end 3600"
  using fixed_nested [of 60 60] by simp

interpretation hours: nested_units "fixed_start 3600" "fixed_end 3600" "fixed_start 86400" "fixed_end 86400"
  using fixed_nested [of 3600 24] by simp

interpretation days:
  nested_units "fixed_start 86400" "fixed_end 86400" "scaled month_start" "scaled month_end"
  by (rule day_in_month)

interpretation months:
  nested_units "scaled month_start" "scaled month_end" "scaled year_start" "scaled year_end"
  by (rule scaled_nested) (rule month_in_year)

end
