(* ===== verification/Unit_Search.thy ===== *)
theory Unit_Search
  imports Time_Units
begin

text \<open>
  The search pattern of the code's \<open>advanceMonth\<close>, \<open>advanceDay\<close>, \<open>advanceHour\<close>,
  \<open>advanceMinute\<close> and \<open>advanceSecond\<close>, of the sequence of them that \<open>advance\<close> runs, and of the
  outer loop \<open>find\<close>, stated once over time units. A search step takes a second and the flag
  \<open>added\<close> and gives the next second, the flag and whether an enclosing unit wrapped around.

  \<open>unit_search\<close> is the contract of one field's loop, \<open>search_stage\<close> the contract of the first
  fields of the sequence, \<open>search_loop\<close> the contract of the outer loop. The component
  Spec_Next discharges them for the code's functions.
\<close>

type_synonym step = "int \<Rightarrow> bool \<Rightarrow> (int \<times> bool \<times> bool) option"

subsection \<open>One field: move to the first unit that matches\<close>

locale unit_search =
  nested_units ustart uend ostart oend
  for ustart uend ostart oend :: "int \<Rightarrow> int" +
  fixes ok :: "int \<Rightarrow> bool"
    and wrap :: "int \<Rightarrow> bool"
    and adv :: step
  assumes ok_unit: "ok (ustart x) = ok x"
    and wrap_iff: "ustart x = x \<Longrightarrow> wrap x \<longleftrightarrow> ostart x = x"
    and adv_match: "ok x \<Longrightarrow> adv x a = Some (x, a, False)"
    and adv_move: "\<not> ok x \<Longrightarrow> (a \<Longrightarrow> ustart x = x) \<Longrightarrow>
      adv x a = (if wrap (uend x) then Some (uend x, True, True) else adv (uend x) True)"
begin

lemma ok_same: "ustart x \<le> z \<Longrightarrow> z < uend x \<Longrightarrow> ok z = ok x"
  by (metis ok_unit inner.same_start)

lemma wrap_end_iff: "wrap (uend x) \<longleftrightarrow> uend x = oend x"
  using wrap_iff [of "uend x"] inner.start_end [of x] end_aligned_iff [of x] by simp

lemma none_before_end:
  assumes "\<not> ok x" "\<forall>z. uend x \<le> z \<and> z < y \<longrightarrow> \<not> ok z"
  shows "\<forall>z. x \<le> z \<and> z < y \<longrightarrow> \<not> ok z"
proof (intro allI impI)
  fix z assume z: "x \<le> z \<and> z < y"
  show "\<not> ok z"
  proof (cases "z < uend x")
    case True
    have "ustart x \<le> z" using z inner.start_le [of x] by linarith
    with True show ?thesis using ok_same assms(1) by blast
  next
    case False
    then show ?thesis using assms(2) z not_less by blast
  qed
qed

text \<open>
  The loop stops. Either it found the first matching second of the enclosing unit, and then
  it moved there from the start of a unit or not at all, or nothing in the rest of the
  enclosing unit matches and it stands at that unit's end.
\<close>

lemma adv_spec:
  assumes "a \<longrightarrow> ok x \<or> ustart x = x"
  shows "\<exists>y a' w. adv x a = Some (y, a', w) \<and> x \<le> y \<and> (\<forall>z. x \<le> z \<and> z < y \<longrightarrow> \<not> ok z) \<and>
    (if w then a' \<and> y = oend x
     else ok y \<and> ostart y = ostart x \<and> ((y = x \<and> a' = a) \<or> (ustart y = y \<and> a')))"
  using assms
proof (induction "nat (oend x - x)" arbitrary: x a rule: less_induct)
  case less
  show ?case
  proof (cases "ok x")
    case True
    then have adv: "adv x a = Some (x, a, False)" by (rule adv_match)
    show ?thesis
      by (rule exI [of _ x], rule exI [of _ a], rule exI [of _ False]) (use True adv in auto)
  next
    case False
    with less.prems have step:
      "adv x a = (if wrap (uend x) then Some (uend x, True, True) else adv (uend x) True)"
      by (intro adv_move) auto
    have gt: "x < uend x" by (rule inner.end_gt)
    show ?thesis
    proof (cases "uend x = oend x")
      case True
      then have adv: "adv x a = Some (uend x, True, True)" using step wrap_end_iff [of x] by simp
      have none: "\<forall>z. x \<le> z \<and> z < uend x \<longrightarrow> \<not> ok z"
        by (rule none_before_end [OF False]) auto
      show ?thesis
        by (intro exI conjI, rule adv) (use gt True none in auto)
    next
      case ne: False
      with end_cases [of x] have lt: "uend x < oend x" and os: "ostart (uend x) = ostart x" by auto
      have oe: "oend (uend x) = oend x" by (rule outer.start_eq_end) (rule os)
      have "nat (oend (uend x) - uend x) < nat (oend x - x)" using lt gt oe by simp
      from less.hyps [OF this, of True] inner.start_end [of x]
      obtain y a' w where y: "adv (uend x) True = Some (y, a', w)" "uend x \<le> y"
        "\<forall>z. uend x \<le> z \<and> z < y \<longrightarrow> \<not> ok z"
        "if w then a' \<and> y = oend (uend x) else ok y \<and> ostart y = ostart (uend x) \<and>
          ((y = uend x \<and> a' = True) \<or> (ustart y = y \<and> a'))"
        by auto
      have "adv x a = Some (y, a', w)" using step ne y(1) wrap_end_iff [of x] by simp
      moreover have "x \<le> y" using gt y(2) by simp
      moreover note none_before_end [OF False y(3)]
      moreover have "if w then a' \<and> y = oend x else ok y \<and> ostart y = ostart x \<and>
          ((y = x \<and> a' = a) \<or> (ustart y = y \<and> a'))"
        using y(4) inner.start_end [of x] by (auto simp: oe os split: if_splits)
      ultimately show ?thesis by blast
    qed
  qed
qed

end

subsection \<open>The first fields of the sequence\<close>

text \<open>
  \<open>ready\<close> is what holds at the top of the sequence once \<open>added\<close> is set: each field either
  matches already or stands at the start of its unit, so that moving by whole units skips
  nothing. \<open>start0\<close> and \<open>end0\<close> bound the outermost unit, the year.
\<close>

locale search_stage =
  nested_units ustart uend start0 end0
  for ustart uend start0 end0 :: "int \<Rightarrow> int" +
  fixes ok :: "int \<Rightarrow> bool"
    and ready :: "int \<Rightarrow> bool"
    and run :: step
  assumes ok_unit: "ok (ustart x) = ok x"
    and ok_ready: "ok x \<Longrightarrow> ready x"
    and ready_end: "ok x \<Longrightarrow> ready (uend x)"
    and run_spec: "(a \<longrightarrow> ready x) \<Longrightarrow>
      \<exists>y a' w. run x a = Some (y, a', w) \<and> x \<le> y \<and> (\<forall>z. x \<le> z \<and> z < y \<longrightarrow> \<not> ok z) \<and>
        (if w then x < y \<and> y \<le> end0 x \<and> a' \<and> ready y \<and> ustart y = y
         else ok y \<and> start0 y = start0 x \<and> ((y = x \<and> a' = a) \<or> (ustart y = y \<and> a')))"

definition then_step :: "step \<Rightarrow> step \<Rightarrow> step" where
  "then_step f g x a =
     (case f x a of
        None \<Rightarrow> None
      | Some (y, a', w) \<Rightarrow> if w then Some (y, a', True) else g y a')"

lemma search_stage_init:
  assumes "time_unit s e"
  shows "search_stage s e s e (\<lambda>_. True) (\<lambda>_. True) (\<lambda>x a. Some (x, a, False))"
proof -
  have "nested_units s e s e"
    using assms time_unit.start_start [OF assms] by (intro nested_unitsI)
  then show ?thesis
    unfolding search_stage_def search_stage_axioms_def by auto
qed

text \<open>One more field: a run of the fields before it and of its loop keeps the contract.\<close>

lemma then_step_run:
  assumes outer: "search_stage os oe s0 e0 ok ready run"
    and inner: "unit_search s e os oe okl wrap adv"
    and ra: "a \<longrightarrow> ready x \<and> (okl x \<or> s x = x)"
  shows "\<exists>y a' w. then_step run adv x a = Some (y, a', w) \<and> x \<le> y \<and>
    (\<forall>z. x \<le> z \<and> z < y \<longrightarrow> \<not> (ok z \<and> okl z)) \<and>
    (if w then x < y \<and> y \<le> e0 x \<and> a' \<and> (ready y \<and> (okl y \<or> s y = y)) \<and> s y = y
     else (ok y \<and> okl y) \<and> s0 y = s0 x \<and> ((y = x \<and> a' = a) \<or> (s y = y \<and> a')))"
proof -
  have nest: "nested_units s e os oe" and nest0: "nested_units os oe s0 e0"
    using inner outer by (simp_all add: unit_search_def search_stage_def)
  then have ot: "time_unit os oe" "time_unit s0 e0" by (simp_all add: nested_units_def)
  have al: "s z = z" if "os z = z" for z using nested_units.aligned_outer [OF nest that] .
  obtain y a1 w1 where 1: "run x a = Some (y, a1, w1)" "x \<le> y" "\<forall>z. x \<le> z \<and> z < y \<longrightarrow> \<not> ok z"
    "if w1 then x < y \<and> y \<le> e0 x \<and> a1 \<and> ready y \<and> os y = y
     else ok y \<and> s0 y = s0 x \<and> ((y = x \<and> a1 = a) \<or> (os y = y \<and> a1))"
    using search_stage.run_spec [OF outer, of a x] ra by blast
  show ?thesis
  proof (cases w1)
    case True
    then show ?thesis using 1 al by (auto simp: then_step_def)
  next
    case w1: False
    with 1 have y: "ok y" "s0 y = s0 x" "(y = x \<and> a1 = a) \<or> (os y = y \<and> a1)" by auto
    then have "a1 \<longrightarrow> okl y \<or> s y = y" using ra al by auto
    from unit_search.adv_spec [OF inner this]
    obtain y2 a2 w2 where 2: "adv y a1 = Some (y2, a2, w2)" "y \<le> y2" "\<forall>z. y \<le> z \<and> z < y2 \<longrightarrow> \<not> okl z"
      "if w2 then a2 \<and> y2 = oe y else okl y2 \<and> os y2 = os y \<and> ((y2 = y \<and> a2 = a1) \<or> (s y2 = y2 \<and> a2))"
      by blast
    have r: "then_step run adv x a = Some (y2, a2, w2)" using 1(1) 2(1) w1 by (simp add: then_step_def)
    have none: "\<forall>z. x \<le> z \<and> z < y2 \<longrightarrow> \<not> (ok z \<and> okl z)" using 1(3) 2(3) by (metis not_less)
    show ?thesis
    proof (cases w2)
      case True
      then have y2: "y2 = oe y" "a2" using 2(4) by auto
      then have "os y2 = y2" "y < y2" "ready y2"
        using time_unit.start_end [OF ot(1)] time_unit.end_gt [OF ot(1)] search_stage.ready_end [OF outer y(1)]
        by simp_all
      moreover have "y2 \<le> e0 x"
        using y2(1) nested_units.outer_end_ge [OF nest0, of y] time_unit.start_eq_end [OF ot(2) y(2)] by simp
      ultimately show ?thesis using r none y2(2) True 1(2) al by auto
    next
      case False
      then have y2: "okl y2" "os y2 = os y" "(y2 = y \<and> a2 = a1) \<or> (s y2 = y2 \<and> a2)" using 2(4) by auto
      have "ok y2" using search_stage.ok_unit [OF outer] y2(2) y(1) by metis
      moreover have "s0 y2 = s0 x" using nested_units.outer_same [OF nest0 y2(2)] y(2) by simp
      moreover have "(y2 = x \<and> a2 = a) \<or> (s y2 = y2 \<and> a2)" using y(3) y2(3) al by auto
      ultimately show ?thesis using r none y2(1) False 1(2) 2(2) by auto
    qed
  qed
qed

lemma search_stage_compose:
  assumes outer: "search_stage os oe s0 e0 ok ready run"
    and inner: "unit_search s e os oe okl wrap adv"
  shows "search_stage s e s0 e0 (\<lambda>z. ok z \<and> okl z) (\<lambda>z. ready z \<and> (okl z \<or> s z = z)) (then_step run adv)"
    (is "search_stage s e s0 e0 ?ok ?ready ?run")
proof -
  have nest: "nested_units s e os oe" and nest0: "nested_units os oe s0 e0"
    using inner outer by (simp_all add: unit_search_def search_stage_def)
  then have tu: "time_unit s e" by (simp add: nested_units_def)
  have same: "ok x = ok y" if "os x = os y" for x y
    using search_stage.ok_unit [OF outer] that by metis
  have ok_unit: "?ok (s x) = ?ok x" for x
    using same [of "s x" x] nested_units.outer_of_start [OF nest] unit_search.ok_unit [OF inner] by simp
  have ok_ready: "?ready x" if "?ok x" for x
    using that search_stage.ok_ready [OF outer] by blast
  have ready_end: "?ready (e x)" if "?ok x" for x
    using nested_units.end_cases [OF nest, of x]
  proof
    assume "e x < oe x \<and> os (e x) = os x"
    then show ?thesis
      using that same [of "e x" x] search_stage.ok_ready [OF outer] time_unit.start_end [OF tu] by blast
  next
    assume "e x = oe x \<and> os (e x) = e x"
    then show ?thesis
      using that search_stage.ready_end [OF outer] time_unit.start_end [OF tu] by metis
  qed
  have deep: "nested_units s e s0 e0"
    using nest nest0 nested_units.aligned_outer [OF nest0] nested_units.aligned_outer [OF nest]
      time_unit.start_start [of s0 e0]
    by (intro nested_unitsI) (auto simp: nested_units_def)
  show ?thesis
    unfolding search_stage_def search_stage_axioms_def
    using deep ok_unit ok_ready ready_end then_step_run [OF outer inner] by blast
qed

subsection \<open>The outer loop\<close>

locale search_loop = search_stage ustart uend start0 end0 ok ready run
  for ustart uend start0 end0 :: "int \<Rightarrow> int" and ok ready :: "int \<Rightarrow> bool" and run :: step +
  fixes bound :: int
    and find_from :: "int \<Rightarrow> bool \<Rightarrow> int option option"
  assumes bound_aligned: "start0 bound = bound"
    and find_stop: "bound \<le> x \<Longrightarrow> find_from x a = Some None"
    and find_go: "x < bound \<Longrightarrow> run x a = Some (y, a', w) \<Longrightarrow>
      find_from x a = (if w then find_from y a' else Some (Some y))"
begin

text \<open>
  The loop returns, with the first second from \<open>x\<close> on and before \<open>bound\<close> at which every field
  matches, or with \<open>None\<close> when there is none.
\<close>

lemma find_spec:
  assumes "a \<longrightarrow> ready x"
  shows "\<exists>r. find_from x a = Some r \<and>
    (case r of
       None \<Rightarrow> \<forall>z. x \<le> z \<and> z < bound \<longrightarrow> \<not> ok z
     | Some y \<Rightarrow> x \<le> y \<and> y < bound \<and> ok y \<and> (\<forall>z. x \<le> z \<and> z < y \<longrightarrow> \<not> ok z))"
  using assms
proof (induction "nat (bound - x)" arbitrary: x a rule: less_induct)
  case less
  show ?case
  proof (cases "x < bound")
    case False
    then show ?thesis using find_stop [of x a] by auto
  next
    case True
    from run_spec [OF less.prems]
    obtain y a' w where y: "run x a = Some (y, a', w)" "x \<le> y"
      "\<forall>z. x \<le> z \<and> z < y \<longrightarrow> \<not> ok z"
      "if w then x < y \<and> y \<le> end0 x \<and> a' \<and> ready y \<and> ustart y = y
       else ok y \<and> start0 y = start0 x \<and> ((y = x \<and> a' = a) \<or> (ustart y = y \<and> a'))"
      by blast
    have le: "end0 x \<le> bound" by (rule outer.aligned_end_le) (rule bound_aligned, rule True)
    show ?thesis
    proof (cases w)
      case True
      with y have y': "x < y" "y \<le> bound" "ready y" "find_from x a = find_from y a'"
        using find_go [OF \<open>x < bound\<close> y(1)] le by auto
      then have "nat (bound - y) < nat (bound - x)" using \<open>x < bound\<close> by simp
      from less.hyps [OF this, of a'] y'(3) obtain r where
        r: "find_from y a' = Some r" "case r of None \<Rightarrow> \<forall>z. y \<le> z \<and> z < bound \<longrightarrow> \<not> ok z
          | Some u \<Rightarrow> y \<le> u \<and> u < bound \<and> ok u \<and> (\<forall>z. y \<le> z \<and> z < u \<longrightarrow> \<not> ok z)"
        by auto
      then show ?thesis
        using y(3) y' by (auto split: option.splits) (metis not_less)+
    next
      case False
      with y have "ok y" "start0 y = start0 x" "find_from x a = Some (Some y)"
        using find_go [OF \<open>x < bound\<close> y(1)] by auto
      moreover have "y < bound"
        using outer.end_gt [of y] outer.start_eq_end [of y x] calculation(2) le by simp
      ultimately show ?thesis using y by auto
    qed
  qed
qed

end

end
