(* ===== verification/Spec_Next.thy ===== *)
theory Spec_Next
  imports Spec_Schedule Unit_Search
begin

text \<open>
  Correctness of the activation search in a zone of constant offset. The locale \<open>fixed_zone\<close>
  holds what the search relies on in the zone data base; over it every operation of package
  \<open>time\<close> that the code calls becomes arithmetic on seconds of local time (\<open>at x\<close> is the time
  whose local second is \<open>x\<close>), the code's loops meet the contracts of Unit_Search, and the
  search finds the first matching second of the horizon. It is interpreted on UTC.
\<close>

definition matches :: "tzdata \<Rightarrow> SpecSchedule \<Rightarrow> gotime \<Rightarrow> bool" where
  "matches tz s t \<longleftrightarrow> monthMatches tz s t \<and> dayMatches tz s t \<and> hourMatches tz s t \<and>
     minuteMatches tz s t \<and> secondMatches tz s t"

definition fixed_offset :: "tzdata \<Rightarrow> location \<Rightarrow> int \<Rightarrow> bool" where
  "fixed_offset tz l off \<longleftrightarrow> (\<forall>u. zone_offset (lookup_zone tz l u) = off) \<and> off mod 60 = 0"

definition at_sec :: "int \<Rightarrow> location \<Rightarrow> int \<Rightarrow> gotime" where
  "at_sec off l x = \<lparr>tsec = x - off, tnsec = 0, tloc = l\<rparr>"

definition step_sec :: "int \<Rightarrow> location \<Rightarrow> (gotime \<times> bool \<times> bool) option \<Rightarrow> (int \<times> bool \<times> bool) option" where
  "step_sec off l r =
     (case r of
        None \<Rightarrow> None
      | Some (c, a, w) \<Rightarrow>
          if c = at_sec off l (tsec c + off) then Some (tsec c + off, a, w) else None)"

lemma step_sec_iff: "step_sec off l r = Some (y, a, w) \<longleftrightarrow> r = Some (at_sec off l y, a, w)"
  by (auto simp: step_sec_def at_sec_def split: option.splits prod.splits if_splits)

lemma step_sec_at: "step_sec off l (Some (at_sec off l y, a, w)) = Some (y, a, w)"
  by (simp add: step_sec_iff)

definition find_sec :: "int \<Rightarrow> location \<Rightarrow> (gotime \<times> bool) option \<Rightarrow> int option option" where
  "find_sec off l r =
     (case r of
        None \<Rightarrow> None
      | Some (c, found) \<Rightarrow>
          if found then (if c = at_sec off l (tsec c + off) then Some (Some (tsec c + off)) else None)
          else if c = zero_time then Some None else None)"

lemma at_sec_eq_iff: "c = at_sec off l y \<longleftrightarrow> c = at_sec off l (tsec c + off) \<and> tsec c + off = y"
  by (auto simp: at_sec_def)

lemma find_sec_iff:
  "find_sec off l r = Some (Some y) \<longleftrightarrow> r = Some (at_sec off l y, True)"
  "find_sec off l r = Some None \<longleftrightarrow> r = Some (zero_time, False)"
  by (auto simp: find_sec_def at_sec_eq_iff [of _ off l y] split: option.splits prod.splits if_splits)

subsection \<open>Moving by fixed spans\<close>

lemma go_Add_at: "go_Add (at_sec off l x) (k * nanos) = at_sec off l (x + k)"
  by (simp add: go_Add_def at_sec_def)

lemma fixed_end_aligned: "fixed_start k x = x \<Longrightarrow> fixed_end k x = x + k"
  by (simp add: fixed_start_def fixed_end_def algebra_simps)

lemma addHour_at: "fixed_start 3600 x = x \<Longrightarrow> go_Add (at_sec off l x) go_Hour = at_sec off l (fixed_end 3600 x)"
  using go_Add_at [of off l x 3600] by (simp add: fixed_end_aligned)

lemma addMinute_at: "fixed_start 60 x = x \<Longrightarrow> go_Add (at_sec off l x) go_Minute = at_sec off l (fixed_end 60 x)"
  using go_Add_at [of off l x 60] by (simp add: fixed_end_aligned)

lemma addSecond_at: "go_Add (at_sec off l x) go_Second = at_sec off l (fixed_end 1 x)"
  using go_Add_at [of off l x 1] by (simp add: fixed_one)

lemma go_Truncate_at:
  "go_Truncate (at_sec off l x) (k * nanos) = (if k \<le> 0 then at_sec off l x else at_sec off l (x - (x - off) mod k))"
proof (cases "k \<le> 0")
  case False
  have "instant (at_sec off l x) = (x - off) * nanos" by (simp add: instant_def at_sec_def)
  then have "instant (at_sec off l x) mod (k * nanos) = ((x - off) mod k) * nanos"
    by (simp only: mod_mult_mult2)
  then show ?thesis using False go_Add_at [of off l x "- ((x - off) mod k)"]
    by (simp add: go_Truncate_def)
qed (simp add: go_Truncate_def mult_nonpos_nonneg)

lemma truncateSecond_at:
  "truncateSecond (at_sec off l x) a = (if a then (at_sec off l x, a) else (at_sec off l (fixed_start 1 x), True))"
  using go_Truncate_at [of off l x 1] by (simp add: truncateSecond_def fixed_start_def)

subsection \<open>The loops of the minute and the second\<close>

text \<open>
  These two loops rely on less than a constant offset: it is enough that the minute and the second the
  clocks show are those of \<open>x\<close>, which holds in a zone that shifts by whole hours, too (Zone_Regular).
\<close>

locale minute_clock =
  fixes tz :: tzdata
    and loc :: location
    and off :: int
  assumes whole_minutes: "off mod 60 = 0"
    and minute_reading: "t_Minute tz (at_sec off loc x) = nat (x mod 3600 div 60)"
    and second_reading: "t_Second tz (at_sec off loc x) = nat (x mod 60)"
begin

abbreviation at :: "int \<Rightarrow> gotime" where
  "at x \<equiv> at_sec off loc x"

lemma truncateMinute_at:
  "truncateMinute (at x) a = (if a then (at x, a) else (at (fixed_start 60 x), True))"
proof -
  have "(x - off) mod 60 = x mod 60"
    using whole_minutes by (metis diff_zero mod_diff_right_eq)
  then show ?thesis
    using go_Truncate_at [of off loc x 60] minus_mod_eq_div_mult [of x 60]
    by (simp add: truncateMinute_def fixed_start_def)
qed

end

locale minute_schedule = minute_clock tz loc off
  for tz :: tzdata and loc :: location and off :: int +
  fixes s :: SpecSchedule
begin

abbreviation minute_adv :: step where
  "minute_adv x a \<equiv> step_sec off loc (advanceMinute tz s (at x) a)"

abbreviation second_adv :: step where
  "second_adv x a \<equiv> step_sec off loc (advanceSecond tz s (at x) a)"

lemma minute_search:
  "unit_search (fixed_start 60) (fixed_end 60) (fixed_start 3600) (fixed_end 3600)
     (\<lambda>x. minuteMatches tz s (at x)) (\<lambda>x. t_Minute tz (at x) = 0) minute_adv"
proof
  fix x a
  have minute: "t_Minute tz (at x) = nat (x div 60 mod 60)" for x
    by (simp add: minute_reading minute_of_second)
  show "minuteMatches tz s (at (fixed_start 60 x)) = minuteMatches tz s (at x)"
    by (simp add: minuteMatches_def minute fixed_start_def)
  show "t_Minute tz (at x) = 0 \<longleftrightarrow> fixed_start 3600 x = x" if "fixed_start 60 x = x"
  proof -
    have "x mod 60 = 0" using that by (simp add: fixed_aligned_iff)
    then have "x mod 3600 = 0 \<longleftrightarrow> x div 60 mod 60 = 0"
      using zmod_zmult2_eq [of 60 x 60] by simp
    then show ?thesis by (auto simp: fixed_aligned_iff minute)
  qed
  show "minute_adv x a = Some (x, a, False)" if "minuteMatches tz s (at x)"
    using that by (subst advanceMinute.simps) (simp add: step_sec_at)
  show "minute_adv x a = (if t_Minute tz (at (fixed_end 60 x)) = 0
      then Some (fixed_end 60 x, True, True) else minute_adv (fixed_end 60 x) True)"
    if "\<not> minuteMatches tz s (at x)" and al: "a \<Longrightarrow> fixed_start 60 x = x"
  proof -
    have "go_Add (fst (truncateMinute (at x) a)) go_Minute = at (fixed_end 60 x)"
      using al addMinute_at [of x off loc] addMinute_at [of "fixed_start 60 x" off loc]
      by (simp add: truncateMinute_at seconds.outer.start_start seconds.outer.end_start)
    then show ?thesis
      using that(1) by (subst advanceMinute.simps) (auto simp: step_sec_at truncateMinute_at split: if_splits)
  qed
qed

lemma second_search:
  "unit_search (fixed_start 1) (fixed_end 1) (fixed_start 60) (fixed_end 60)
     (\<lambda>x. secondMatches tz s (at x)) (\<lambda>x. t_Second tz (at x) = 0) second_adv"
proof
  fix x a
  show "secondMatches tz s (at (fixed_start 1 x)) = secondMatches tz s (at x)"
    by (simp add: fixed_one)
  show "t_Second tz (at x) = 0 \<longleftrightarrow> fixed_start 60 x = x"
    by (auto simp: fixed_aligned_iff second_reading)
  show "second_adv x a = Some (x, a, False)" if "secondMatches tz s (at x)"
    using that by (subst advanceSecond.simps) (simp add: step_sec_at)
  show "second_adv x a = (if t_Second tz (at (fixed_end 1 x)) = 0
      then Some (fixed_end 1 x, True, True) else second_adv (fixed_end 1 x) True)"
    if "\<not> secondMatches tz s (at x)"
    using that addSecond_at [of off loc x]
    by (subst advanceSecond.simps) (auto simp: step_sec_at truncateSecond_at fixed_one split: if_splits)
qed

end

subsection \<open>Zones of constant offset\<close>

locale fixed_zone =
  fixes tz :: tzdata
    and loc :: location
    and off :: int
  assumes fixed: "fixed_offset tz loc off"
begin

abbreviation at :: "int \<Rightarrow> gotime" where
  "at x \<equiv> at_sec off loc x"

lemma offset: "zone_offset (lookup_zone tz loc u) = off"
  using fixed by (simp add: fixed_offset_def)

lemma whole_minutes: "off mod 60 = 0"
  using fixed by (simp add: fixed_offset_def)

lemma local_sec_at: "local_sec tz (at x) = x"
  by (simp add: local_sec_def at_sec_def offset)

lemma local_day_at: "local_day tz (at x) = x div 86400"
  by (simp add: local_day_def local_sec_at)

lemmas fields_at = t_Year_def t_Month_def t_Day_def t_Weekday_def t_Hour_def t_Minute_def
  t_Second_def local_sec_at local_day_at

lemma go_Date_at:
  "go_Date tz y m d h mi sec 0 loc =
     at (day_number (y + (m - 1) div 12) (nat ((m - 1) mod 12) + 1) d * 86400 + h * 3600 + mi * 60 + sec)"
  by (simp add: go_Date_def Let_def offset at_sec_def)

lemma date_at_month:
  "go_Date tz (t_Year tz (at x)) (int (t_Month tz (at x))) d h mi sec 0 loc =
     at ((month_start (x div 86400) + (d - 1)) * 86400 + h * 3600 + mi * 60 + sec)"
proof -
  let ?m = "month_of_day (x div 86400)"
  have m: "(int ?m - 1) div 12 = 0" "nat ((int ?m - 1) mod 12) + 1 = ?m"
    using month_of_day_bounds(1,2) [of "x div 86400"] by simp_all
  show ?thesis
    by (simp only: go_Date_at fields_at m month_start_def day_number_def add_0_right) simp
qed

lemma hour_at: "int (t_Hour tz (at x)) = x mod 86400 div 3600"
  by (simp add: fields_at pos_imp_zdiv_nonneg_iff)

lemma minute_at: "int (t_Minute tz (at x)) = x mod 3600 div 60"
  by (simp add: fields_at pos_imp_zdiv_nonneg_iff)

lemma second_at: "int (t_Second tz (at x)) = x mod 60"
  by (simp add: fields_at)

lemma day_at: "int (t_Day tz (at x)) - 1 = x div 86400 - month_start (x div 86400)"
  using day_of_month [of "x div 86400"] by (simp add: t_Day_def local_day_at)

lemma clock_at:
  "int (t_Hour tz (at x)) * 3600 + int (t_Minute tz (at x)) * 60 + int (t_Second tz (at x)) = x mod 86400"
  by (simp only: hour_at minute_at second_at clock_sum)

lemma go_AddDate_at:
  "go_AddDate tz (at x) 0 k j =
     (let y = year_of_day (x div 86400); m = int (month_of_day (x div 86400)) + k
      in at (day_number (y + (m - 1) div 12) (nat ((m - 1) mod 12) + 1)
               (int (mday_of_day (x div 86400)) + j) * 86400 + x mod 86400))"
proof -
  have "tnsec (at x) = 0" "tloc (at x) = loc" by (simp_all add: at_sec_def)
  then show ?thesis
    using clock_at [of x] unfolding go_AddDate_def
    by (simp add: go_Date_at t_Year_def t_Month_def t_Day_def local_day_at Let_def add.assoc)
qed

subsection \<open>The moves of the loops\<close>

lemma resetMonth_at:
  "resetMonth tz (at x) a loc = (if a then (at x, a) else (at (scaled month_start x), True))"
  using date_at_month [of x 1 0 0 0] by (simp add: resetMonth_def scaled_def)

lemma resetDay_at:
  "resetDay tz (at x) a loc = (if a then (at x, a) else (at (fixed_start 86400 x), True))"
  using date_at_month [of x "int (t_Day tz (at x))" 0 0 0]
  by (simp add: resetDay_def fixed_start_def day_at)

lemma resetHour_at:
  "resetHour tz (at x) a loc = (if a then (at x, a) else (at (fixed_start 3600 x), True))"
proof -
  have "(month_start (x div 86400) + (int (t_Day tz (at x)) - 1)) * 86400
      + int (t_Hour tz (at x)) * 3600 + 0 * 60 + 0 = fixed_start 3600 x"
    by (simp only: day_at hour_at fixed_start_def hour_start_sum add_diff_eq
        add_diff_cancel_left' mult_zero_left add_0_right)
  then show ?thesis
    by (simp only: resetHour_def date_at_month)
qed

lemma addMonth_at:
  assumes "scaled month_start x = x"
  shows "go_AddDate tz (at x) 0 1 0 = at (scaled month_end x)"
proof -
  note x = scaled_aligned [OF assms]
  from x(1) have "mday_of_day (x div 86400) = 1" unfolding mday_eq_1_iff .
  then show ?thesis
    using next_month_number [of "x div 86400"] x(2) by (simp add: go_AddDate_at Let_def scaled_def)
qed

lemma normalizeMidnight_at: "x mod 86400 = 0 \<Longrightarrow> normalizeMidnight tz (at x) = at x"
  by (simp add: normalizeMidnight_def fields_at)

lemma addDay_at:
  assumes "fixed_start 86400 x = x"
  shows "normalizeMidnight tz (go_AddDate tz (at x) 0 0 1) = at (fixed_end 86400 x)"
proof -
  let ?n = "x div 86400"
  have m: "(int (month_of_day ?n) - 1) div 12 = 0" "nat ((int (month_of_day ?n) - 1) mod 12) + 1 = month_of_day ?n"
    using month_of_day_bounds(1,2) [of ?n] by simp_all
  have "x mod 86400 = 0" using assms by (simp add: fixed_aligned_iff)
  then have "go_AddDate tz (at x) 0 0 1 = at (day_number (year_of_day ?n) (month_of_day ?n) (int (mday_of_day ?n) + 1) * 86400)"
    by (simp only: go_AddDate_at Let_def add_0_right m)
  also have "day_number (year_of_day ?n) (month_of_day ?n) (int (mday_of_day ?n) + 1) = ?n + 1"
    using day_of_month [of ?n] by (simp add: month_start_def day_number_def)
  finally show ?thesis by (simp add: normalizeMidnight_at fixed_end_def)
qed

end

sublocale fixed_zone \<subseteq> clock: minute_clock tz loc off
  by unfold_locales (simp_all add: whole_minutes fields_at)

subsection \<open>The code's loops meet the contracts\<close>

lemma run_steps_snoc:
  "run_steps (fs @ [f]) c a =
     (case run_steps fs c a of
        None \<Rightarrow> None
      | Some (c', a', w) \<Rightarrow> if w then Some (c', a', True) else f c' a')"
proof (induction fs arbitrary: c a)
  case Nil
  show ?case by (auto split: option.splits)
next
  case (Cons g gs)
  then show ?case by (auto split: option.splits)
qed

locale zone_schedule = fixed_zone tz loc off
  for tz :: tzdata and loc :: location and off :: int +
  fixes s :: SpecSchedule

sublocale zone_schedule \<subseteq> fine: minute_schedule tz loc off s
  by unfold_locales

context zone_schedule begin

abbreviation month_adv :: step where
  "month_adv x a \<equiv> step_sec off loc (advanceMonth tz s loc (at x) a)"

abbreviation day_adv :: step where
  "day_adv x a \<equiv> step_sec off loc (advanceDay tz s loc (at x) a)"

abbreviation hour_adv :: step where
  "hour_adv x a \<equiv> step_sec off loc (advanceHour tz s loc (at x) a)"

lemma month_search:
  "unit_search (scaled month_start) (scaled month_end) (scaled year_start) (scaled year_end)
     (\<lambda>x. monthMatches tz s (at x)) (\<lambda>x. t_Month tz (at x) = 1) month_adv"
proof
  fix x a
  show "monthMatches tz s (at (scaled month_start x)) = monthMatches tz s (at x)"
    by (simp add: monthMatches_def fields_at scaled_def month_of_month_start)
  show "t_Month tz (at x) = 1 \<longleftrightarrow> scaled year_start x = x" if "scaled month_start x = x"
    using scaled_aligned [OF that] january_iff [of "x div 86400"]
    by (simp add: fields_at scaled_aligned_iff)
  show "month_adv x a = Some (x, a, False)" if "monthMatches tz s (at x)"
    using that by (subst advanceMonth.simps) (simp add: step_sec_at)
  show "month_adv x a = (if t_Month tz (at (scaled month_end x)) = 1
      then Some (scaled month_end x, True, True) else month_adv (scaled month_end x) True)"
    if "\<not> monthMatches tz s (at x)" and al: "a \<Longrightarrow> scaled month_start x = x"
  proof -
    have "go_AddDate tz (fst (resetMonth tz (at x) a loc)) 0 1 0 = at (scaled month_end x)"
      using al addMonth_at [of x] addMonth_at [of "scaled month_start x"]
      by (simp add: resetMonth_at days.outer.start_start days.outer.end_start)
    then show ?thesis
      using that(1) by (subst advanceMonth.simps) (auto simp: step_sec_at resetMonth_at split: if_splits)
  qed
qed

lemma day_search:
  "unit_search (fixed_start 86400) (fixed_end 86400) (scaled month_start) (scaled month_end)
     (\<lambda>x. dayMatches tz s (at x)) (\<lambda>x. t_Day tz (at x) = 1) day_adv"
proof
  fix x a
  show "dayMatches tz s (at (fixed_start 86400 x)) = dayMatches tz s (at x)"
    by (simp add: dayMatches_def fields_at fixed_start_def)
  show "t_Day tz (at x) = 1 \<longleftrightarrow> scaled month_start x = x" if "fixed_start 86400 x = x"
  proof -
    have "x mod 86400 = 0" using that by (simp add: fixed_aligned_iff)
    then have "scaled month_start x = x \<longleftrightarrow> month_start (x div 86400) = x div 86400"
      by (rule scaled_aligned_iff)
    then show ?thesis by (simp only: fields_at mday_eq_1_iff)
  qed
  show "day_adv x a = Some (x, a, False)" if "dayMatches tz s (at x)"
    using that by (subst advanceDay.simps) (simp add: step_sec_at)
  show "day_adv x a = (if t_Day tz (at (fixed_end 86400 x)) = 1
      then Some (fixed_end 86400 x, True, True) else day_adv (fixed_end 86400 x) True)"
    if "\<not> dayMatches tz s (at x)" and al: "a \<Longrightarrow> fixed_start 86400 x = x"
  proof -
    have "normalizeMidnight tz (go_AddDate tz (fst (resetDay tz (at x) a loc)) 0 0 1) = at (fixed_end 86400 x)"
      using al addDay_at [of x] addDay_at [of "fixed_start 86400 x"]
      by (simp add: resetDay_at hours.outer.start_start hours.outer.end_start)
    then show ?thesis
      using that(1) by (subst advanceDay.simps) (auto simp: step_sec_at resetDay_at split: if_splits)
  qed
qed

lemma hour_search:
  "unit_search (fixed_start 3600) (fixed_end 3600) (fixed_start 86400) (fixed_end 86400)
     (\<lambda>x. hourMatches tz s (at x)) (\<lambda>x. t_Hour tz (at x) = 0) hour_adv"
proof
  fix x a
  have hour: "t_Hour tz (at x) = nat (x div 3600 mod 24)" for x
    by (simp add: t_Hour_def local_sec_at hour_of_second)
  show "hourMatches tz s (at (fixed_start 3600 x)) = hourMatches tz s (at x)"
    by (simp add: hourMatches_def hour fixed_start_def)
  show "t_Hour tz (at x) = 0 \<longleftrightarrow> fixed_start 86400 x = x" if "fixed_start 3600 x = x"
  proof -
    have "x mod 3600 = 0" using that by (simp add: fixed_aligned_iff)
    then have "x mod 86400 = 0 \<longleftrightarrow> x div 3600 mod 24 = 0"
      using zmod_zmult2_eq [of 24 x 3600] by simp
    then show ?thesis by (auto simp: fixed_aligned_iff hour)
  qed
  show "hour_adv x a = Some (x, a, False)" if "hourMatches tz s (at x)"
    using that by (subst advanceHour.simps) (simp add: step_sec_at)
  show "hour_adv x a = (if t_Hour tz (at (fixed_end 3600 x)) = 0
      then Some (fixed_end 3600 x, True, True) else hour_adv (fixed_end 3600 x) True)"
    if "\<not> hourMatches tz s (at x)" and al: "a \<Longrightarrow> fixed_start 3600 x = x"
  proof -
    have "go_Add (fst (resetHour tz (at x) a loc)) go_Hour = at (fixed_end 3600 x)"
      using al addHour_at [of x off loc] addHour_at [of "fixed_start 3600 x" off loc]
      by (simp add: resetHour_at minutes.outer.start_start minutes.outer.end_start)
    then show ?thesis
      using that(1) by (subst advanceHour.simps) (auto simp: step_sec_at resetHour_at split: if_splits)
  qed
qed

text \<open>\<open>advance\<close> is the sequence of the five loops.\<close>

abbreviation advance_steps :: step where
  "advance_steps \<equiv>
     then_step (then_step (then_step (then_step (then_step (\<lambda>x a. Some (x, a, False))
       month_adv) day_adv) hour_adv) fine.minute_adv) fine.second_adv"

definition ready :: "int \<Rightarrow> bool" where
  "ready x \<longleftrightarrow>
     ((((True \<and> (monthMatches tz s (at x) \<or> scaled month_start x = x))
       \<and> (dayMatches tz s (at x) \<or> fixed_start 86400 x = x))
       \<and> (hourMatches tz s (at x) \<or> fixed_start 3600 x = x))
       \<and> (minuteMatches tz s (at x) \<or> fixed_start 60 x = x))
       \<and> (secondMatches tz s (at x) \<or> fixed_start 1 x = x)"

lemma advance_stage:
  "search_stage (fixed_start 1) (fixed_end 1) (scaled year_start) (scaled year_end)
     (\<lambda>x. matches tz s (at x)) ready advance_steps"
proof -
  have "search_stage (fixed_start 1) (fixed_end 1) (scaled year_start) (scaled year_end)
     (\<lambda>z. ((((True \<and> monthMatches tz s (at z)) \<and> dayMatches tz s (at z)) \<and> hourMatches tz s (at z))
        \<and> minuteMatches tz s (at z)) \<and> secondMatches tz s (at z)) ready advance_steps"
    unfolding ready_def [abs_def]
    by (rule search_stage_compose [OF search_stage_compose [OF search_stage_compose
      [OF search_stage_compose [OF search_stage_compose [OF search_stage_init
        [OF scaled_unit [OF year_unit]] month_search] day_search] hour_search]
      fine.minute_search] fine.second_search])
  then show ?thesis by (simp add: matches_def conj_assoc)
qed

definition represents ::
  "step \<Rightarrow> (gotime \<Rightarrow> bool \<Rightarrow> (gotime \<times> bool \<times> bool) option) list \<Rightarrow> bool" where
  "represents st fs \<longleftrightarrow> (\<forall>x a y b w. st x a = Some (y, b, w) \<longrightarrow>
     run_steps fs (at x) a = Some (at y, b, w))"

lemma represents_Nil: "represents (\<lambda>x a. Some (x, a, False)) []"
  by (simp add: represents_def)

lemma represents_snoc:
  assumes "represents st fs"
  shows "represents (then_step st (\<lambda>x a. step_sec off loc (f (at x) a))) (fs @ [f])"
  unfolding represents_def
proof (intro allI impI)
  fix x a y b w
  assume "then_step st (\<lambda>x a. step_sec off loc (f (at x) a)) x a = Some (y, b, w)"
  then obtain y1 b1 w1 where "st x a = Some (y1, b1, w1)"
    and st: "(if w1 then Some (y1, b1, True) else step_sec off loc (f (at y1) b1)) = Some (y, b, w)"
    by (auto simp: then_step_def split: option.splits)
  with assms have "run_steps fs (at x) a = Some (at y1, b1, w1)"
    by (simp add: represents_def)
  with st show "run_steps (fs @ [f]) (at x) a = Some (at y, b, w)"
    by (auto simp: run_steps_snoc step_sec_iff split: if_splits)
qed

lemma advance_at:
  assumes "advance_steps x a = Some (y, a', w)"
  shows "advance tz s loc (at x) a = Some (at y, a', w)"
proof -
  have "represents advance_steps ((((([] @ [advanceMonth tz s loc]) @ [advanceDay tz s loc])
      @ [advanceHour tz s loc]) @ [advanceMinute tz s]) @ [advanceSecond tz s])"
    by (intro represents_snoc represents_Nil)
  with assms show ?thesis by (simp add: advance_def represents_def)
qed

subsection \<open>The outer loop\<close>

abbreviation activation_from :: "int \<Rightarrow> int \<Rightarrow> bool \<Rightarrow> int option option" where
  "activation_from limit x a \<equiv> find_sec off loc (find_activation tz s loc limit (at x) a)"

abbreviation horizon_end :: "int \<Rightarrow> int" where
  "horizon_end limit \<equiv> days_before_year (limit + 1) * 86400"

lemma year_at_le_iff: "t_Year tz (at x) \<le> limit \<longleftrightarrow> x < horizon_end limit"
proof -
  let ?n = "x div 86400"
  have "year_of_day ?n \<le> limit \<longleftrightarrow> ?n < days_before_year (limit + 1)"
    using year_of_day_bounds [of ?n] days_before_year_mono [of "year_of_day ?n + 1" "limit + 1"]
      days_before_year_mono [of "limit + 1" "year_of_day ?n"]
    by linarith
  also have "\<dots> \<longleftrightarrow> x < horizon_end limit"
    using div_bounds [of 86400 x] div_in_scaled(2) [of x] by auto
  finally show ?thesis by (simp add: fields_at)
qed

lemma activation_loop:
  "search_loop (fixed_start 1) (fixed_end 1) (scaled year_start) (scaled year_end)
     (\<lambda>x. matches tz s (at x)) ready advance_steps (horizon_end limit) (activation_from limit)"
proof (rule search_loop.intro [OF advance_stage], unfold_locales)
  show "scaled year_start (horizon_end limit) = horizon_end limit"
    by (simp add: scaled_def year_start_def date_of_year_start)
  show "activation_from limit x a = Some None" if "horizon_end limit \<le> x" for x a
    using that year_at_le_iff [of x limit] by (subst find_activation.simps) (simp add: find_sec_iff)
  show "activation_from limit x a = (if w then activation_from limit y a' else Some (Some y))"
    if "x < horizon_end limit" "advance_steps x a = Some (y, a', w)" for x a y a' w
    using that year_at_le_iff [of x limit] advance_at [OF that(2)]
    by (subst find_activation.simps) (simp add: find_sec_iff)
qed

lemma find_activation_at:
  "(\<exists>y. find_activation tz s loc limit (at x) False = Some (at y, True) \<and> x \<le> y \<and>
      t_Year tz (at y) \<le> limit \<and> matches tz s (at y) \<and> (\<forall>z. x \<le> z \<and> z < y \<longrightarrow> \<not> matches tz s (at z)))
   \<or> (find_activation tz s loc limit (at x) False = Some (zero_time, False) \<and>
      (\<forall>z. x \<le> z \<and> t_Year tz (at z) \<le> limit \<longrightarrow> \<not> matches tz s (at z)))"
proof -
  from search_loop.find_spec [OF activation_loop, of False x limit]
  obtain r where r: "activation_from limit x False = Some r" "case r of
      None \<Rightarrow> \<forall>z. x \<le> z \<and> z < horizon_end limit \<longrightarrow> \<not> matches tz s (at z)
    | Some y \<Rightarrow> x \<le> y \<and> y < horizon_end limit \<and> matches tz s (at y) \<and>
        (\<forall>z. x \<le> z \<and> z < y \<longrightarrow> \<not> matches tz s (at z))"
    by blast
  show ?thesis
  proof (cases r)
    case None
    with r have "find_activation tz s loc limit (at x) False = Some (zero_time, False)"
      by (simp add: find_sec_iff)
    with r(2) None show ?thesis by (simp add: year_at_le_iff)
  next
    case (Some y)
    with r have "find_activation tz s loc limit (at x) False = Some (at y, True)"
      by (simp add: find_sec_iff)
    with r(2) Some show ?thesis by (auto simp: year_at_le_iff)
  qed
qed

end

lemma fixed_offset_UTC: "fixed_offset tz UTC 0"
  by (simp add: fixed_offset_def lookup_zone_def)

interpretation utc: fixed_zone tz UTC 0 for tz
  by unfold_locales (rule fixed_offset_UTC)

interpretation utc_schedule: zone_schedule tz UTC 0 s for tz s
  by unfold_locales

interpretation utc_month: unit_search "scaled month_start" "scaled month_end" "scaled year_start"
    "scaled year_end" "\<lambda>x. monthMatches tz s (at_sec 0 UTC x)" "\<lambda>x. t_Month tz (at_sec 0 UTC x) = 1"
    "\<lambda>x a. step_sec 0 UTC (advanceMonth tz s UTC (at_sec 0 UTC x) a)" for tz s
  by (rule utc_schedule.month_search)

interpretation utc_advance: search_stage "fixed_start 1" "fixed_end 1" "scaled year_start"
    "scaled year_end" "\<lambda>x. matches tz s (at_sec 0 UTC x)" "utc_schedule.ready tz s"
    "utc_schedule.advance_steps tz s" for tz s
  by (rule utc_schedule.advance_stage)

interpretation utc_find: search_loop "fixed_start 1" "fixed_end 1" "scaled year_start"
    "scaled year_end" "\<lambda>x. matches tz s (at_sec 0 UTC x)" "utc_schedule.ready tz s"
    "utc_schedule.advance_steps tz s" "utc_schedule.horizon_end limit"
    "utc_schedule.activation_from tz s limit" for tz s limit
  by (rule utc_schedule.activation_loop)

subsection \<open>What Next promises\<close>

text \<open>
  \<open>eval_location\<close> is the location the fields are read in; an \<open>activation\<close> is a whole second
  whose fields match there; \<open>horizon_year\<close> is the last year searched.
\<close>

definition eval_location :: "location \<Rightarrow> gotime \<Rightarrow> location" where
  "eval_location l t = (if l = Local then tloc t else l)"

definition activation :: "tzdata \<Rightarrow> SpecSchedule \<Rightarrow> location \<Rightarrow> gotime \<Rightarrow> bool" where
  "activation tz s L u \<longleftrightarrow> tnsec u = 0 \<and> tloc u = L \<and> matches tz s u"

definition horizon_year :: "tzdata \<Rightarrow> location \<Rightarrow> gotime \<Rightarrow> int" where
  "horizon_year tz L t = t_Year tz \<lparr>tsec = tsec t + 1, tnsec = 0, tloc = L\<rparr> + yearSearchSpan"

lemma prepareNext_eq:
  assumes "sLocation s = Some l"
  shows "prepareNext s t =
    Ret (\<lparr>tsec = tsec t + 1, tnsec = 0, tloc = eval_location l t\<rparr>, eval_location l t)"
  using assms by (simp add: prepareNext_def eval_location_def go_In_def go_Add_def Let_def)

lemma spec_Next_eq:
  assumes "sLocation s = Some l" "L = eval_location l t"
  shows "spec_Next tz s t = and_then
    (loop_result (find_activation tz s L (horizon_year tz L t)
       \<lparr>tsec = tsec t + 1, tnsec = 0, tloc = L\<rparr> False))
    (\<lambda>(r, found). Ret (if found then go_In r (tloc t) else zero_time))"
  using assms by (simp add: spec_Next_def nextActivation_def prepareNext_eq horizon_year_def)

lemma spec_Next_cases:
  assumes loc: "sLocation s = Some l" "L = eval_location l t" and fixed: "fixed_offset tz L off"
  shows "(\<exists>r. spec_Next tz s t = Ret r \<and> tloc r = tloc t \<and> activation tz s L (go_In r L) \<and>
      After r t \<and> t_Year tz (go_In r L) \<le> horizon_year tz L t \<and>
      (\<forall>u. activation tz s L u \<and> After u t \<longrightarrow> \<not> Before u r))
    \<or> (spec_Next tz s t = Ret zero_time \<and>
      (\<forall>u. activation tz s L u \<and> After u t \<longrightarrow> horizon_year tz L t < t_Year tz u))"
proof -
  have zone: "zone_schedule tz L off" by unfold_locales (rule fixed)
  let ?x = "tsec t + 1 + off" and ?at = "at_sec off L"
  have start: "?at ?x = \<lparr>tsec = tsec t + 1, tnsec = 0, tloc = L\<rparr>" by (simp add: at_sec_def)
  have act: "u = ?at (tsec u + off)" if "activation tz s L u" for u
    using that by (simp add: activation_def at_sec_def)
  have later: "?x \<le> tsec u + off" if "After u t" "activation tz s L u" for u
    using that by (auto simp: After_def activation_def)
  note next_eq = spec_Next_eq [OF loc, of tz, folded start]
  from zone_schedule.find_activation_at [OF zone, of s "horizon_year tz L t" ?x]
  show ?thesis
  proof (elim disjE exE conjE)
    fix y
    assume y: "find_activation tz s L (horizon_year tz L t) (?at ?x) False = Some (?at y, True)"
      "?x \<le> y" "t_Year tz (?at y) \<le> horizon_year tz L t" "matches tz s (?at y)"
      "\<forall>z. ?x \<le> z \<and> z < y \<longrightarrow> \<not> matches tz s (?at z)"
    let ?r = "go_In (?at y) (tloc t)"
    have r: "go_In ?r L = ?at y" "tsec ?r = y - off" "tnsec ?r = 0"
      by (simp_all add: go_In_def at_sec_def)
    have "spec_Next tz s t = Ret ?r" using next_eq y(1) by simp
    moreover have "activation tz s L (go_In ?r L)"
      using y(4) r(1) by (simp add: activation_def) (simp add: at_sec_def)
    moreover have "After ?r t" using y(2) r by (simp add: After_def)
    moreover have "\<not> Before u ?r" if u: "activation tz s L u \<and> After u t" for u
    proof
      assume "Before u ?r"
      then have "tsec u + off < y" using r by (auto simp: Before_def)
      then have "\<not> matches tz s (?at (tsec u + off))" using y(5) later u by blast
      with act [of u] u show False by (simp add: activation_def)
    qed
    ultimately show ?thesis using y(3) r(1) by (intro disjI1 exI [of _ ?r]) (simp add: go_In_def)
  next
    assume none: "find_activation tz s L (horizon_year tz L t) (?at ?x) False = Some (zero_time, False)"
      "\<forall>z. ?x \<le> z \<and> t_Year tz (?at z) \<le> horizon_year tz L t \<longrightarrow> \<not> matches tz s (?at z)"
    have "horizon_year tz L t < t_Year tz u" if u: "activation tz s L u \<and> After u t" for u
      using none(2) [rule_format, of "tsec u + off"] later [of u] act [of u] u
      by (auto simp: activation_def not_le [symmetric])
    moreover have "spec_Next tz s t = Ret zero_time" using next_eq none(1) by simp
    ultimately show ?thesis by blast
  qed
qed

end
