(* ===== verification/Zone_Hours.thy ===== *)
theory Zone_Hours
  imports Go_Time
begin

text \<open>
  Zones whose clocks change by whole hours at a full hour: what the clocks show there, field by
  field.
\<close>

text \<open>
  All offsets of the zone are \<open>c\<close> up to whole hours, and the offset stays the same during an hour of
  local time.
\<close>

definition hour_aligned :: "tzdata \<Rightarrow> location \<Rightarrow> int \<Rightarrow> bool" where
  "hour_aligned tz l c \<longleftrightarrow> c mod 60 = 0 \<and>
     (\<forall>u. zone_offset (lookup_zone tz l u) mod 3600 = c mod 3600) \<and>
     (\<forall>u v. (u + c) div 3600 = (v + c) div 3600 \<longrightarrow>
        zone_offset (lookup_zone tz l u) = zone_offset (lookup_zone tz l v))"

lemma hour_alignedD:
  assumes "hour_aligned tz l c"
  shows "c mod 60 = 0" "zone_offset (lookup_zone tz l u) mod 3600 = c mod 3600"
    "(u + c) div 3600 = (v + c) div 3600 \<Longrightarrow>
       zone_offset (lookup_zone tz l u) = zone_offset (lookup_zone tz l v)"
  using assms unfolding hour_aligned_def by blast+

lemma aligned_local:
  assumes "hour_aligned tz (tloc t) c"
  shows "\<exists>k. local_sec tz t = tsec t + c + k * 3600"
proof -
  let ?o = "zone_offset (lookup_zone tz (tloc t) (tsec t - unix_epoch))"
  have "3600 dvd ?o - c" using hour_alignedD(2) [OF assms] by (metis mod_eq_dvd_iff)
  then obtain k where "?o - c = 3600 * k" by (elim dvdE)
  then show ?thesis by (intro exI [of _ k]) (simp add: local_sec_def)
qed

lemma aligned_fields:
  assumes "hour_aligned tz (tloc t) c"
  shows "t_Second tz t = nat ((tsec t + c) mod 60)" "t_Minute tz t = nat ((tsec t + c) mod 3600 div 60)"
proof -
  obtain k where k: "local_sec tz t = tsec t + c + k * 3600" using aligned_local [OF assms] by blast
  have "tsec t + c + k * 3600 = tsec t + c + (k * 60) * 60" by simp
  then have "(tsec t + c + k * 3600) mod 60 = (tsec t + c) mod 60" by (simp only: mod_mult_self1)
  then show "t_Second tz t = nat ((tsec t + c) mod 60)" by (simp add: t_Second_def k)
  show "t_Minute tz t = nat ((tsec t + c) mod 3600 div 60)" by (simp add: t_Minute_def k)
qed

lemma aligned_hour:
  assumes "hour_aligned tz (tloc t) c" "tloc u = tloc t" "(tsec u + c) div 3600 = (tsec t + c) div 3600"
  shows "t_Hour tz u = t_Hour tz t"
proof -
  let ?o = "zone_offset (lookup_zone tz (tloc t) (tsec t - unix_epoch))"
  have "x - unix_epoch + c = (x + c) + (- 17259888) * 3600" for x by (simp add: unix_epoch_def)
  then have "(x - unix_epoch + c) div 3600 = (x + c) div 3600 - 17259888" for x by simp
  then have "(tsec u - unix_epoch + c) div 3600 = (tsec t - unix_epoch + c) div 3600" using assms(3) by simp
  then have o: "zone_offset (lookup_zone tz (tloc t) (tsec u - unix_epoch)) = ?o"
    by (rule hour_alignedD(3) [OF assms(1)])
  obtain k where "local_sec tz t = tsec t + c + k * 3600" using aligned_local [OF assms(1)] by blast
  then have k: "?o = c + k * 3600" by (simp add: local_sec_def)
  have "(tsec u + (c + k * 3600)) div 3600 = (tsec t + (c + k * 3600)) div 3600"
    using assms(3) by (simp add: add.assoc [symmetric])
  then have "(tsec u + ?o) div 3600 = (tsec t + ?o) div 3600" by (simp only: k)
  moreover have "x mod 86400 div 3600 = x div 3600 mod 24" for x :: int
    using zmod_zmult2_eq [of 24 x 3600] by simp
  ultimately show ?thesis by (simp add: t_Hour_def local_sec_def assms(2) o)
qed

lemma hour_less:
  fixes x :: int
  shows "x < m * 3600 \<longleftrightarrow> x div 3600 < m"
proof -
  have "m * 3600 \<le> x \<longleftrightarrow> m \<le> x div 3600"
    using div_bounds [of 3600 x] zdiv_mono1 [of "m * 3600" x 3600] by auto
  then show ?thesis by (simp add: not_le [symmetric])
qed

lemma hour_block_less:
  fixes a :: int
  assumes "(u + c) div 3600 = (v + c) div 3600" "a + c = m * 3600"
  shows "u < a \<longleftrightarrow> v < a"
proof -
  have "x < a \<longleftrightarrow> x + c < m * 3600" for x using assms(2) by linarith
  then show ?thesis by (simp add: hour_less assms(1))
qed

end
