(* ===== verification/Zone_Regular.thy ===== *)
theory Zone_Regular
  imports Spec_Next Zone_Hours
begin

text \<open>
  Regular zones: the clocks change by whole hours at a full hour, go back by at most one hour, and show
  every midnight. What the clocks show there hour by hour, and where the resets of the search and the
  calls of \<open>AddDate\<close> lead. Zone_Search builds on it.
\<close>

subsection \<open>Regular zones\<close>

text \<open>
  \<open>clock_second\<close> is what the clocks of the location show at second \<open>x\<close>, \<open>date_second\<close> the second
  that \<open>time.Date\<close> picks for such a reading.
\<close>

definition clock_second :: "tzdata \<Rightarrow> location \<Rightarrow> int \<Rightarrow> int" where
  "clock_second tz l x = local_sec tz \<lparr>tsec = x, tnsec = 0, tloc = l\<rparr>"

definition date_second :: "tzdata \<Rightarrow> location \<Rightarrow> int \<Rightarrow> int" where
  "date_second tz l w = tsec (go_Date tz 1 1 1 0 0 w 0 l)"

text \<open>
  The last condition is what \<open>time.Date\<close> documents: if the clocks show a full hour at some time, it
  finds a time at which they do.
\<close>

definition regular_zone :: "tzdata \<Rightarrow> location \<Rightarrow> int \<Rightarrow> bool" where
  "regular_zone tz l k \<longleftrightarrow> hour_aligned tz l k \<and>
     (\<forall>x. clock_second tz l x div 3600 \<le> clock_second tz l (x + 3600) div 3600) \<and>
     (\<forall>d. \<exists>x. clock_second tz l x = d * 86400) \<and>
     (\<forall>x. clock_second tz l x mod 3600 = 0 \<longrightarrow>
        clock_second tz l (date_second tz l (clock_second tz l x)) = clock_second tz l x)"

text \<open>A further condition: the clocks show every midnight once only.\<close>

definition single_midnights :: "tzdata \<Rightarrow> location \<Rightarrow> bool" where
  "single_midnights tz l \<longleftrightarrow> (\<forall>x y. clock_second tz l x mod 86400 = 0 \<and>
     clock_second tz l x = clock_second tz l y \<longrightarrow> x = y)"

lemma regular_zoneD:
  assumes "regular_zone tz l k"
  shows "hour_aligned tz l k" "clock_second tz l x div 3600 \<le> clock_second tz l (x + 3600) div 3600"
    "\<exists>x. clock_second tz l x = d * 86400"
    "clock_second tz l x mod 3600 = 0 \<Longrightarrow> clock_second tz l (date_second tz l (clock_second tz l x)) = clock_second tz l x"
  using assms by (simp_all add: regular_zone_def)

lemma go_Date_second:
  "go_Date tz y m d h mi sec 0 l =
     \<lparr>tsec = date_second tz l (day_number (y + (m - 1) div 12) (nat ((m - 1) mod 12) + 1) d * 86400 +
        h * 3600 + mi * 60 + sec), tnsec = 0, tloc = l\<rparr>"
proof -
  have "day_number 1 (Suc 0) 1 = 0" by (simp add: day_number_def days_before_year_def days_before_month_values)
  then show ?thesis by (simp add: date_second_def go_Date_def Let_def)
qed

text \<open>
  Times are counted in seconds \<open>x\<close> of the standard time \<open>k\<close> of the zone, in which a block of an hour
  has one offset; \<open>shown x\<close> is what the clocks show then.
\<close>

locale regular_clock =
  fixes tz :: tzdata
    and loc :: location
    and off :: int
  assumes regular: "regular_zone tz loc off"
begin

abbreviation at :: "int \<Rightarrow> gotime" where
  "at x \<equiv> at_sec off loc x"

definition shown :: "int \<Rightarrow> int" where
  "shown x = local_sec tz (at x)"

lemma aligned: "hour_aligned tz loc off"
  by (rule regular_zoneD(1) [OF regular])

lemma shown_clock: "shown x = clock_second tz loc (x - off)"
  by (simp add: shown_def clock_second_def at_sec_def)

lemma shown_whole: "\<exists>j. shown x = x + j * 3600"
  using aligned_local [of tz "at x" off] aligned by (simp add: shown_def at_sec_def)

lemma shown_mod: "shown x mod 3600 = x mod 3600"
proof -
  obtain j where "shown x = x + j * 3600" using shown_whole by blast
  then show ?thesis by simp
qed

lemma shown_block:
  assumes "x div 3600 = y div 3600"
  shows "shown y = shown x + (y - x)"
proof -
  have "z - off - unix_epoch + off = z + (- 17259888) * 3600" for z by (simp add: unix_epoch_def)
  then have "(z - off - unix_epoch + off) div 3600 = z div 3600 - 17259888" for z by simp
  then have "zone_offset (lookup_zone tz loc (y - off - unix_epoch)) = zone_offset (lookup_zone tz loc (x - off - unix_epoch))"
    using assms by (intro hour_alignedD(3) [OF aligned]) simp
  then show ?thesis by (simp add: shown_def local_sec_def at_sec_def)
qed

text \<open>The number of the hour that the clocks show never falls.\<close>

definition hour_no :: "int \<Rightarrow> int" where
  "hour_no x = shown x div 3600"

lemma hour_no_block:
  assumes "x div 3600 = y div 3600"
  shows "hour_no y = hour_no x"
proof -
  obtain j where j: "shown x = x + j * 3600" using shown_whole by blast
  then have "shown y = y + j * 3600" using shown_block [OF assms] by simp
  then show ?thesis using assms j by (simp add: hour_no_def)
qed

lemma hour_no_next: "hour_no x \<le> hour_no (x + 3600)"
  using regular_zoneD(2) [OF regular, of "x - off"] by (simp add: hour_no_def shown_clock algebra_simps)

lemma hour_no_add: "hour_no x \<le> hour_no (x + int n * 3600)"
proof (induction n)
  case (Suc n)
  then show ?case using hour_no_next [of "x + int n * 3600"] by (simp add: algebra_simps)
qed simp

lemma hour_no_mono:
  assumes "x div 3600 \<le> y div 3600"
  shows "hour_no x \<le> hour_no y"
proof -
  have "(x + int (nat (y div 3600 - x div 3600)) * 3600) div 3600 = y div 3600" using assms by simp
  from hour_no_block [OF this] hour_no_add [of x] show ?thesis by metis
qed

lemma hour_no_le: "x \<le> y \<Longrightarrow> hour_no x \<le> hour_no y"
  by (simp add: hour_no_mono zdiv_mono1)

lemma hour_no_less: "hour_no x < hour_no y \<Longrightarrow> x < y"
  using hour_no_le [of y x] by linarith

definition day_no :: "int \<Rightarrow> int" where
  "day_no x = shown x div 86400"

lemma day_of_hour: "day_no x = hour_no x div 24"
  by (simp add: day_no_def hour_no_def zdiv_zmult2_eq [symmetric])

lemma day_no_le: "x \<le> y \<Longrightarrow> day_no x \<le> day_no y"
  by (simp add: day_of_hour zdiv_mono1 hour_no_le)

lemma day_no_less: "day_no x < day_no y \<Longrightarrow> x < y"
  using day_no_le [of y x] by linarith

lemma hour_reading: "t_Hour tz (at x) = nat (hour_no x mod 24)"
  by (simp add: t_Hour_def hour_of_second hour_no_def flip: shown_def)

text \<open>Every midnight is the midnight of a day: \<open>mid d\<close> is the one \<open>time.Date\<close> picks.\<close>

definition mid :: "int \<Rightarrow> int" where
  "mid d = date_second tz loc (d * 86400) + off"

lemma shown_date:
  assumes "x mod 3600 = 0"
  shows "shown (date_second tz loc (shown x) + off) = shown x"
proof -
  have "clock_second tz loc (x - off) mod 3600 = 0" using assms shown_mod [of x] by (simp add: shown_clock)
  from regular_zoneD(4) [OF regular this] show ?thesis by (simp add: shown_clock)
qed

lemma shown_mid: "shown (mid d) = d * 86400"
proof -
  obtain x where "clock_second tz loc x = d * 86400" using regular_zoneD(3) [OF regular] by blast
  then have x: "shown (x + off) = d * 86400" by (simp add: shown_clock)
  then have "(x + off) mod 3600 = 0" using shown_mod [of "x + off"] by (simp add: mod_mult_right_eq [symmetric])
  from shown_date [OF this] show ?thesis by (simp add: mid_def x)
qed

lemma day_no_mid: "day_no (mid d) = d"
  by (simp add: day_no_def shown_mid)

lemma less_mid: "day_no x < d \<Longrightarrow> x < mid d"
  by (rule day_no_less) (simp add: day_no_mid)

text \<open>Where no midnight is shown twice, \<open>mid d\<close> is the first second of the day.\<close>

lemma mid_first:
  assumes "single_midnights tz loc" "x < mid d"
  shows "day_no x < d"
proof (rule ccontr)
  assume "\<not> day_no x < d"
  then have "24 * d \<le> hour_no x" by (simp add: day_of_hour)
  moreover have "hour_no x \<le> 24 * d"
    using hour_no_le [of x "mid d"] assms(2) by (simp add: hour_no_def shown_mid)
  moreover let ?y = "fixed_start 3600 x"
  have "hour_no ?y = hour_no x" by (rule hour_no_block) (simp add: fixed_start_def)
  moreover have "shown ?y = hour_no ?y * 3600"
    using shown_mod [of ?y] div_mult_mod_eq [of "shown ?y" 3600] by (simp add: hour_no_def fixed_start_def)
  ultimately have "shown ?y = d * 86400" by simp
  then have y: "clock_second tz loc (?y - off) = d * 86400" by (simp add: shown_clock)
  moreover have m: "clock_second tz loc (mid d - off) = d * 86400" using shown_mid [of d] by (simp add: shown_clock)
  ultimately have "?y - off = mid d - off"
    using assms(1) [unfolded single_midnights_def, rule_format, of "?y - off" "mid d - off"] by simp
  then show False using assms(2) minutes.outer.start_le [of x] by simp
qed

text \<open>No second of the interval is \<open>ok\<close>: what a loop that moved from \<open>x\<close> to \<open>y\<close> may skip.\<close>

definition skips :: "(int \<Rightarrow> bool) \<Rightarrow> int \<Rightarrow> int \<Rightarrow> bool" where
  "skips ok x y \<longleftrightarrow> (single_midnights tz loc \<longrightarrow> (\<forall>z. x \<le> z \<and> z < y \<longrightarrow> \<not> ok z))"

lemma skips_refl: "skips ok x x"
  unfolding skips_def by auto

lemma skips_trans: "skips ok x y \<Longrightarrow> skips ok y z \<Longrightarrow> skips ok x z"
  unfolding skips_def by (meson not_less)

lemma skips_weaken: "skips ok x y \<Longrightarrow> (\<And>z. ok' z \<Longrightarrow> ok z) \<Longrightarrow> skips ok' x y"
  unfolding skips_def by blast

lemma skips_days:
  assumes "\<And>z. day_no x \<le> day_no z \<Longrightarrow> day_no z < d \<Longrightarrow> \<not> ok z"
  shows "skips ok x (mid d)"
  unfolding skips_def using assms mid_first day_no_le by blast

lemma skips_hour:
  assumes "hour_no y = hour_no x" "\<And>z. hour_no z = hour_no x \<Longrightarrow> \<not> ok z"
  shows "skips ok x y"
proof -
  have "hour_no z = hour_no x" if "x \<le> z" "z < y" for z
    using hour_no_le [OF that(1)] hour_no_le [of z y] that(2) assms(1) by simp
  then show ?thesis unfolding skips_def using assms(2) by blast
qed

definition midnight :: "int \<Rightarrow> bool" where
  "midnight x \<longleftrightarrow> shown x mod 86400 = 0"

text \<open>An hour later the clocks show the same day, or midnight of the next day.\<close>

lemma next_hour:
  "day_no (fixed_end 3600 x) = day_no x \<or>
    midnight (fixed_end 3600 x) \<and> day_no (fixed_end 3600 x) = day_no x + 1"
proof -
  let ?y = "fixed_end 3600 x" and ?d = "day_no x + 1"
  have y: "x < ?y" "?y mod 3600 = 0"
    using minutes.outer.end_gt [of x] minutes.outer.start_end [of x] by (simp_all add: fixed_aligned_iff)
  have "day_no x \<le> day_no ?y" using y(1) by (intro day_no_le) simp
  then consider "day_no ?y = day_no x" | "?d \<le> day_no ?y" by linarith
  then show ?thesis
  proof cases
    case 2
    have "x < mid ?d" by (rule less_mid) simp
    moreover have "mid ?d mod 3600 = 0" using shown_mod [of "mid ?d"] by (simp add: shown_mid mod_mult_right_eq [symmetric])
    ultimately have "?y \<le> mid ?d"
      using minutes.outer.aligned_end_le [of "mid ?d" x] by (simp add: fixed_aligned_iff)
    then have "hour_no ?y \<le> 24 * ?d" using hour_no_le [of ?y "mid ?d"] by (simp add: hour_no_def shown_mid)
    moreover have "24 * ?d \<le> hour_no ?y" using 2 by (simp add: day_of_hour)
    ultimately have "hour_no ?y = 24 * ?d" by simp
    moreover have "shown ?y = hour_no ?y * 3600"
      using y(2) shown_mod [of ?y] div_mult_mod_eq [of "shown ?y" 3600] by (simp add: hour_no_def)
    ultimately have "shown ?y = ?d * 86400" by simp
    then show ?thesis by (simp add: midnight_def day_no_def)
  qed simp
qed

lemmas date_reading = t_Year_def t_Month_def t_Day_def t_Weekday_def local_day_def
  shown_def [symmetric] day_no_def [symmetric]

text \<open>The moves of the loops.\<close>

lemma go_Date_at:
  "go_Date tz y m d h 0 0 0 loc = at (date_second tz loc
     (day_number (y + (m - 1) div 12) (nat ((m - 1) mod 12) + 1) d * 86400 + h * 3600) + off)"
  by (simp add: go_Date_second at_sec_def)

lemma go_Date_mid:
  "go_Date tz y m d 0 0 0 0 loc = at (mid (day_number (y + (m - 1) div 12) (nat ((m - 1) mod 12) + 1) d))"
  by (simp add: go_Date_at mid_def)

lemma month_of_fields:
  "(int (month_of_day n) - 1) div 12 = 0" "nat ((int (month_of_day n) - 1) mod 12) + 1 = month_of_day n"
  using month_of_day_bounds(1,2) [of n] by simp_all

lemma date_of_fields:
  "day_number (year_of_day n) (month_of_day n) (int (mday_of_day n) + j) = n + j"
  using day_of_month [of n] by (simp add: month_start_def day_number_def)

lemmas month_units = time_unit.start_start [OF month_unit] time_unit.end_start [OF month_unit]
  time_unit.start_end [OF month_unit] time_unit.end_gt [OF month_unit]

lemma resetMonth_mid: "resetMonth tz (at x) False loc = (at (mid (month_start (day_no x))), True)"
  by (simp only: resetMonth_def date_reading go_Date_mid month_of_fields month_start_def if_False add_0_right)

lemma resetDay_mid: "resetDay tz (at x) False loc = (at (mid (day_no x)), True)"
  using date_of_fields [of "day_no x" 0]
  by (simp only: resetDay_def date_reading go_Date_mid month_of_fields if_False add_0_right)

lemma resetHour_at:
  obtains z where "resetHour tz (at x) False loc = (at z, True)" "z mod 3600 = 0" "hour_no z = hour_no x"
proof -
  let ?z = "date_second tz loc (hour_no x * 3600) + off"
  have "fixed_start 3600 x div 3600 = x div 3600" by (simp add: fixed_start_def)
  then have "shown (fixed_start 3600 x) div 3600 = hour_no x"
    using hour_no_block [of x "fixed_start 3600 x"] by (simp add: hour_no_def)
  moreover have aligned: "fixed_start 3600 x mod 3600 = 0" by (simp add: fixed_start_def)
  ultimately have "shown (fixed_start 3600 x) = hour_no x * 3600"
    using shown_mod [of "fixed_start 3600 x"] div_mult_mod_eq [of "shown (fixed_start 3600 x)" 3600] by simp
  then have z: "shown ?z = hour_no x * 3600" using shown_date [OF aligned] by simp
  have "int (t_Hour tz (at x)) = hour_no x mod 24" by (simp add: hour_reading)
  moreover have "hour_no x div 24 * 86400 + hour_no x mod 24 * 3600 = hour_no x * 3600" by presburger
  ultimately have d: "day_no x * 86400 + int (t_Hour tz (at x)) * 3600 = hour_no x * 3600"
    by (simp only: day_of_hour)
  have r: "t_Year tz (at x) = year_of_day (day_no x)" "t_Month tz (at x) = month_of_day (day_no x)"
    "t_Day tz (at x) = mday_of_day (day_no x)" by (simp_all only: date_reading)
  have "day_number (year_of_day (day_no x)) (month_of_day (day_no x)) (int (mday_of_day (day_no x))) = day_no x"
    using date_of_fields [of "day_no x" 0] by simp
  then have "go_Date tz (t_Year tz (at x)) (int (t_Month tz (at x))) (int (t_Day tz (at x)))
      (int (t_Hour tz (at x))) 0 0 0 loc = at ?z"
    unfolding go_Date_at r month_of_fields add_0_right by (simp only: d)
  then have "resetHour tz (at x) False loc = (at ?z, True)" unfolding resetHour_def by simp
  moreover have "?z mod 3600 = 0" using z shown_mod [of ?z] by simp
  moreover have "hour_no ?z = hour_no x" using z by (simp add: hour_no_def)
  ultimately show ?thesis by (rule that)
qed

end

sublocale regular_clock \<subseteq> clock: minute_clock tz loc off
proof
  show "off mod 60 = 0" by (rule hour_alignedD(1) [OF aligned])
  fix x
  have m: "local_sec tz (at_sec off loc x) mod 3600 = x mod 3600" using shown_mod [of x] by (simp add: shown_def)
  show "t_Minute tz (at_sec off loc x) = nat (x mod 3600 div 60)" by (simp add: t_Minute_def m)
  have "z mod 3600 mod 60 = z mod 60" for z :: int by (simp add: mod_mod_cancel)
  then have "local_sec tz (at_sec off loc x) mod 60 = x mod 60" by (metis m)
  then show "t_Second tz (at_sec off loc x) = nat (x mod 60)" by (simp add: t_Second_def)
qed

end
