(* ===== verification/Zone_Loops.thy ===== *)
theory Zone_Loops
  imports Zone_Regular
begin

text \<open>
  The loops of the month, the day and the hour in a regular zone: each ends, and either stays where it is,
  or moves on and wraps or comes to a match.
\<close>

subsection \<open>The loops of the month, the day and the hour\<close>

locale regular_schedule = regular_clock tz loc off
  for tz :: tzdata and loc :: location and off :: int +
  fixes s :: SpecSchedule

sublocale regular_schedule \<subseteq> fine: minute_schedule tz loc off s
  by unfold_locales

context regular_schedule begin

text \<open>The midnight a month starts with.\<close>

definition first_midnight :: "int \<Rightarrow> bool" where
  "first_midnight x \<longleftrightarrow> midnight x \<and> month_start (day_no x) = day_no x"

lemma midnight_mid: "midnight (mid d)"
  by (simp add: midnight_def shown_mid)

lemma midnight_clock:
  assumes "midnight x"
  shows "x mod 3600 = 0" "x mod 60 = 0" "t_Hour tz (at x) = 0" "t_Minute tz (at x) = 0" "t_Second tz (at x) = 0"
proof -
  have "shown x mod 86400 mod 3600 = shown x mod 3600" by (simp add: mod_mod_cancel)
  then show h: "x mod 3600 = 0" using assms shown_mod [of x] by (simp add: midnight_def)
  have "x mod 3600 mod 60 = x mod 60" by (simp add: mod_mod_cancel)
  then show m: "x mod 60 = 0" using h by simp
  show "t_Hour tz (at x) = 0" using assms by (simp add: t_Hour_def midnight_def flip: shown_def)
  show "t_Minute tz (at x) = 0" using clock.minute_reading [of x] h by simp
  show "t_Second tz (at x) = 0" using clock.second_reading [of x] m by simp
qed

lemma addDate_mid:
  assumes "midnight x"
  shows "go_AddDate tz (at x) 0 j i =
    at (mid (day_number (year_of_day (day_no x) + (int (month_of_day (day_no x)) + j - 1) div 12)
      (nat ((int (month_of_day (day_no x)) + j - 1) mod 12) + 1) (int (mday_of_day (day_no x)) + i)))"
proof -
  have "tnsec (at x) = 0" "tloc (at x) = loc" by (simp_all add: at_sec_def)
  then show ?thesis
    using midnight_clock(3-5) [OF assms]
    by (simp add: go_AddDate_def go_Date_mid date_reading)
qed

lemma addMonth_mid:
  assumes "first_midnight x"
  shows "go_AddDate tz (at x) 0 1 0 = at (mid (month_end (day_no x)))"
proof -
  have "midnight x" "mday_of_day (day_no x) = 1"
    using assms mday_eq_1_iff [of "day_no x"] by (simp_all add: first_midnight_def)
  then show ?thesis using addDate_mid [of x 1 0] next_month_number [of "day_no x"] by simp
qed

lemma addDay_mid:
  assumes "midnight x"
  shows "normalizeMidnight tz (go_AddDate tz (at x) 0 0 1) = at (mid (day_no x + 1))"
proof -
  have "go_AddDate tz (at x) 0 0 1 = at (mid (day_no x + 1))"
    using addDate_mid [OF assms, of 0 1] by (simp only: month_of_fields date_of_fields add_0_right)
  then show ?thesis using midnight_clock(3) [OF midnight_mid] by (simp add: normalizeMidnight_def)
qed

text \<open>
  \<open>later x y\<close>: \<open>y\<close> is not before \<open>x\<close>, unless the clocks show at \<open>y\<close> an hour that does not match. A move
  to an earlier second with the same hour on the clocks is what the reset of the hour does in the
  hour that the clocks show twice.
\<close>

definition later :: "int \<Rightarrow> int \<Rightarrow> bool" where
  "later x y \<longleftrightarrow> hour_no x \<le> hour_no y \<and> (hourMatches tz s (at y) \<longrightarrow> x \<le> y)"

lemma later_le: "x \<le> y \<Longrightarrow> later x y"
  by (simp add: later_def hour_no_le)

lemma hourMatches_no: "hour_no x = hour_no y \<Longrightarrow> hourMatches tz s (at x) = hourMatches tz s (at y)"
  by (simp add: hourMatches_def hour_reading)

lemma later_trans:
  assumes "later x y" "later y z"
  shows "later x z"
proof -
  have "x \<le> z" if "hourMatches tz s (at z)"
  proof (cases "hour_no y = hour_no z")
    case True
    then show ?thesis using assms that hourMatches_no [OF True] by (simp add: later_def)
  next
    case False
    then have "hour_no x < hour_no z" using assms by (simp add: later_def)
    from hour_no_less [OF this] show ?thesis by simp
  qed
  then show ?thesis using assms by (simp add: later_def)
qed

text \<open>Each loop stays where it is, if its field matches, or moves on and wraps or comes to a match.\<close>

lemma month_loop:
  assumes "a \<longrightarrow> monthMatches tz s (at x) \<or> first_midnight x"
  shows "\<exists>y a' w. advanceMonth tz s loc (at x) a = Some (at y, a', w) \<and>
    (monthMatches tz s (at x) \<and> y = x \<and> a' = a \<and> \<not> w \<or>
     a' \<and> x < y \<and> first_midnight y \<and> skips (\<lambda>z. monthMatches tz s (at z)) x y \<and>
     (\<not> w \<longrightarrow> monthMatches tz s (at y) \<and> year_of_day (day_no y) = year_of_day (day_no x)))"
  using assms
proof (induction "12 - month_of_day (day_no x)" arbitrary: x a rule: less_induct)
  case less
  show ?case
  proof (cases "monthMatches tz s (at x)")
    case True
    then show ?thesis by (subst advanceMonth.simps) auto
  next
    case False
    let ?e = "month_end (day_no x)"
    have "first_midnight (mid (month_start (day_no x)))"
      using midnight_mid by (simp add: first_midnight_def day_no_mid month_units)
    from addMonth_mid [OF this]
    have "go_AddDate tz (fst (resetMonth tz (at x) a loc)) 0 1 0 = at (mid ?e)"
      using less.prems False addMonth_mid [of x]
      by (cases a) (simp_all add: resetMonth_mid day_no_mid month_units resetMonth_def [of tz _ True])
    moreover have "snd (resetMonth tz (at x) a loc)" by (simp add: resetMonth_def)
    moreover have "t_Month tz (at (mid ?e)) = month_of_day ?e" by (simp add: date_reading day_no_mid)
    ultimately have step: "advanceMonth tz s loc (at x) a =
        (if month_of_day ?e = 1 then Some (at (mid ?e), True, True) else advanceMonth tz s loc (at (mid ?e)) True)"
      using False by (subst advanceMonth.simps) (auto simp: Let_def split: prod.splits)
    have e: "first_midnight (mid ?e)" "x < mid ?e" "day_no (mid ?e) = ?e"
      using midnight_mid less_mid
      by (simp_all add: first_midnight_def day_no_mid month_units)
    have skip: "skips (\<lambda>z. monthMatches tz s (at z)) x (mid ?e)"
    proof (rule skips_days)
      fix z
      assume "day_no x \<le> day_no z" "day_no z < ?e"
      then have "month_of_day (day_no z) = month_of_day (day_no x)"
        using same_month(2) [of "day_no x" "day_no z"] time_unit.start_le [OF month_unit, of "day_no x"] by simp
      then show "\<not> monthMatches tz s (at z)" using False by (simp add: monthMatches_def date_reading)
    qed
    show ?thesis
    proof (cases "month_of_day ?e = 1")
      case True
      then show ?thesis using step e skip by auto
    next
      case no_wrap: False
      then have m: "month_of_day ?e = month_of_day (day_no x) + 1" "year_of_day ?e = year_of_day (day_no x)"
        using month_end_date [of "day_no x"] by (simp_all split: if_splits)
      then have "12 - month_of_day (day_no (mid ?e)) < 12 - month_of_day (day_no x)"
        using month_of_day_bounds(2) [of ?e] unfolding e(3) by linarith
      from less.hyps [OF this, of True] e(1)
      obtain y a' w where y: "advanceMonth tz s loc (at (mid ?e)) True = Some (at y, a', w)"
        "y = mid ?e \<and> a' \<and> \<not> w \<and> monthMatches tz s (at y) \<or> a' \<and> mid ?e < y \<and> first_midnight y \<and>
          skips (\<lambda>z. monthMatches tz s (at z)) (mid ?e) y \<and> (\<not> w \<longrightarrow> monthMatches tz s (at y) \<and> year_of_day (day_no y) = year_of_day ?e)"
        unfolding e(3) by blast
      then have "skips (\<lambda>z. monthMatches tz s (at z)) x y" using skips_trans [OF skip] skip by auto
      then show ?thesis using y step no_wrap e m(2) by auto
    qed
  qed
qed

lemma day_loop:
  assumes "a \<longrightarrow> dayMatches tz s (at x) \<or> midnight x"
  shows "\<exists>y a' w. advanceDay tz s loc (at x) a = Some (at y, a', w) \<and>
    (dayMatches tz s (at x) \<and> y = x \<and> a' = a \<and> \<not> w \<or>
     a' \<and> x < y \<and> midnight y \<and> skips (\<lambda>z. dayMatches tz s (at z)) x y \<and>
     (if w then first_midnight y
      else dayMatches tz s (at y) \<and> month_start (day_no y) = month_start (day_no x)))"
  using assms
proof (induction "nat (month_end (day_no x) - day_no x)" arbitrary: x a rule: less_induct)
  case less
  show ?case
  proof (cases "dayMatches tz s (at x)")
    case True
    then show ?thesis by (subst advanceDay.simps) auto
  next
    case False
    let ?y = "mid (day_no x + 1)"
    have y: "midnight ?y" "x < ?y" "day_no ?y = day_no x + 1"
      using midnight_mid less_mid by (simp_all add: day_no_mid)
    have "normalizeMidnight tz (go_AddDate tz (fst (resetDay tz (at x) a loc)) 0 0 1) = at ?y"
      using less.prems False addDay_mid [of x] addDay_mid [OF midnight_mid, of "day_no x"]
      by (cases a) (simp_all add: resetDay_mid day_no_mid resetDay_def [of tz _ True])
    moreover have "snd (resetDay tz (at x) a loc)" by (simp add: resetDay_def)
    moreover have "t_Day tz (at ?y) = mday_of_day (day_no x + 1)" by (simp add: date_reading day_no_mid)
    ultimately have step: "advanceDay tz s loc (at x) a =
        (if mday_of_day (day_no x + 1) = 1 then Some (at ?y, True, True) else advanceDay tz s loc (at ?y) True)"
      using False by (subst advanceDay.simps) (auto simp: Let_def split: prod.splits)
    have skip: "skips (\<lambda>z. dayMatches tz s (at z)) x ?y"
    proof (rule skips_days)
      fix z
      assume "day_no x \<le> day_no z" "day_no z < day_no x + 1"
      then have "day_no z = day_no x" by simp
      then show "\<not> dayMatches tz s (at z)" using False by (simp add: dayMatches_def date_reading)
    qed
    show ?thesis
    proof (cases "mday_of_day (day_no x + 1) = 1")
      case True
      then have "first_midnight ?y" using y mday_eq_1_iff [of "day_no x + 1"] by (simp add: first_midnight_def)
      then show ?thesis using step True y skip by auto
    next
      case no_wrap: False
      have "month_start (day_no x + 1) \<noteq> day_no x + 1" using no_wrap by (simp only: mday_eq_1_iff not_False_eq_True)
      then have "day_no x + 1 \<noteq> month_end (day_no x)" using month_units(3) by metis
      then have lt: "day_no x + 1 < month_end (day_no x)" using month_units(4) [of "day_no x"] by simp
      have m: "month_start (day_no ?y) = month_start (day_no x)" "month_end (day_no ?y) = month_end (day_no x)"
        using time_unit.same_start [OF month_unit _ lt] time_unit.same_end [OF month_unit _ lt]
          time_unit.start_le [OF month_unit, of "day_no x"] unfolding y(3) by simp_all
      have "nat (month_end (day_no ?y) - day_no ?y) < nat (month_end (day_no x) - day_no x)"
        using month_units(4) [of "day_no x"] lt by (simp only: m(2)) (simp add: y(3))
      from less.hyps [OF this, of True] y(1)
      obtain z a' w where z: "advanceDay tz s loc (at ?y) True = Some (at z, a', w)"
        "z = ?y \<and> a' \<and> \<not> w \<and> dayMatches tz s (at z) \<or> a' \<and> ?y < z \<and> midnight z \<and>
          skips (\<lambda>z. dayMatches tz s (at z)) ?y z \<and> (if w then first_midnight z
           else dayMatches tz s (at z) \<and> month_start (day_no z) = month_start (day_no x))"
        unfolding m(1) by blast
      then have "skips (\<lambda>z. dayMatches tz s (at z)) x z" using skips_trans [OF skip] skip by auto
      then show ?thesis using z step no_wrap y m(1) by auto
    qed
  qed
qed

text \<open>The hour loop, from the start of an hour and from anywhere.\<close>

definition hour_outcome :: "int \<Rightarrow> int \<Rightarrow> bool \<Rightarrow> bool \<Rightarrow> bool" where
  "hour_outcome x y a' w \<longleftrightarrow> a' \<and> later x y \<and> y mod 3600 = 0 \<and> skips (\<lambda>z. hourMatches tz s (at z)) x y \<and>
     (if w then day_no y = day_no x \<or> midnight y \<and> day_no y = day_no x + 1
      else hourMatches tz s (at y) \<and> day_no y = day_no x)"

lemma hour_outcome_trans:
  assumes "hour_outcome y z a' w" "later x y" "day_no y = day_no x" "skips (\<lambda>z. hourMatches tz s (at z)) x y"
  shows "hour_outcome x z a' w"
  using assms later_trans [of x y z] skips_trans [of _ x y z] by (auto simp: hour_outcome_def)

lemma hour_steps:
  assumes "x mod 3600 = 0" "\<not> hourMatches tz s (at x)"
  shows "\<exists>y a' w. advanceHour tz s loc (at x) True = Some (at y, a', w) \<and> x < y \<and> hour_outcome x y a' w"
  using assms
proof (induction "nat (mid (day_no x + 1) - x)" arbitrary: x rule: less_induct)
  case less
  let ?y = "fixed_end 3600 x"
  have aligned: "fixed_start 3600 x = x" using less.prems(1) by (simp add: fixed_aligned_iff)
  have y: "x < ?y" "?y mod 3600 = 0"
    using minutes.outer.end_gt [of x] minutes.outer.start_end [of x] by (simp_all add: fixed_aligned_iff)
  have step: "advanceHour tz s loc (at x) True =
      (if t_Hour tz (at ?y) = 0 then Some (at ?y, True, True) else advanceHour tz s loc (at ?y) True)"
    using less.prems(2) addHour_at [OF aligned, of off loc] by (subst advanceHour.simps) (simp add: resetHour_def)
  have l: "later x ?y" using y(1) by (intro later_le) simp
  have skip: "skips (\<lambda>z. hourMatches tz s (at z)) x ?y"
    unfolding skips_def
  proof (intro impI allI)
    fix z
    assume "x \<le> z \<and> z < ?y"
    then have "fixed_start 3600 z = fixed_start 3600 x" using aligned minutes.outer.same_start [of x z] by simp
    then have "x div 3600 = z div 3600" by (simp add: fixed_start_def)
    then show "\<not> hourMatches tz s (at z)" using less.prems(2) hourMatches_no [OF hour_no_block] by blast
  qed
  show ?case
  proof (cases "t_Hour tz (at ?y) = 0")
    case True
    have "hour_outcome x ?y True True" using y(2) l skip next_hour [of x] by (simp add: hour_outcome_def)
    moreover have "advanceHour tz s loc (at x) True = Some (at ?y, True, True)" using step True by simp
    ultimately show ?thesis using y(1) by blast
  next
    case hour: False
    have same: "day_no ?y = day_no x"
    proof (rule ccontr)
      assume "day_no ?y \<noteq> day_no x"
      then have "midnight ?y" using next_hour [of x] by blast
      then show False using midnight_clock(3) [of ?y] hour by simp
    qed
    show ?thesis
    proof (cases "hourMatches tz s (at ?y)")
      case True
      then have "advanceHour tz s loc (at ?y) True = Some (at ?y, True, False)" by (subst advanceHour.simps) simp
      with step hour have "advanceHour tz s loc (at x) True = Some (at ?y, True, False)" by simp
      moreover have "hour_outcome x ?y True False" using y(2) l skip same True by (simp add: hour_outcome_def)
      ultimately show ?thesis using y(1) by blast
    next
      case False
      have "x < mid (day_no x + 1)" by (rule less_mid) simp
      then have "nat (mid (day_no ?y + 1) - ?y) < nat (mid (day_no x + 1) - x)" using y(1) same by simp
      from less.hyps [OF this y(2) False]
      obtain z a' w where z: "advanceHour tz s loc (at ?y) True = Some (at z, a', w)" "?y < z" "hour_outcome ?y z a' w"
        by blast
      then have "hour_outcome x z a' w" using hour_outcome_trans [OF _ l same skip] by blast
      moreover have "advanceHour tz s loc (at x) True = Some (at z, a', w)" using step hour z(1) by simp
      moreover have "x < z" using y(1) z(2) by simp
      ultimately show ?thesis by blast
    qed
  qed
qed

lemma hour_loop:
  assumes "a \<longrightarrow> hourMatches tz s (at x) \<or> x mod 3600 = 0"
  shows "\<exists>y a' w. advanceHour tz s loc (at x) a = Some (at y, a', w) \<and>
    (hourMatches tz s (at x) \<and> y = x \<and> a' = a \<and> \<not> w \<or> (a \<longrightarrow> x < y) \<and> hour_outcome x y a' w)"
proof (cases "hourMatches tz s (at x)")
  case True
  then show ?thesis by (subst advanceHour.simps) auto
next
  case no: False
  show ?thesis
  proof (cases a)
    case True
    then show ?thesis using hour_steps [of x] assms no by auto
  next
    case False
    obtain z where z: "resetHour tz (at x) False loc = (at z, True)" "z mod 3600 = 0" "hour_no z = hour_no x"
      by (rule resetHour_at)
    have no_z: "\<not> hourMatches tz s (at z)" using no hourMatches_no [OF z(3)] by simp
    have "advanceHour tz s loc (at x) False = advanceHour tz s loc (at z) True"
      using no no_z z(1)
      by (simp add: advanceHour.simps [of tz s loc "at x" False] advanceHour.simps [of tz s loc "at z" True]
          resetHour_def [of tz "at z" True])
    moreover obtain y a' w where y: "advanceHour tz s loc (at z) True = Some (at y, a', w)" "hour_outcome z y a' w"
      using hour_steps [OF z(2) no_z] by blast
    moreover have "later x z" using z(3) no_z by (simp add: later_def)
    moreover have "day_no z = day_no x" using z(3) by (simp add: day_of_hour)
    moreover have "skips (\<lambda>z. hourMatches tz s (at z)) x z" using no hourMatches_no by (intro skips_hour [OF z(3)]) blast
    ultimately show ?thesis using False hour_outcome_trans [of z y a' w x] by auto
  qed
qed

end

end
