(* ===== verification/Zone_Search.thy ===== *)
theory Zone_Search
  imports Zone_Loops
begin

text \<open>
  \<open>Next\<close> in regular zones (Zone_Regular): the search always ends, and what it finds matches every field
  and is later than the time asked for, whenever and however often the clocks change. A zone of constant
  offset is regular.
\<close>

context regular_schedule begin

subsection \<open>The sequence of the loops\<close>

abbreviation date_matches :: "int \<Rightarrow> bool" where
  "date_matches x \<equiv> monthMatches tz s (at x) \<and> dayMatches tz s (at x)"

abbreviation year_no :: "int \<Rightarrow> int" where
  "year_no x \<equiv> year_of_day (day_no x)"

lemma date_same:
  assumes "day_no y = day_no x"
  shows "monthMatches tz s (at y) = monthMatches tz s (at x)" "dayMatches tz s (at y) = dayMatches tz s (at x)"
  by (simp_all add: monthMatches_def dayMatches_def date_reading assms)

lemma month_same:
  assumes "month_start (day_no y) = month_start (day_no x)"
  shows "monthMatches tz s (at y) = monthMatches tz s (at x)" "year_no y = year_no x"
proof -
  have m: "year_of_day n = year_of_day (month_start n)" "month_of_day n = month_of_day (month_start n)" for n
    using same_month [of n "month_start n"] time_unit.start_le [OF month_unit, of n] month_units(4) [of n] by auto
  show "year_no y = year_no x" using m(1) [of "day_no y"] m(1) [of "day_no x"] assms by simp
  show "monthMatches tz s (at y) = monthMatches tz s (at x)"
    using m(2) [of "day_no y"] m(2) [of "day_no x"] assms by (simp add: monthMatches_def date_reading)
qed

lemma block_same:
  assumes "fixed_start 3600 y = fixed_start 3600 x"
  shows "hour_no y = hour_no x" "day_no y = day_no x" "hourMatches tz s (at y) = hourMatches tz s (at x)"
proof -
  have "y div 3600 = x div 3600" using assms by (simp add: fixed_start_def)
  then show h: "hour_no y = hour_no x" using hour_no_block [of x y] by simp
  then show "day_no y = day_no x" by (simp add: day_of_hour)
  show "hourMatches tz s (at y) = hourMatches tz s (at x)" using hourMatches_no [OF h] .
qed

lemma minute_same:
  assumes "fixed_start 60 y = fixed_start 60 x"
  shows "minuteMatches tz s (at y) = minuteMatches tz s (at x)"
proof -
  have "y div 60 = x div 60" using assms by (simp add: fixed_start_def)
  then show ?thesis by (simp add: minuteMatches_def clock.minute_reading minute_of_second)
qed

text \<open>
  What holds at the top of the sequence once \<open>added\<close> is set: each field matches already or the clocks
  stand at the start of its unit.
\<close>

definition ready :: "int \<Rightarrow> bool" where
  "ready x \<longleftrightarrow> (monthMatches tz s (at x) \<or> first_midnight x) \<and> (dayMatches tz s (at x) \<or> midnight x) \<and>
     (hourMatches tz s (at x) \<or> x mod 3600 = 0) \<and> (minuteMatches tz s (at x) \<or> x mod 60 = 0)"

lemma whole_hour: "(x :: int) mod 3600 = 0 \<Longrightarrow> x mod 60 = 0"
  using mod_mod_cancel [of 60 3600 x] by simp

lemma ready_first: "first_midnight x \<Longrightarrow> ready x"
  by (simp add: ready_def first_midnight_def midnight_clock)

lemma ready_hour:
  assumes "date_matches x" "y mod 3600 = 0" "day_no y = day_no x \<or> midnight y \<and> day_no y = day_no x + 1"
  shows "ready y"
proof (cases "day_no y = day_no x")
  case True
  then show ?thesis using assms(1,2) date_same [OF True] whole_hour by (simp add: ready_def)
next
  case False
  then have y: "midnight y" "day_no y = day_no x + 1" using assms(3) by simp_all
  have "monthMatches tz s (at y) \<or> first_midnight y"
  proof (cases "day_no x + 1 < month_end (day_no x)")
    case True
    then have "month_start (day_no y) = month_start (day_no x)"
      using time_unit.same_start [OF month_unit _ True] time_unit.start_le [OF month_unit, of "day_no x"] y(2) by simp
    then show ?thesis using month_same(1) assms(1) by blast
  next
    case False
    then have "day_no y = month_end (day_no x)" using month_units(4) [of "day_no x"] y(2) by simp
    then show ?thesis using y(1) month_units(3) by (simp add: first_midnight_def)
  qed
  then show ?thesis using y(1) assms(2) whole_hour by (simp add: ready_def)
qed

text \<open>A second that one field rules out is no match.\<close>

abbreviation all_match :: "int \<Rightarrow> bool" where
  "all_match x \<equiv> matches tz s (at x)"

lemma skips_field:
  "skips (\<lambda>z. monthMatches tz s (at z)) x y \<Longrightarrow> skips all_match x y"
  "skips (\<lambda>z. dayMatches tz s (at z)) x y \<Longrightarrow> skips all_match x y"
  "skips (\<lambda>z. hourMatches tz s (at z)) x y \<Longrightarrow> skips all_match x y"
  "skips (\<lambda>z. minuteMatches tz s (at z)) x y \<Longrightarrow> skips all_match x y"
  "skips (\<lambda>z. secondMatches tz s (at z)) x y \<Longrightarrow> skips all_match x y"
  by (erule skips_weaken, simp add: matches_def)+

text \<open>What the loops from some field on lead to.\<close>

definition leads :: "(gotime \<Rightarrow> bool \<Rightarrow> (gotime \<times> bool \<times> bool) option) list \<Rightarrow> int \<Rightarrow> bool \<Rightarrow> bool" where
  "leads fs x a \<longleftrightarrow> (\<exists>y a' w. run_steps fs (at x) a = Some (at y, a', w) \<and> later x y \<and>
     skips all_match x y \<and> (if w then a' \<and> (a \<longrightarrow> x < y) \<and> ready y else matches tz s (at y) \<and> year_no y = year_no x))"

lemma leads_wrap:
  assumes "f (at x) a = Some (at y, True, True)" "later x y" "a \<longrightarrow> x < y" "ready y"
    and "skips all_match x y"
  shows "leads (f # fs) x a"
  using assms by (auto simp: leads_def)

lemma leads_on:
  assumes "f (at x) a = Some (at y, a1, False)" "later x y" "year_no y = year_no x"
    and "a \<longrightarrow> a1 \<and> x \<le> y" "leads fs y a1" "skips all_match x y"
  shows "leads (f # fs) x a"
proof -
  obtain z a' w where z: "run_steps fs (at y) a1 = Some (at z, a', w)" "later y z"
    "skips all_match y z" "if w then a' \<and> (a1 \<longrightarrow> y < z) \<and> ready z else matches tz s (at z) \<and> year_no z = year_no y"
    using assms(5) unfolding leads_def by blast
  have "run_steps (f # fs) (at x) a = Some (at z, a', w)" using assms(1) z(1) by simp
  moreover have "later x z" by (rule later_trans [OF assms(2) z(2)])
  moreover have "if w then a' \<and> (a \<longrightarrow> x < z) \<and> ready z else matches tz s (at z) \<and> year_no z = year_no x"
    using z(4) assms(3,4) by (auto split: if_splits)
  moreover have "skips all_match x z" by (rule skips_trans [OF assms(6) z(3)])
  ultimately show ?thesis unfolding leads_def by blast
qed

lemma leads_second:
  assumes "date_matches x" "hourMatches tz s (at x)" "minuteMatches tz s (at x)"
  shows "leads [advanceSecond tz s] x a"
proof -
  have "a \<longrightarrow> secondMatches tz s (at x) \<or> fixed_start 1 x = x" by (simp add: fixed_one)
  from unit_search.adv_spec [OF fine.second_search this]
  obtain y a' w where y: "advanceSecond tz s (at x) a = Some (at y, a', w)" "x \<le> y"
    "\<forall>z. x \<le> z \<and> z < y \<longrightarrow> \<not> secondMatches tz s (at z)"
    "if w then a' \<and> y = fixed_end 60 x
     else secondMatches tz s (at y) \<and> fixed_start 60 y = fixed_start 60 x \<and>
       (y = x \<and> a' = a \<or> fixed_start 1 y = y \<and> a')"
    unfolding step_sec_iff by blast
  have skip: "skips all_match x y" using y(3) by (intro skips_field(5)) (simp add: skips_def)
  show ?thesis
  proof (cases w)
    case True
    then have w: "a'" "y = fixed_end 60 x" using y(4) by simp_all
    have "ready y"
      using minutes.end_cases [of x]
    proof
      assume "fixed_end 60 x < fixed_end 3600 x \<and> fixed_start 3600 (fixed_end 60 x) = fixed_start 3600 x"
      then have b: "fixed_start 3600 y = fixed_start 3600 x" using w(2) by simp
      have "y mod 60 = 0" unfolding w(2) by (simp add: fixed_end_def)
      then show ?thesis using assms(1,2) date_same [OF block_same(2) [OF b]] block_same(3) [OF b] by (simp add: ready_def)
    next
      assume "fixed_end 60 x = fixed_end 3600 x \<and> fixed_start 3600 (fixed_end 60 x) = fixed_end 60 x"
      then have e: "y = fixed_end 3600 x" using w(2) by simp
      show ?thesis using ready_hour [OF assms(1), of y] next_hour [of x] unfolding e by (simp add: fixed_end_def)
    qed
    moreover have "x < y" using w(2) seconds.outer.end_gt by simp
    ultimately show ?thesis using y(1) True w(1) later_le [OF y(2)] skip by (intro leads_wrap) simp_all
  next
    case False
    then have r: "secondMatches tz s (at y)" "fixed_start 60 y = fixed_start 60 x" using y(4) by simp_all
    have b: "fixed_start 3600 y = fixed_start 3600 x" by (rule minutes.outer_same [OF r(2)])
    have "matches tz s (at y)"
      using assms r(1) date_same [OF block_same(2) [OF b]] block_same(3) [OF b] minute_same [OF r(2)]
      by (simp add: matches_def)
    then have "leads [] y a'" unfolding leads_def by (intro exI [of _ y] exI [of _ a'] exI [of _ False]) (simp add: later_le skips_refl)
    then show ?thesis
      using y False skip block_same(2) [OF b] by (intro leads_on [of _ x a y a']) (auto simp: later_le)
  qed
qed

lemma leads_minute:
  assumes "date_matches x" "hourMatches tz s (at x)" "a \<longrightarrow> minuteMatches tz s (at x) \<or> x mod 60 = 0"
  shows "leads [advanceMinute tz s, advanceSecond tz s] x a"
proof -
  have "a \<longrightarrow> minuteMatches tz s (at x) \<or> fixed_start 60 x = x" using assms(3) by (simp add: fixed_aligned_iff)
  from unit_search.adv_spec [OF fine.minute_search this]
  obtain y a' w where y: "advanceMinute tz s (at x) a = Some (at y, a', w)" "x \<le> y"
    "\<forall>z. x \<le> z \<and> z < y \<longrightarrow> \<not> minuteMatches tz s (at z)"
    "if w then a' \<and> y = fixed_end 3600 x
     else minuteMatches tz s (at y) \<and> fixed_start 3600 y = fixed_start 3600 x \<and>
       (y = x \<and> a' = a \<or> fixed_start 60 y = y \<and> a')"
    unfolding step_sec_iff by blast
  have skip: "skips all_match x y" using y(3) by (intro skips_field(4)) (simp add: skips_def)
  show ?thesis
  proof (cases w)
    case True
    then have w: "a'" "y = fixed_end 3600 x" using y(4) by simp_all
    have "ready y" using ready_hour [OF assms(1), of y] next_hour [of x] unfolding w(2) by (simp add: fixed_end_def)
    moreover have "x < y" using w(2) minutes.outer.end_gt by simp
    ultimately show ?thesis using y(1) True w(1) later_le [OF y(2)] skip by (intro leads_wrap) simp_all
  next
    case False
    then have r: "minuteMatches tz s (at y)" "fixed_start 3600 y = fixed_start 3600 x" using y(4) by simp_all
    have "leads [advanceSecond tz s] y a'"
      using assms(1,2) r(1) date_same [OF block_same(2) [OF r(2)]] block_same(3) [OF r(2)] by (intro leads_second) simp_all
    then show ?thesis
      using y False skip block_same(2) [OF r(2)] by (intro leads_on [of _ x a y a']) (auto simp: later_le)
  qed
qed

lemma leads_hour:
  assumes "date_matches x" "a \<longrightarrow> hourMatches tz s (at x) \<or> x mod 3600 = 0"
    and "a \<longrightarrow> minuteMatches tz s (at x) \<or> x mod 60 = 0"
  shows "leads [advanceHour tz s loc, advanceMinute tz s, advanceSecond tz s] x a"
proof -
  from hour_loop [OF assms(2)] obtain y a' w where run: "advanceHour tz s loc (at x) a = Some (at y, a', w)"
    and y: "hourMatches tz s (at x) \<and> y = x \<and> a' = a \<and> \<not> w \<or> (a \<longrightarrow> x < y) \<and> hour_outcome x y a' w"
    by blast
  from y show ?thesis
  proof
    assume stay: "hourMatches tz s (at x) \<and> y = x \<and> a' = a \<and> \<not> w"
    then have "leads [advanceMinute tz s, advanceSecond tz s] y a'"
      using assms(1,3) by (intro leads_minute) simp_all
    then show ?thesis using run stay by (intro leads_on [of _ x a y a']) (simp_all add: later_le skips_refl)
  next
    assume "(a \<longrightarrow> x < y) \<and> hour_outcome x y a' w"
    then have lt: "a \<longrightarrow> x < y" and o: "a'" "later x y" "y mod 3600 = 0" "skips all_match x y"
      "if w then day_no y = day_no x \<or> midnight y \<and> day_no y = day_no x + 1
       else hourMatches tz s (at y) \<and> day_no y = day_no x"
      using skips_field(3) [of x y] by (simp_all add: hour_outcome_def)
    show ?thesis
    proof (cases w)
      case True
      then have "ready y" using o(5) by (intro ready_hour [OF assms(1) o(3)]) simp
      then show ?thesis using run True o(1,2,4) lt by (intro leads_wrap) simp_all
    next
      case False
      then have d: "hourMatches tz s (at y)" "day_no y = day_no x" using o(5) by simp_all
      have "leads [advanceMinute tz s, advanceSecond tz s] y a'"
        using assms(1) d(1) date_same [OF d(2)] whole_hour [OF o(3)] by (intro leads_minute) simp_all
      then show ?thesis using run False o(1,2,4) lt d(2) by (intro leads_on [of _ x a y a']) auto
    qed
  qed
qed

lemma leads_day:
  assumes "monthMatches tz s (at x)" "a \<longrightarrow> ready x"
  shows "leads [advanceDay tz s loc, advanceHour tz s loc, advanceMinute tz s, advanceSecond tz s] x a"
proof -
  have "a \<longrightarrow> dayMatches tz s (at x) \<or> midnight x" using assms(2) by (simp add: ready_def)
  from day_loop [OF this] obtain y a' w where run: "advanceDay tz s loc (at x) a = Some (at y, a', w)"
    and y: "dayMatches tz s (at x) \<and> y = x \<and> a' = a \<and> \<not> w \<or> a' \<and> x < y \<and> midnight y \<and>
      skips (\<lambda>z. dayMatches tz s (at z)) x y \<and> (if w then first_midnight y
       else dayMatches tz s (at y) \<and> month_start (day_no y) = month_start (day_no x))"
    by blast
  from y show ?thesis
  proof
    assume stay: "dayMatches tz s (at x) \<and> y = x \<and> a' = a \<and> \<not> w"
    then have "leads [advanceHour tz s loc, advanceMinute tz s, advanceSecond tz s] y a'"
      using assms by (intro leads_hour) (simp_all add: ready_def)
    then show ?thesis using run stay by (intro leads_on [of _ x a y a']) (simp_all add: later_le skips_refl)
  next
    assume move: "a' \<and> x < y \<and> midnight y \<and> skips (\<lambda>z. dayMatches tz s (at z)) x y \<and> (if w then first_midnight y
      else dayMatches tz s (at y) \<and> month_start (day_no y) = month_start (day_no x))"
    then have l: "later x y" "skips all_match x y" using skips_field(2) [of x y] by (simp_all add: later_le)
    show ?thesis
    proof (cases w)
      case True
      then have "a'" "x < y" "ready y" using move ready_first by simp_all
      then show ?thesis using run True l by (intro leads_wrap) simp_all
    next
      case False
      then have d: "dayMatches tz s (at y)" "month_start (day_no y) = month_start (day_no x)"
        using move by simp_all
      have "leads [advanceHour tz s loc, advanceMinute tz s, advanceSecond tz s] y a'"
        using assms(1) d(1) month_same(1) [OF d(2)] midnight_clock(1,2) [of y] move by (intro leads_hour) simp_all
      then show ?thesis using run False move l month_same(2) [OF d(2)] by (intro leads_on [of _ x a y a']) auto
    qed
  qed
qed

lemma leads_month:
  assumes "a \<longrightarrow> ready x"
  shows "leads [advanceMonth tz s loc, advanceDay tz s loc, advanceHour tz s loc, advanceMinute tz s,
    advanceSecond tz s] x a"
proof -
  have "a \<longrightarrow> monthMatches tz s (at x) \<or> first_midnight x" using assms by (simp add: ready_def)
  from month_loop [OF this] obtain y a' w where run: "advanceMonth tz s loc (at x) a = Some (at y, a', w)"
    and y: "monthMatches tz s (at x) \<and> y = x \<and> a' = a \<and> \<not> w \<or> a' \<and> x < y \<and> first_midnight y \<and>
      skips (\<lambda>z. monthMatches tz s (at z)) x y \<and> (\<not> w \<longrightarrow> monthMatches tz s (at y) \<and> year_no y = year_no x)"
    by blast
  from y show ?thesis
  proof
    assume stay: "monthMatches tz s (at x) \<and> y = x \<and> a' = a \<and> \<not> w"
    then show ?thesis
      using run leads_day [of y a'] assms by (intro leads_on [of _ x a y a']) (simp_all add: later_le skips_refl)
  next
    assume move: "a' \<and> x < y \<and> first_midnight y \<and>
      skips (\<lambda>z. monthMatches tz s (at z)) x y \<and> (\<not> w \<longrightarrow> monthMatches tz s (at y) \<and> year_no y = year_no x)"
    then have l: "later x y" "ready y" "skips all_match x y"
      using skips_field(1) [of x y] by (simp_all add: later_le ready_first)
    show ?thesis
    proof (cases w)
      case True
      then show ?thesis using run move l by (intro leads_wrap) simp_all
    next
      case False
      then show ?thesis using run move l leads_day [of y a'] by (intro leads_on [of _ x a y a']) simp_all
    qed
  qed
qed

text \<open>\<open>advance\<close> returns; it either wrapped, having moved on, or matched every field within the year.\<close>

lemma advance_regular:
  assumes "a \<longrightarrow> ready x"
  obtains y a' w where "advance tz s loc (at x) a = Some (at y, a', w)" "later x y" "skips all_match x y"
    "if w then a' \<and> (a \<longrightarrow> x < y) \<and> ready y else matches tz s (at y) \<and> year_no y = year_no x"
  using leads_month [OF assms] unfolding leads_def advance_def by blast

subsection \<open>The outer loop\<close>

definition search_result :: "int \<Rightarrow> int \<Rightarrow> (gotime \<times> bool) option \<Rightarrow> bool" where
  "search_result limit x r \<longleftrightarrow>
     r = Some (zero_time, False) \<and>
       (single_midnights tz loc \<longrightarrow> (\<forall>z. x \<le> z \<and> t_Year tz (at z) \<le> limit \<longrightarrow> \<not> all_match z)) \<or>
     (\<exists>y. r = Some (at y, True) \<and> later x y \<and> all_match y \<and> t_Year tz (at y) \<le> limit \<and> skips all_match x y)"

lemma search_result_trans:
  assumes "later x y" "skips all_match x y" "search_result limit y r"
  shows "search_result limit x r"
proof (cases "r = Some (zero_time, False)")
  case True
  then have "single_midnights tz loc \<longrightarrow> (\<forall>z. y \<le> z \<and> t_Year tz (at z) \<le> limit \<longrightarrow> \<not> all_match z)"
    using assms(3) by (simp add: search_result_def)
  then have "single_midnights tz loc \<longrightarrow> (\<forall>z. x \<le> z \<and> t_Year tz (at z) \<le> limit \<longrightarrow> \<not> all_match z)"
    using assms(2) unfolding skips_def by (meson not_less)
  then show ?thesis using True by (simp add: search_result_def)
next
  case False
  then obtain z where "r = Some (at z, True)" "later y z" "all_match z" "t_Year tz (at z) \<le> limit" "skips all_match y z"
    using assms(3) unfolding search_result_def by blast
  then show ?thesis
    using later_trans [OF assms(1)] skips_trans [OF assms(2)] unfolding search_result_def by blast
qed

lemma year_reading: "t_Year tz (at x) = year_no x"
  by (simp add: date_reading)

lemma year_no_le:
  assumes "x \<le> y"
  shows "year_no x \<le> year_no y"
proof (rule ccontr)
  assume "\<not> year_no x \<le> year_no y"
  then have "days_before_year (year_no y + 1) \<le> days_before_year (year_no x)" by (intro days_before_year_mono) simp
  then show False
    using year_of_day_bounds(1) [of "day_no x"] year_of_day_bounds(2) [of "day_no y"] day_no_le [OF assms] by simp
qed

lemma year_less_mid:
  assumes "year_no x \<le> limit"
  shows "x < mid (days_before_year (limit + 1))"
proof (rule less_mid)
  have "days_before_year (year_no x + 1) \<le> days_before_year (limit + 1)"
    using assms by (intro days_before_year_mono) simp
  then show "day_no x < days_before_year (limit + 1)" using year_of_day_bounds(2) [of "day_no x"] by simp
qed

lemma search_result_step:
  assumes "a \<longrightarrow> ready x"
    and "\<And>y. ready y \<Longrightarrow> (a \<longrightarrow> x < y) \<Longrightarrow> year_no x \<le> limit \<Longrightarrow>
      search_result limit y (find_activation tz s loc limit (at y) True)"
  shows "search_result limit x (find_activation tz s loc limit (at x) a)"
proof (cases "year_no x \<le> limit")
  case False
  have "\<not> year_no z \<le> limit" if "x \<le> z" for z using year_no_le [OF that] False by simp
  then show ?thesis using False by (subst find_activation.simps) (auto simp: year_reading search_result_def)
next
  case True
  obtain y a' w where y: "advance tz s loc (at x) a = Some (at y, a', w)" "later x y" "skips all_match x y"
    "if w then a' \<and> (a \<longrightarrow> x < y) \<and> ready y else matches tz s (at y) \<and> year_no y = year_no x"
    using advance_regular [OF assms(1)] .
  have step: "find_activation tz s loc limit (at x) a =
      (if w then find_activation tz s loc limit (at y) a' else Some (at y, True))"
    using y(1) True by (subst find_activation.simps) (simp add: year_reading)
  show ?thesis
  proof (cases w)
    case w: True
    have "search_result limit y (find_activation tz s loc limit (at y) True)"
      using y(4) w True by (intro assms(2)) simp_all
    then show ?thesis using search_result_trans [OF y(2,3)] step y(4) w by simp
  next
    case False
    then show ?thesis
      using step y True unfolding search_result_def by (intro disjI2 exI [of _ y]) (simp add: year_reading)
  qed
qed

lemma search_result_ready:
  assumes "ready x"
  shows "search_result limit x (find_activation tz s loc limit (at x) True)"
  using assms
proof (induction "nat (mid (days_before_year (limit + 1)) - x)" arbitrary: x rule: less_induct)
  case less
  show ?case
  proof (rule search_result_step)
    fix y
    assume y: "ready y" "True \<longrightarrow> x < y" "year_no x \<le> limit"
    have "nat (mid (days_before_year (limit + 1)) - y) < nat (mid (days_before_year (limit + 1)) - x)"
      using year_less_mid [OF y(3)] y(2) by simp
    from less.hyps [OF this y(1)] show "search_result limit y (find_activation tz s loc limit (at y) True)" .
  qed (use less.prems in simp)
qed

lemma find_activation_regular: "search_result limit x (find_activation tz s loc limit (at x) False)"
  by (rule search_result_step) (simp_all add: search_result_ready)

end

subsection \<open>What Next promises in a regular zone\<close>

lemma fixed_offset_regular:
  assumes "fixed_offset tz l off"
  shows "regular_zone tz l off"
proof -
  have o: "zone_offset (lookup_zone tz l u) = off" for u using assms by (simp add: fixed_offset_def)
  have c: "clock_second tz l x = x + off" for x by (simp add: clock_second_def local_sec_def o)
  have d: "clock_second tz l (date_second tz l w) = w" for w
    by (simp add: c date_second_def go_Date_def Let_def o day_number_def days_before_year_def days_before_month_values)
  have "hour_aligned tz l off" using assms by (simp add: hour_aligned_def fixed_offset_def)
  moreover have "clock_second tz l x div 3600 \<le> clock_second tz l (x + 3600) div 3600" for x
    unfolding c by (rule zdiv_mono1) simp_all
  moreover have "\<exists>x. clock_second tz l x = w" for w
    unfolding c by (rule exI [of _ "w - off"]) simp
  ultimately show ?thesis by (simp add: regular_zone_def d)
qed

interpretation utc_regular: regular_clock tz UTC 0 for tz
  by unfold_locales (rule fixed_offset_regular [OF fixed_offset_UTC])

interpretation utc_regular_schedule: regular_schedule tz UTC 0 s for tz s
  by unfold_locales

lemma spec_Next_found:
  assumes loc: "sLocation s = Some l" "L = eval_location l t" and regular: "regular_zone tz L k"
  shows "(\<exists>r. spec_Next tz s t = Ret r \<and> tloc r = tloc t \<and> activation tz s L (go_In r L) \<and>
      After r t \<and> t_Year tz (go_In r L) \<le> horizon_year tz L t \<and>
      (single_midnights tz L \<longrightarrow> (\<forall>u. activation tz s L u \<and> After u t \<longrightarrow> \<not> Before u r)))
    \<or> (spec_Next tz s t = Ret zero_time \<and>
      (single_midnights tz L \<longrightarrow> (\<forall>u. activation tz s L u \<and> After u t \<longrightarrow> horizon_year tz L t < t_Year tz u)))"
proof -
  have zone: "regular_schedule tz L k" and clock: "regular_clock tz L k" by unfold_locales (rule regular)+
  let ?x = "tsec t + 1 + k" and ?at = "at_sec k L" and ?h = "horizon_year tz L t"
  let ?r = "find_activation tz s L ?h (?at ?x) False"
  have start: "?at ?x = \<lparr>tsec = tsec t + 1, tnsec = 0, tloc = L\<rparr>" by (simp add: at_sec_def)
  have act: "u = ?at (tsec u + k)" if "activation tz s L u" for u
    using that by (simp add: activation_def at_sec_def)
  have after: "?x \<le> tsec u + k" if "After u t" "activation tz s L u" for u
    using that by (auto simp: After_def activation_def)
  note next_eq = spec_Next_eq [OF loc, of tz, folded start]
  have "regular_schedule.search_result tz L k s ?h ?x ?r"
    by (rule regular_schedule.find_activation_regular [OF zone])
  then consider (none) "?r = Some (zero_time, False)"
      "single_midnights tz L \<longrightarrow> (\<forall>z. ?x \<le> z \<and> t_Year tz (?at z) \<le> ?h \<longrightarrow> \<not> matches tz s (?at z))"
    | (some) y where "?r = Some (?at y, True)" "regular_schedule.later tz L k s ?x y" "matches tz s (?at y)"
      "t_Year tz (?at y) \<le> ?h" "regular_clock.skips tz L (\<lambda>z. matches tz s (?at z)) ?x y"
    unfolding regular_schedule.search_result_def [OF zone] by blast
  then show ?thesis
  proof cases
    case none
    have "?h < t_Year tz u" if "single_midnights tz L" "activation tz s L u \<and> After u t" for u
      using none(2) that after [of u] act [of u] by (fastforce simp: activation_def not_le [symmetric])
    then show ?thesis using next_eq none(1) by (intro disjI2) simp
  next
    case (some y)
    let ?u = "go_In (?at y) (tloc t)"
    have r: "go_In ?u L = ?at y" "tsec ?u = y - k" "tnsec ?u = 0" "tloc ?u = tloc t" "tloc (?at y) = L"
      by (simp_all add: go_In_def at_sec_def)
    have "?x \<le> y" using some(2,3) by (simp add: regular_schedule.later_def [OF zone] matches_def)
    then have "After ?u t" using r by (simp add: After_def)
    moreover have "activation tz s L (go_In ?u L)" using some(3) r(1,5) by (simp add: activation_def) (simp add: at_sec_def)
    moreover have "spec_Next tz s t = Ret ?u" using next_eq some(1) by simp
    moreover have "\<not> Before v ?u" if "single_midnights tz L" "activation tz s L v \<and> After v t" for v
    proof
      assume "Before v ?u"
      then have "tsec v + k < y" using r by (auto simp: Before_def)
      then have "\<not> matches tz s (?at (tsec v + k))"
        using some(5) that(1) after [of v] that(2) unfolding regular_clock.skips_def [OF clock] by blast
      then show False using act [of v] that(2) by (simp add: activation_def)
    qed
    ultimately show ?thesis using some(4) r by (intro disjI1 exI [of _ ?u]) simp
  qed
qed

lemma spec_Next_regular:
  assumes "sLocation s = Some l" "L = eval_location l t" "regular_zone tz L k"
  shows "spec_Next tz s t = Ret zero_time \<or>
    (\<exists>r. spec_Next tz s t = Ret r \<and> tloc r = tloc t \<and> activation tz s L (go_In r L) \<and>
      After r t \<and> t_Year tz (go_In r L) \<le> horizon_year tz L t)"
  using spec_Next_found [OF assms] by blast

lemma fixed_offset_single:
  assumes "fixed_offset tz l off"
  shows "single_midnights tz l"
proof -
  have "clock_second tz l x = x + off" for x
    using assms by (simp add: clock_second_def local_sec_def fixed_offset_def)
  then show ?thesis by (simp add: single_midnights_def)
qed

end
