(* ===== verification/Schedules.thy ===== *)
theory Schedules
  imports Zone_Search
begin

text \<open>
  Schedules: the constant-delay schedule of constantdelay.go, the two kinds of schedule the parser
  builds, and \<open>NextN\<close> of schedule.go. The locale \<open>schedule_law\<close> is the contract that the
  interface \<open>Schedule\<close> of cron.go documents (\<open>Next\<close> returns a time later than its argument, or
  the zero time); what \<open>NextN\<close> returns is proved once from it, and both kinds of schedule meet
  it.
\<close>

subsection \<open>Constant delay\<close>

record ConstantDelaySchedule =
  Delay :: int

text \<open>After the clamp the duration is positive, so Go's \<open>%\<close> is \<^theory_text>\<open>mod\<close>.\<close>

definition Every :: "int \<Rightarrow> ConstantDelaySchedule" where
  "Every d =
     (let duration = (if d < go_Second then go_Second else d)
      in \<lparr>Delay = duration - duration mod go_Second\<rparr>)"

definition delay_Next :: "ConstantDelaySchedule \<Rightarrow> gotime \<Rightarrow> gotime" where
  "delay_Next s t = go_Add t (i64 (Delay s - int (tnsec t)))"

lemma Every_Delay: "Delay (Every d) = max 1 (d div go_Second) * go_Second"
proof -
  have cut: "x - x mod go_Second = x div go_Second * go_Second" for x :: int
    by (simp add: minus_mod_eq_div_mult)
  show ?thesis
  proof (cases "d < go_Second")
    case True
    then have "d div go_Second \<le> 0" by (cases "d < 0") (simp_all add: div_neg_pos_less0 less_imp_le)
    with True show ?thesis by (simp add: Every_def)
  next
    case False
    then have "1 \<le> d div go_Second" using zdiv_mono1 [of go_Second d go_Second] by simp
    with False show ?thesis by (simp add: Every_def cut max_absorb2 del: minus_mod_eq_div_mult)
  qed
qed

lemma Every_Delay_less:
  assumes "d < 2 ^ 63"
  shows "Delay (Every d) < 2 ^ 63"
proof -
  have "d div go_Second * go_Second \<le> d" by (simp add: minus_mod_eq_div_mult [symmetric])
  then show ?thesis using assms unfolding Every_Delay by (simp add: max_def)
qed

lemma delay_Next_whole:
  assumes "valid_time t" "Delay s = k * go_Second" "1 \<le> k" "Delay s < 2 ^ 63"
  shows "delay_Next s t = t\<lparr>tsec := tsec t + k, tnsec := 0\<rparr>"
proof -
  have "int (tnsec t) < go_Second" using assms(1) by (simp add: valid_time_def)
  then have "i64 (Delay s - int (tnsec t)) = Delay s - int (tnsec t)"
    using assms(2-4) by (intro i64_id) auto
  then show ?thesis by (simp add: delay_Next_def go_Add_def assms(2))
qed

lemma Every_Next:
  assumes "valid_time t" "d < 2 ^ 63"
  shows "delay_Next (Every d) t = t\<lparr>tsec := tsec t + max 1 (d div go_Second), tnsec := 0\<rparr>"
  by (rule delay_Next_whole [OF assms(1) Every_Delay _ Every_Delay_less [OF assms(2)]]) simp

subsection \<open>The schedules of the package\<close>

datatype schedule = Spec SpecSchedule | Constant ConstantDelaySchedule

primrec schedule_Next :: "tzdata \<Rightarrow> schedule \<Rightarrow> gotime \<Rightarrow> gotime call" where
  "schedule_Next tz (Spec s) t = spec_Next tz s t"
| "schedule_Next tz (Constant s) t = Ret (delay_Next s t)"

subsection \<open>NextN\<close>

primrec NextN_loop :: "(gotime \<Rightarrow> gotime call) \<Rightarrow> nat \<Rightarrow> gotime \<Rightarrow> gotime list call" where
  "NextN_loop sched 0 after = Ret []"
| "NextN_loop sched (Suc n) after =
     and_then (sched after) (\<lambda>t.
       if IsZero t then Ret []
       else and_then (NextN_loop sched n t) (\<lambda>times. Ret (t # times)))"

definition NextN :: "(gotime \<Rightarrow> gotime call) \<Rightarrow> gotime \<Rightarrow> int \<Rightarrow> gotime list call" where
  "NextN sched after count = NextN_loop sched (nat count) after"

text \<open>
  \<open>activations sched t ts\<close>: \<open>ts\<close> is a chain of activations from \<open>t\<close>, each later than the one
  before. \<open>stops\<close>: the schedule has nothing more after the last of them.
\<close>

primrec activations :: "(gotime \<Rightarrow> gotime call) \<Rightarrow> gotime \<Rightarrow> gotime list \<Rightarrow> bool" where
  "activations sched t [] \<longleftrightarrow> True"
| "activations sched t (u # us) \<longleftrightarrow>
     sched t = Ret u \<and> \<not> IsZero u \<and> After u t \<and> activations sched u us"

definition stops :: "(gotime \<Rightarrow> gotime call) \<Rightarrow> gotime \<Rightarrow> bool" where
  "stops sched t \<longleftrightarrow> (case sched t of Ret u \<Rightarrow> IsZero u | _ \<Rightarrow> False)"

text \<open>
  The contract of the interface \<open>Schedule\<close>, for times in one location: \<open>Next\<close> returns, with the
  zero time or a later time in the same location.
\<close>

locale schedule_law =
  fixes sched :: "gotime \<Rightarrow> gotime call" and L :: location
  assumes returns: "valid_time t \<Longrightarrow> tloc t = L \<Longrightarrow> \<exists>u. sched t = Ret u"
    and later: "valid_time t \<Longrightarrow> tloc t = L \<Longrightarrow> sched t = Ret u \<Longrightarrow> \<not> IsZero u \<Longrightarrow>
      After u t \<and> valid_time u \<and> tloc u = L"
begin

lemma NextN_loop_chain:
  "valid_time t \<Longrightarrow> tloc t = L \<Longrightarrow>
   \<exists>ts. NextN_loop sched n t = Ret ts \<and> length ts \<le> n \<and> activations sched t ts \<and>
     (length ts < n \<longrightarrow> stops sched (last (t # ts)))"
proof (induction n arbitrary: t)
  case (Suc n)
  obtain u where u: "sched t = Ret u" using returns [OF Suc.prems] by blast
  show ?case
  proof (cases "IsZero u")
    case True
    then show ?thesis by (simp add: u stops_def)
  next
    case False
    then have v: "After u t" "valid_time u" "tloc u = L" using later [OF Suc.prems u] by simp_all
    obtain ts where ts: "NextN_loop sched n u = Ret ts" "length ts \<le> n" "activations sched u ts"
      "length ts < n \<longrightarrow> stops sched (last (u # ts))" using Suc.IH [OF v(2,3)] by blast
    have "NextN_loop sched (Suc n) t = Ret (u # ts)" by (simp add: u False ts(1))
    moreover have "last (t # u # ts) = last (u # ts)" by simp
    ultimately show ?thesis using ts False u v
      by (intro exI [of _ "u # ts"]) (simp del: last.simps)
  qed
qed simp

lemma NextN_chain:
  assumes "valid_time t" "tloc t = L"
  shows "\<exists>ts. NextN sched t n = Ret ts \<and> int (length ts) \<le> max n 0 \<and> activations sched t ts \<and>
     (int (length ts) < n \<longrightarrow> stops sched (last (t # ts)))"
proof -
  have "int k \<le> max n 0 \<longleftrightarrow> k \<le> nat n" "int k < n \<longleftrightarrow> k < nat n" for k by linarith+
  then show ?thesis using NextN_loop_chain [OF assms, of "nat n"] by (simp only: NextN_def)
qed

end

text \<open>What the package's own schedules need to meet the contract.\<close>

primrec proper_schedule :: "tzdata \<Rightarrow> location \<Rightarrow> schedule \<Rightarrow> bool" where
  "proper_schedule tz L (Spec s) \<longleftrightarrow>
     (\<exists>l k. sLocation s = Some l \<and> regular_zone tz (if l = Local then L else l) k)"
| "proper_schedule tz L (Constant s) \<longleftrightarrow>
     (\<exists>k \<ge> 1. Delay s = k * go_Second \<and> Delay s < 2 ^ 63)"

lemma delay_schedule_law:
  assumes "1 \<le> k" "Delay s = k * go_Second" "Delay s < 2 ^ 63"
  shows "schedule_law (schedule_Next tz (Constant s)) L"
proof unfold_locales
  fix t
  assume v: "valid_time t" and l: "tloc t = L"
  show "\<exists>u. schedule_Next tz (Constant s) t = Ret u" by simp
  fix u
  assume "schedule_Next tz (Constant s) t = Ret u"
  then have "u = t\<lparr>tsec := tsec t + k, tnsec := 0\<rparr>"
    using delay_Next_whole [OF v assms(2,1,3)] by simp
  then show "After u t \<and> valid_time u \<and> tloc u = L"
    using assms(1) l by (simp add: After_def valid_time_def)
qed

lemma every_schedule_law:
  assumes "d < 2 ^ 63"
  shows "schedule_law (schedule_Next tz (Constant (Every d))) L"
  by (rule delay_schedule_law [OF _ Every_Delay Every_Delay_less [OF assms]]) simp

lemma spec_schedule_law:
  assumes "sLocation s = Some l" "regular_zone tz (if l = Local then L else l) k"
  shows "schedule_law (schedule_Next tz (Spec s)) L"
proof unfold_locales
  fix t :: gotime
  assume "tloc t = L"
  then have l: "(if l = Local then L else l) = eval_location l t" by (simp add: eval_location_def)
  show "\<exists>u. schedule_Next tz (Spec s) t = Ret u"
    using spec_Next_regular [OF assms(1) l assms(2)] by auto
  fix u
  assume u: "schedule_Next tz (Spec s) t = Ret u" and "\<not> IsZero u"
  moreover have "IsZero zero_time" by (simp add: IsZero_def zero_time_def)
  ultimately show "After u t \<and> valid_time u \<and> tloc u = L"
    using spec_Next_regular [OF assms(1) l assms(2)] \<open>tloc t = L\<close>
    by (auto simp: valid_time_def activation_def go_In_def)
qed

lemma proper_schedule_law: "proper_schedule tz L sch \<Longrightarrow> schedule_law (schedule_Next tz sch) L"
  by (cases sch) (auto intro: spec_schedule_law delay_schedule_law)

interpretation utc_spec: schedule_law "schedule_Next tz (Spec (s\<lparr>sLocation := Some UTC\<rparr>))" L
  for tz and s :: SpecSchedule and L
  by (rule spec_schedule_law [of _ UTC _ _ 0]) (simp_all add: fixed_offset_regular fixed_offset_UTC)

interpretation local_spec: schedule_law "schedule_Next tz (Spec (s\<lparr>sLocation := Some Local\<rparr>))" UTC
  for tz and s :: SpecSchedule
  by (rule spec_schedule_law [of _ Local _ _ 0]) (simp_all add: fixed_offset_regular fixed_offset_UTC)

interpretation every: schedule_law "schedule_Next tz (Constant (Every (i64 d)))" L
  for tz d L
  by (rule every_schedule_law [OF i64_range(2)])

text \<open>
  C36: \<open>NextN\<close> returns at most \<open>count\<close> times (none for a negative count), each the \<open>Next\<close> of the
  one before and later than it; fewer only when the schedule has nothing more.
\<close>

theorem NextN_spec:
  assumes "proper_schedule tz (tloc t) sch" "valid_time t"
  shows "\<exists>ts. NextN (schedule_Next tz sch) t count = Ret ts \<and> int (length ts) \<le> max count 0 \<and>
    activations (schedule_Next tz sch) t ts \<and>
    (int (length ts) < count \<longrightarrow> stops (schedule_Next tz sch) (last (t # ts)))"
  using schedule_law.NextN_chain [OF proper_schedule_law [OF assms(1)] assms(2) refl] .

theorem NextN_spec_witness:
  "\<exists>ts. NextN (schedule_Next (\<lambda>_ _. undefined) (Constant (Every 1500000000))) zero_time 2 = Ret ts \<and>
    length ts \<le> 2 \<and> activations (schedule_Next (\<lambda>_ _. undefined) (Constant (Every 1500000000))) zero_time ts"
proof -
  have "proper_schedule (\<lambda>_ _. undefined) (tloc zero_time) (Constant (Every 1500000000))"
    by (auto simp: Every_Delay intro!: exI [of _ "1 :: int"])
  from NextN_spec [OF this, of 2] show ?thesis
    by (auto simp: valid_time_def zero_time_def)
qed

end
