(* ===== verification/Cron_Entries.thy ===== *)
theory Cron_Entries
  imports Schedules "HOL-Library.Multiset"
begin

text \<open>
  The entry list of cron.go and what the scheduler loop does to it: \<open>Entry\<close>, the order of
  \<open>sortEntriesByNext\<close>, \<open>initializeEntries\<close>, \<open>newSchedulerTimer\<close>, \<open>runDueEntries\<close>,
  \<open>handleEntryAdded\<close>, \<open>removeEntry\<close>, \<open>entrySnapshot\<close> and the lookup of \<open>Cron.Entry\<close>. A schedule
  is what its \<open>Next\<close> does; jobs are a parameter type. The order of the comparison function is
  made an instance of the library's linear orders, so that the theory of \<open>sort_key\<close> applies.
\<close>

record 'j Entry =
  ID :: int
  Name :: string
  eSchedule :: "gotime \<Rightarrow> gotime call"
  Next :: gotime
  Prev :: gotime
  Job :: 'j
  wrappedJob :: 'j

definition Valid :: "'j Entry \<Rightarrow> bool" where
  "Valid e \<longleftrightarrow> ID e \<noteq> 0"

subsection \<open>Sorting\<close>

definition compareEntryID :: "'j Entry \<Rightarrow> 'j Entry \<Rightarrow> int" where
  "compareEntryID left right =
     (if ID left < ID right then -1 else if ID left > ID right then 1 else 0)"

definition compareEntryNext :: "'j Entry \<Rightarrow> 'j Entry \<Rightarrow> int" where
  "compareEntryNext left right =
     (let leftNext = Next left; rightNext = Next right
      in if IsZero leftNext \<and> IsZero rightNext then compareEntryID left right
         else if IsZero leftNext then 1
         else if IsZero rightNext then -1
         else if Before leftNext rightNext then -1
         else if Before rightNext leftNext then 1
         else compareEntryID left right)"

text \<open>
  \<open>slices.SortFunc\<close>, as an insertion sort; with distinct IDs every sort gives the same list
  (\<open>sorted_permutation_unique\<close> below).
\<close>

primrec insert_by :: "('a \<Rightarrow> 'a \<Rightarrow> int) \<Rightarrow> 'a \<Rightarrow> 'a list \<Rightarrow> 'a list" where
  "insert_by cmp x [] = [x]"
| "insert_by cmp x (y # ys) = (if cmp x y \<le> 0 then x # y # ys else y # insert_by cmp x ys)"

definition SortFunc :: "('a \<Rightarrow> 'a \<Rightarrow> int) \<Rightarrow> 'a list \<Rightarrow> 'a list" where
  "SortFunc cmp xs = foldr (insert_by cmp) xs []"

definition sortEntriesByNext :: "'j Entry list \<Rightarrow> 'j Entry list" where
  "sortEntriesByNext es = SortFunc compareEntryNext es"

text \<open>When an entry runs next: at an instant, or not at all; ties go by ID.\<close>

datatype activation_key = Scheduled int nat int | Unscheduled int

instantiation activation_key :: linorder
begin

fun less_activation_key :: "activation_key \<Rightarrow> activation_key \<Rightarrow> bool" where
  "less_activation_key (Scheduled s n i) (Scheduled s' n' i') \<longleftrightarrow>
     s < s' \<or> (s = s' \<and> (n < n' \<or> (n = n' \<and> i < i')))"
| "less_activation_key (Scheduled s n i) (Unscheduled i') \<longleftrightarrow> True"
| "less_activation_key (Unscheduled i) (Scheduled s' n' i') \<longleftrightarrow> False"
| "less_activation_key (Unscheduled i) (Unscheduled i') \<longleftrightarrow> i < i'"

definition less_eq_activation_key :: "activation_key \<Rightarrow> activation_key \<Rightarrow> bool" where
  "less_eq_activation_key x y \<longleftrightarrow> x < y \<or> x = y"

instance
proof
  fix x y z :: activation_key
  show "x < y \<longleftrightarrow> x \<le> y \<and> \<not> y \<le> x"
    by (cases x; cases y) (auto simp: less_eq_activation_key_def)
  show "x \<le> x" by (simp add: less_eq_activation_key_def)
  show "x \<le> y \<Longrightarrow> y \<le> z \<Longrightarrow> x \<le> z"
    by (cases x; cases y; cases z) (auto simp: less_eq_activation_key_def)
  show "x \<le> y \<Longrightarrow> y \<le> x \<Longrightarrow> x = y"
    by (cases x; cases y) (auto simp: less_eq_activation_key_def)
  show "x \<le> y \<or> y \<le> x"
    by (cases x; cases y) (auto simp: less_eq_activation_key_def)
qed

end

definition next_key :: "'j Entry \<Rightarrow> activation_key" where
  "next_key e =
     (if IsZero (Next e) then Unscheduled (ID e) else Scheduled (tsec (Next e)) (tnsec (Next e)) (ID e))"

lemma compareEntryNext_key:
  "compareEntryNext x y \<le> 0 \<longleftrightarrow> next_key x \<le> next_key y"
  "compareEntryNext x y < 0 \<longleftrightarrow> next_key x < next_key y"
  by (auto simp: compareEntryNext_def compareEntryID_def next_key_def Before_def Let_def
      less_eq_activation_key_def)

lemma insert_by_key: "insert_by compareEntryNext x ys = insort_key next_key x ys"
  by (induction ys) (simp_all add: compareEntryNext_key)

lemma sortEntriesByNext_key: "sortEntriesByNext es = sort_key next_key es"
  by (simp add: sortEntriesByNext_def SortFunc_def sort_key_def insert_by_key [abs_def])

abbreviation by_next :: "'j Entry list \<Rightarrow> bool" where
  "by_next es \<equiv> sorted (map next_key es)"

lemma next_key_ID: "next_key x = next_key y \<Longrightarrow> ID x = ID y"
  by (auto simp: next_key_def split: if_splits)

lemma inj_next_key: "distinct (map ID es) \<Longrightarrow> inj_on next_key (set es)"
  by (auto simp: distinct_map inj_on_def dest: next_key_ID)

lemma sorted_permutation_unique:
  assumes "distinct (map ID es)" "mset ys = mset es" "by_next ys"
  shows "ys = sortEntriesByNext es"
  unfolding sortEntriesByNext_key
  using sort_key_inj_key_eq [OF assms(2) [symmetric] inj_next_key [OF assms(1)] assms(3)] by simp

text \<open>
  Sorting the entries gives a permutation in the order of the next activation (unscheduled
  entries last, ties by ID), and with distinct IDs there is no other such permutation: the result
  does not depend on the sorting algorithm.
\<close>

lemma sortEntries_spec:
  "mset (sortEntriesByNext es) = mset es \<and> by_next (sortEntriesByNext es) \<and>
   (distinct (map ID es) \<longrightarrow> (\<forall>ys. mset ys = mset es \<and> by_next ys \<longrightarrow> ys = sortEntriesByNext es))"
  using sorted_permutation_unique by (auto simp: sortEntriesByNext_key)

subsection \<open>The operations of the loop\<close>

primrec initializeEntries :: "gotime \<Rightarrow> 'j Entry list \<Rightarrow> 'j Entry list call" where
  "initializeEntries now [] = Ret []"
| "initializeEntries now (e # es) =
     and_then (eSchedule e now) (\<lambda>t.
     and_then (initializeEntries now es) (\<lambda>es'. Ret (e\<lparr>Next := t\<rparr> # es')))"

definition idleTimerDuration :: int where
  "idleTimerDuration = 100000 * 3600000000000"

definition newSchedulerTimer :: "'j Entry list \<Rightarrow> gotime \<Rightarrow> int" where
  "newSchedulerTimer es now =
     (case es of
        [] \<Rightarrow> idleTimerDuration
      | e # _ \<Rightarrow> if IsZero (Next e) then idleTimerDuration else go_Sub (Next e) now)"

text \<open>
  \<open>runDueEntries\<close> returns the entries whose jobs it started, as they were then, and the new list.
\<close>

primrec runDueEntries :: "gotime \<Rightarrow> 'j Entry list \<Rightarrow> ('j Entry list \<times> 'j Entry list) call" where
  "runDueEntries now [] = Ret ([], [])"
| "runDueEntries now (e # es) =
     (if After (Next e) now \<or> IsZero (Next e) then Ret ([], e # es)
      else and_then (eSchedule e now) (\<lambda>t.
           and_then (runDueEntries now es) (\<lambda>(started, es').
             Ret (e # started, e\<lparr>Prev := Next e, Next := t\<rparr> # es'))))"

definition handleEntryAdded :: "gotime \<Rightarrow> 'j Entry \<Rightarrow> 'j Entry list \<Rightarrow> 'j Entry list call" where
  "handleEntryAdded now newEntry es =
     and_then (eSchedule newEntry now) (\<lambda>t. Ret (es @ [newEntry\<lparr>Next := t\<rparr>]))"

definition removeEntry :: "int \<Rightarrow> 'j Entry list \<Rightarrow> 'j Entry list" where
  "removeEntry i es = filter (\<lambda>e. ID e \<noteq> i) es"

definition entrySnapshot :: "'j Entry list \<Rightarrow> 'j Entry list" where
  "entrySnapshot es = es"

text \<open>\<open>Cron.Entry\<close>: the first entry of the snapshot with the ID; \<open>None\<close> is the zero entry.\<close>

definition lookup_entry :: "int \<Rightarrow> 'j Entry list \<Rightarrow> 'j Entry option" where
  "lookup_entry i es = List.find (\<lambda>e. i = ID e) (entrySnapshot es)"

subsection \<open>Which entries run\<close>

definition due :: "gotime \<Rightarrow> 'j Entry \<Rightarrow> bool" where
  "due now e \<longleftrightarrow> \<not> After (Next e) now \<and> \<not> IsZero (Next e)"

text \<open>The entry's schedule keeps the contract of the interface \<open>Schedule\<close>.\<close>

definition lawful_entry :: "location \<Rightarrow> 'j Entry \<Rightarrow> bool" where
  "lawful_entry L e \<longleftrightarrow> schedule_law (eSchedule e) L"

lemma lawful_entry_Next:
  "lawful_entry L e \<Longrightarrow> valid_time t \<Longrightarrow> tloc t = L \<Longrightarrow>
   \<exists>u. eSchedule e t = Ret u \<and> (IsZero u \<or> (After u t \<and> valid_time u \<and> tloc u = L))"
  unfolding lawful_entry_def using schedule_law.returns schedule_law.later by blast

lemma not_due_above:
  assumes "\<not> due now e" "next_key e \<le> next_key f"
  shows "\<not> due now f"
  using assms
  by (auto simp: due_def next_key_def less_eq_activation_key_def After_def split: if_splits)

lemma runDueEntries_prefix:
  assumes "by_next es" "\<And>e. e \<in> set es \<Longrightarrow> \<exists>u. eSchedule e now = Ret u"
  shows "runDueEntries now es =
    Ret (filter (due now) es,
         map (\<lambda>e. if due now e then e\<lparr>Prev := Next e, Next := the_value (eSchedule e now)\<rparr> else e) es)"
  using assms
proof (induction es)
  case (Cons e es)
  obtain u where u: "eSchedule e now = Ret u" using Cons.prems(2) by auto
  show ?case
  proof (cases "due now e")
    case True
    with Cons u show ?thesis by (simp add: due_def)
  next
    case False
    then have "\<not> due now f" if "f \<in> set es" for f
      using not_due_above [OF False, of f] Cons.prems(1) that by simp
    then have m: "filter (due now) es = []"
      "map (\<lambda>e. if due now e then e\<lparr>Prev := Next e, Next := the_value (eSchedule e now)\<rparr> else e) es = es"
      by (simp_all add: filter_empty_conv map_idI)
    have "runDueEntries now (e # es) = Ret ([], e # es)" using False by (auto simp: due_def)
    then show ?thesis using False m by simp
  qed
qed simp

text \<open>
  C18: on a sorted list \<open>runDueEntries\<close> starts exactly the entries that are due, in the order of
  their activation, moves only these on to their next time, and leaves none due at the same
  instant: no entry runs twice for one activation.
\<close>

theorem runDueEntries_spec:
  assumes "by_next es" "list_all (lawful_entry (tloc now)) es" "valid_time now"
  shows "\<exists>es'. runDueEntries now es = Ret (filter (due now) es, es') \<and>
    map ID es' = map ID es \<and> \<not> list_ex (due now) es' \<and>
    list_all2 (\<lambda>e e'. if due now e then Prev e' = Next e \<and> eSchedule e now = Ret (Next e') else e' = e) es es'"
proof -
  let ?step = "\<lambda>e. if due now e then e\<lparr>Prev := Next e, Next := the_value (eSchedule e now)\<rparr> else e"
  have r: "\<exists>u. eSchedule e now = Ret u \<and> (IsZero u \<or> After u now)" if "e \<in> set es" for e
    using that assms(2,3) lawful_entry_Next [OF _ _ refl] unfolding list_all_iff by blast
  then have "runDueEntries now es = Ret (filter (due now) es, map ?step es)"
    using assms(1) by (intro runDueEntries_prefix) blast+
  moreover have "\<not> list_ex (due now) (map ?step es)"
  proof -
    have "\<not> due now (?step e)" if "e \<in> set es" for e
      using r [OF that] by (auto simp: due_def)
    then show ?thesis unfolding list_ex_iff set_map by blast
  qed
  moreover have "list_all2 (\<lambda>e e'. if due now e then Prev e' = Next e \<and> eSchedule e now = Ret (Next e')
      else e' = e) es (map ?step es)"
    using r by (force simp: list_all2_map2 list_all2_same)
  moreover have "map ID (map ?step es) = map ID es" by simp
  ultimately show ?thesis by blast
qed

text \<open>Two entries that run every ten and every fifteen seconds, at second 20.\<close>

definition every_entry :: "int \<Rightarrow> int \<Rightarrow> int \<Rightarrow> unit Entry" where
  "every_entry i d s =
     \<lparr>ID = i, Name = [], eSchedule = schedule_Next (\<lambda>_. undefined) (Constant (Every (d * go_Second))),
      Next = \<lparr>tsec = s, tnsec = 0, tloc = UTC\<rparr>, Prev = zero_time, Job = (), wrappedJob = ()\<rparr>"

definition ten_fifteen :: "unit Entry list" where
  "ten_fifteen = [every_entry 2 10 20, every_entry 1 15 30]"

definition second_20 :: gotime where
  "second_20 = \<lparr>tsec = 20, tnsec = 0, tloc = UTC\<rparr>"

lemma lawful_ten_fifteen: "list_all (lawful_entry L) ten_fifteen"
  by (simp add: ten_fifteen_def every_entry_def lawful_entry_def every_schedule_law)

lemma every_entry_sel:
  "ID (every_entry i d s) = i" "Next (every_entry i d s) = \<lparr>tsec = s, tnsec = 0, tloc = UTC\<rparr>"
  by (simp_all add: every_entry_def)

lemma every_entry_key: "s \<noteq> 0 \<Longrightarrow> next_key (every_entry i d s) = Scheduled s 0 i"
  by (simp add: next_key_def every_entry_sel IsZero_def)

lemma every_entry_due: "due second_20 (every_entry i d s) \<longleftrightarrow> s \<noteq> 0 \<and> s \<le> 20"
  by (auto simp: due_def every_entry_sel IsZero_def After_def second_20_def)

lemma ten_fifteen_values:
  "by_next ten_fifteen" "valid_time second_20" "list_all (\<lambda>e. valid_time (Next e)) ten_fifteen"
  "map ID (filter (due second_20) ten_fifteen) = [2]" "distinct (map ID (rev ten_fifteen))"
  by (simp_all add: ten_fifteen_def every_entry_key every_entry_due every_entry_sel
      less_eq_activation_key_def valid_time_def) (simp add: second_20_def)

theorem runDueEntries_spec_witness:
  "\<exists>es'. runDueEntries second_20 ten_fifteen = Ret (filter (due second_20) ten_fifteen, es') \<and>
    map ID (filter (due second_20) ten_fifteen) = [2] \<and> \<not> list_ex (due second_20) es'"
proof -
  from runDueEntries_spec [OF ten_fifteen_values(1) lawful_ten_fifteen ten_fifteen_values(2)]
  obtain es' where "runDueEntries second_20 ten_fifteen = Ret (filter (due second_20) ten_fifteen, es')"
      "\<not> list_ex (due second_20) es'"
    by (elim exE conjE) (rule that)
  with ten_fifteen_values(4) show ?thesis by (intro exI [of _ es'] conjI)
qed

subsection \<open>The timer\<close>

lemma Before_instant:
  assumes "valid_time t" "valid_time u" "tsec t < tsec u \<or> (tsec t = tsec u \<and> tnsec t \<le> tnsec u)"
  shows "instant t \<le> instant u"
proof (cases "tsec t < tsec u")
  case True
  then have "(tsec t + 1) * nanos \<le> tsec u * nanos" by simp
  then show ?thesis using assms(1) by (simp add: instant_def valid_time_def algebra_simps)
next
  case False
  with assms(3) show ?thesis by (simp add: instant_def)
qed

lemma next_key_instant:
  assumes "next_key e \<le> next_key f" "\<not> IsZero (Next f)" "valid_time (Next e)" "valid_time (Next f)"
  shows "\<not> IsZero (Next e) \<and> instant (Next e) \<le> instant (Next f)"
  using assms Before_instant [OF assms(3,4)]
  by (auto simp: next_key_def less_eq_activation_key_def split: if_splits)

text \<open>
  On a sorted list the timer never sleeps past the next activation of any entry; without a
  scheduled entry it sleeps for the idle duration.
\<close>

lemma newSchedulerTimer_spec:
  assumes "by_next es" "list_all (\<lambda>e. valid_time (Next e)) es"
  shows "(\<forall>e \<in> set es. \<not> IsZero (Next e) \<longrightarrow> newSchedulerTimer es now \<le> go_Sub (Next e) now) \<and>
    (list_all (\<lambda>e. IsZero (Next e)) es \<longrightarrow> newSchedulerTimer es now = idleTimerDuration)"
proof (cases es)
  case (Cons h hs)
  have "newSchedulerTimer es now \<le> go_Sub (Next e) now" if e: "e \<in> set es" "\<not> IsZero (Next e)" for e
  proof -
    have "next_key h \<le> next_key e" using assms(1) e(1) by (auto simp: Cons)
    moreover have "valid_time (Next h)" "valid_time (Next e)"
      using assms(2) e(1) by (auto simp: Cons list_all_iff)
    ultimately have "\<not> IsZero (Next h)" "instant (Next h) \<le> instant (Next e)"
      using next_key_instant e(2) by blast+
    then show ?thesis by (simp add: newSchedulerTimer_def Cons go_Sub_def)
  qed
  then show ?thesis by (auto simp: Cons newSchedulerTimer_def)
qed (simp add: newSchedulerTimer_def)

subsection \<open>Initialisation, adding, removing\<close>

lemma initializeEntries_eq:
  assumes "list_all (lawful_entry (tloc now)) es" "valid_time now"
  shows "initializeEntries now es = Ret (map (\<lambda>e. e\<lparr>Next := the_value (eSchedule e now)\<rparr>) es)"
  using assms(1)
proof (induction es)
  case (Cons e es)
  then obtain u where "eSchedule e now = Ret u" using lawful_entry_Next [OF _ _ refl] assms(2) by fastforce
  with Cons show ?case by simp
qed simp

lemma lookup_removed: "lookup_entry i (removeEntry i es) = None"
  by (auto simp: lookup_entry_def removeEntry_def entrySnapshot_def find_None_iff)

lemma lookup_other: "i \<noteq> k \<Longrightarrow> lookup_entry i (removeEntry k es) = lookup_entry i es"
  unfolding lookup_entry_def removeEntry_def entrySnapshot_def by (induction es) auto

text \<open>
  After \<open>removeEntry\<close> the ID is found no more, and every other entry is found as before.
\<close>

lemma removeEntry_spec:
  "lookup_entry i (removeEntry k es) = (if i = k then None else lookup_entry i es)"
  using lookup_removed lookup_other by auto

end
