(* ===== verification/Cron_State.thy ===== *)
theory Cron_State
  imports Cron_Entries Chain
begin

text \<open>
  The state of a \<open>Cron\<close> and the operations on it: the critical sections under \<open>runningMu\<close> and the
  actions of the scheduler loop. A \<open>*runLifecycle\<close> is an index into the heap \<open>lifecycles\<close>, a
  channel that is only ever closed is a number, and \<open>closed\<close> is the set of closed ones. Each
  definition is one atomic action; Cron_System interleaves them.
\<close>

record runLifecycle =
  schedulerCancelled :: bool
  jobsCancelled :: bool
  loopDone :: nat
  jobsDone :: "nat option"
  activeJobs :: nat

record 'j Cron =
  entries :: "'j Entry list"
  chain :: "'j Chain"
  running :: bool
  nextID :: int
  currentRun :: "nat option"
  runs :: "nat list"
  lifecycles :: "nat \<Rightarrow> runLifecycle"
  allocated :: nat
  closed :: "nat set"
  channels :: nat

definition new_cron :: "'j Chain \<Rightarrow> 'j Cron" where
  "new_cron ch = \<lparr>entries = [], chain = ch, running = False, nextID = 0, currentRun = None, runs = [],
     lifecycles = (\<lambda>_. \<lparr>schedulerCancelled = False, jobsCancelled = False, loopDone = 0,
       jobsDone = None, activeJobs = 0\<rparr>), allocated = 0, closed = {}, channels = 0\<rparr>"

definition update_run :: "nat \<Rightarrow> (runLifecycle \<Rightarrow> runLifecycle) \<Rightarrow> 'j Cron \<Rightarrow> 'j Cron" where
  "update_run r f c = c\<lparr>lifecycles := (lifecycles c)(r := f (lifecycles c r))\<rparr>"

subsection \<open>Runs\<close>

definition isClosed :: "'j Cron \<Rightarrow> nat \<Rightarrow> bool" where
  "isClosed c done \<longleftrightarrow> done \<in> closed c"

definition completed :: "'j Cron \<Rightarrow> nat \<Rightarrow> bool" where
  "completed c r \<longleftrightarrow> activeJobs (lifecycles c r) = 0 \<and> isClosed c (loopDone (lifecycles c r))"

definition cleanupCompletedRunsLocked :: "'j Cron \<Rightarrow> 'j Cron" where
  "cleanupCompletedRunsLocked c =
     c\<lparr>runs := filter (\<lambda>r. \<not> completed c r) (runs c),
       currentRun := (case currentRun c of
           None \<Rightarrow> None
         | Some r \<Rightarrow> if r \<in> set (runs c) \<and> completed c r then None else Some r)\<rparr>"

definition close :: "nat \<Rightarrow> 'j Cron \<Rightarrow> 'j Cron call" where
  "close ch c = (if ch \<in> closed c then Panic CloseOfClosedChannel else Ret (c\<lparr>closed := insert ch (closed c)\<rparr>))"

definition enterRunning :: "'j Cron \<Rightarrow> nat \<times> 'j Cron" where
  "enterRunning c =
     (let c1 = cleanupCompletedRunsLocked c; r = allocated c1
      in (r, c1\<lparr>lifecycles := (lifecycles c1)(r := \<lparr>schedulerCancelled = False, jobsCancelled = False,
                   loopDone = channels c1, jobsDone = None, activeJobs = 0\<rparr>),
                allocated := r + 1, channels := channels c1 + 1,
                running := True, currentRun := Some r, runs := runs c1 @ [r]\<rparr>))"

text \<open>
  \<open>Start\<close> spawns the goroutine of the run it returns, or does nothing, \<open>None\<close>. \<open>Run\<close> is that goroutine
  itself; here is how it begins.
\<close>

definition start_run :: "'j Cron \<Rightarrow> (nat \<times> 'j Cron) option" where
  "start_run c = (if running c then None else Some (enterRunning c))"

datatype run_error = ErrAlreadyRunning

definition Run :: "'j Cron \<Rightarrow> (run_error, nat \<times> 'j Cron) go" where
  "Run c = (if running c then Err ErrAlreadyRunning else Ret (enterRunning c))"

text \<open>\<open>markStopped\<close> in its two actions: other goroutines may act in between.\<close>

definition markStopped_store :: "'j Cron \<Rightarrow> 'j Cron" where
  "markStopped_store c = c\<lparr>running := False\<rparr>"

definition markStopped_close :: "nat \<Rightarrow> 'j Cron \<Rightarrow> 'j Cron call" where
  "markStopped_close r c = close (loopDone (lifecycles c r)) c"

subsection \<open>Jobs\<close>

definition startJob :: "nat \<Rightarrow> 'j Cron \<Rightarrow> 'j Cron" where
  "startJob r c =
     (let c1 = (if activeJobs (lifecycles c r) = 0
                then update_run r (\<lambda>l. l\<lparr>jobsDone := Some (channels c)\<rparr>) (c\<lparr>channels := channels c + 1\<rparr>)
                else c)
      in update_run r (\<lambda>l. l\<lparr>activeJobs := activeJobs l + 1\<rparr>) c1)"

definition finishJob :: "nat \<Rightarrow> 'j Cron \<Rightarrow> 'j Cron call" where
  "finishJob r c =
     (if activeJobs (lifecycles c r) = 0 then Ret c
      else let c1 = update_run r (\<lambda>l. l\<lparr>activeJobs := activeJobs l - 1\<rparr>) c
           in and_then
                (case jobsDone (lifecycles c1 r) of
                   None \<Rightarrow> Ret c1
                 | Some ch \<Rightarrow>
                     if activeJobs (lifecycles c1 r) = 0
                     then and_then (close ch c1) (\<lambda>c2. Ret (update_run r (\<lambda>l. l\<lparr>jobsDone := None\<rparr>) c2))
                     else Ret c1)
                (\<lambda>c3. Ret (cleanupCompletedRunsLocked c3)))"

text \<open>
  \<open>waitForRunJobs\<close> up to its wait: \<open>None\<close> when there is nothing to wait for (the run is idle, or the
  channel is nil), else the channel.
\<close>

definition waitForRunJobs :: "nat \<Rightarrow> 'j Cron \<Rightarrow> nat option \<times> 'j Cron" where
  "waitForRunJobs r c =
     (if activeJobs (lifecycles c r) = 0 then (None, cleanupCompletedRunsLocked c)
      else (jobsDone (lifecycles c r), c))"

text \<open>
  The outcomes of \<open>waitForRunChannel\<close> in a state: \<open>True\<close> is nil, \<open>False\<close> the error of the caller's
  context, which may be done at any time. No outcome means that the call waits.
\<close>

inductive waitForRunChannel :: "'j Cron \<Rightarrow> nat option \<Rightarrow> bool \<Rightarrow> bool" for c where
  nil_channel: "waitForRunChannel c None True"
| channel_closed: "isClosed c ch \<Longrightarrow> waitForRunChannel c (Some ch) True"
| context_done: "waitForRunChannel c (Some ch) False"

inductive_simps waitForRunChannel_simps [simp]:
  "waitForRunChannel c None b" "waitForRunChannel c (Some ch) True" "waitForRunChannel c (Some ch) False"

subsection \<open>Stopping\<close>

definition cancel_run :: "bool \<Rightarrow> nat \<Rightarrow> 'j Cron \<Rightarrow> 'j Cron" where
  "cancel_run cancelJobs r =
     update_run r (\<lambda>l. l\<lparr>schedulerCancelled := True, jobsCancelled := jobsCancelled l \<or> cancelJobs\<rparr>)"

text \<open>\<open>stopRuns\<close> up to its waits: the runs to wait for.\<close>

definition stopRuns :: "bool \<Rightarrow> 'j Cron \<Rightarrow> nat list \<times> 'j Cron" where
  "stopRuns cancelJobs c =
     (let c1 = cleanupCompletedRunsLocked c
      in (runs c1, fold (cancel_run cancelJobs) (runs c1) c1))"

definition Stop :: "'j Cron \<Rightarrow> nat list \<times> 'j Cron" where
  "Stop c = stopRuns True c"

definition Shutdown :: "'j Cron \<Rightarrow> nat list \<times> 'j Cron" where
  "Shutdown c = stopRuns False c"

subsection \<open>Entries\<close>

text \<open>
  The channel a client selects on besides the request channel: \<open>c.currentRun.loopDone\<close>, read while
  the scheduler runs.
\<close>

definition current_loopDone :: "'j Cron \<Rightarrow> nat call" where
  "current_loopDone c =
     (case currentRun c of None \<Rightarrow> Panic NilDereference | Some r \<Rightarrow> Ret (loopDone (lifecycles c r)))"

text \<open>
  \<open>scheduleEntry\<close> up to its select: the entry, and the channel to select on if the scheduler runs;
  otherwise the entry is in the list.
\<close>

definition scheduleEntry ::
  "string \<Rightarrow> (gotime \<Rightarrow> gotime call) \<Rightarrow> 'j \<Rightarrow> 'j Cron \<Rightarrow> ('j Entry \<times> nat option \<times> 'j Cron) call" where
  "scheduleEntry name sched cmd c =
     (let c1 = c\<lparr>nextID := nextID c + 1\<rparr>;
          entry = \<lparr>ID = nextID c1, Name = name, eSchedule = sched, Next = zero_time, Prev = zero_time,
                   Job = cmd, wrappedJob = Then (chain c1) cmd\<rparr>
      in if \<not> running c1 then Ret (entry, None, c1\<lparr>entries := entries c1 @ [entry]\<rparr>)
         else and_then (current_loopDone c1) (\<lambda>ch. Ret (entry, Some ch, c1)))"

definition Schedule ::
  "(gotime \<Rightarrow> gotime call) \<Rightarrow> 'j \<Rightarrow> 'j Cron \<Rightarrow> ('j Entry \<times> nat option \<times> 'j Cron) call" where
  "Schedule sched cmd c = scheduleEntry [] sched cmd c"

definition ScheduleNamed ::
  "string \<Rightarrow> (gotime \<Rightarrow> gotime call) \<Rightarrow> 'j \<Rightarrow> 'j Cron \<Rightarrow> ('j Entry \<times> nat option \<times> 'j Cron) call" where
  "ScheduleNamed name sched cmd c = scheduleEntry name sched cmd c"

text \<open>The branch of \<open>scheduleEntry\<close> that finds the loop gone: append directly.\<close>

definition append_entry :: "'j Entry \<Rightarrow> 'j Cron \<Rightarrow> 'j Cron" where
  "append_entry e c = c\<lparr>entries := entries c @ [e]\<rparr>"

definition Remove :: "int \<Rightarrow> 'j Cron \<Rightarrow> (nat option \<times> 'j Cron) call" where
  "Remove i c =
     (if \<not> running c then Ret (None, c\<lparr>entries := removeEntry i (entries c)\<rparr>)
      else and_then (current_loopDone c) (\<lambda>ch. Ret (Some ch, c)))"

definition remove_directly :: "int \<Rightarrow> 'j Cron \<Rightarrow> 'j Cron" where
  "remove_directly i c = c\<lparr>entries := removeEntry i (entries c)\<rparr>"

text \<open>\<open>Entries\<close>: the snapshot at once, or the channel to select on.\<close>

definition Entries :: "'j Cron \<Rightarrow> ('j Entry list + nat) call" where
  "Entries c =
     (if \<not> running c then Ret (Inl (entrySnapshot (entries c)))
      else and_then (current_loopDone c) (\<lambda>ch. Ret (Inr ch)))"

text \<open>\<open>parseAndSchedule\<close>, over the parser of the instance: an error leaves the instance as it was.\<close>

definition parseAndSchedule ::
  "(string \<Rightarrow> ('e, gotime \<Rightarrow> gotime call) go) \<Rightarrow> string \<Rightarrow> string \<Rightarrow> 'j \<Rightarrow> 'j Cron \<Rightarrow>
    (string \<times> 'e, 'j Entry \<times> nat option \<times> 'j Cron) go" where
  "parseAndSchedule parse name spec cmd c =
     (case parse spec of
        Err e \<Rightarrow> Err (spec, e)
      | Ret sched \<Rightarrow>
          (case scheduleEntry name sched cmd c of
             Ret r \<Rightarrow> Ret r
           | Panic p \<Rightarrow> Panic p
           | _ \<Rightarrow> Diverge)
      | Panic p \<Rightarrow> Panic p
      | Diverge \<Rightarrow> Diverge)"

text \<open>A job is what its \<open>Run\<close> does, so that \<open>FuncJob\<close> makes a function a job as it is.\<close>

definition FuncJob :: "'j \<Rightarrow> 'j" where
  "FuncJob f = f"

definition AddNamedJob ::
  "string \<Rightarrow> (string \<Rightarrow> ('e, gotime \<Rightarrow> gotime call) go) \<Rightarrow> string \<Rightarrow> 'j \<Rightarrow> 'j Cron \<Rightarrow>
    (string \<times> 'e, 'j Entry \<times> nat option \<times> 'j Cron) go" where
  "AddNamedJob name parse spec cmd c = parseAndSchedule parse name spec cmd c"

definition AddJob ::
  "(string \<Rightarrow> ('e, gotime \<Rightarrow> gotime call) go) \<Rightarrow> string \<Rightarrow> 'j \<Rightarrow> 'j Cron \<Rightarrow>
    (string \<times> 'e, 'j Entry \<times> nat option \<times> 'j Cron) go" where
  "AddJob parse spec cmd c = parseAndSchedule parse [] spec cmd c"

definition AddNamedFunc ::
  "string \<Rightarrow> (string \<Rightarrow> ('e, gotime \<Rightarrow> gotime call) go) \<Rightarrow> string \<Rightarrow> 'j \<Rightarrow> 'j Cron \<Rightarrow>
    (string \<times> 'e, 'j Entry \<times> nat option \<times> 'j Cron) go" where
  "AddNamedFunc name parse spec cmd c = AddNamedJob name parse spec (FuncJob cmd) c"

definition AddFunc ::
  "(string \<Rightarrow> ('e, gotime \<Rightarrow> gotime call) go) \<Rightarrow> string \<Rightarrow> 'j \<Rightarrow> 'j Cron \<Rightarrow>
    (string \<times> 'e, 'j Entry \<times> nat option \<times> 'j Cron) go" where
  "AddFunc parse spec cmd c = AddJob parse spec (FuncJob cmd) c"

subsection \<open>What the operations leave alone\<close>

named_theorems cron_simps \<open>the components of the state after an operation\<close>

lemma update_run_simps [cron_simps]:
  "lifecycles (update_run r f c) q = (if q = r then f (lifecycles c r) else lifecycles c q)"
  "entries (update_run r f c) = entries c" "running (update_run r f c) = running c"
  "currentRun (update_run r f c) = currentRun c" "runs (update_run r f c) = runs c"
  "allocated (update_run r f c) = allocated c" "closed (update_run r f c) = closed c"
  "channels (update_run r f c) = channels c" "nextID (update_run r f c) = nextID c"
  by (simp_all add: update_run_def)

lemma cleanup_simps [cron_simps]:
  "lifecycles (cleanupCompletedRunsLocked c) = lifecycles c"
  "entries (cleanupCompletedRunsLocked c) = entries c"
  "running (cleanupCompletedRunsLocked c) = running c"
  "allocated (cleanupCompletedRunsLocked c) = allocated c"
  "closed (cleanupCompletedRunsLocked c) = closed c"
  "channels (cleanupCompletedRunsLocked c) = channels c"
  "nextID (cleanupCompletedRunsLocked c) = nextID c"
  "runs (cleanupCompletedRunsLocked c) = filter (\<lambda>r. \<not> completed c r) (runs c)"
  by (simp_all add: cleanupCompletedRunsLocked_def)

lemma cleanup_currentRun:
  "currentRun (cleanupCompletedRunsLocked c) = Some r \<Longrightarrow> currentRun c = Some r"
  "currentRun c = Some r \<Longrightarrow> \<not> completed c r \<Longrightarrow> currentRun (cleanupCompletedRunsLocked c) = Some r"
  by (auto simp: cleanupCompletedRunsLocked_def split: option.splits if_splits)

lemma startJob_simps [cron_simps]:
  "entries (startJob r c) = entries c" "running (startJob r c) = running c"
  "currentRun (startJob r c) = currentRun c" "runs (startJob r c) = runs c"
  "allocated (startJob r c) = allocated c" "closed (startJob r c) = closed c"
  "nextID (startJob r c) = nextID c"
  "channels (startJob r c) = (if activeJobs (lifecycles c r) = 0 then channels c + 1 else channels c)"
  "lifecycles (startJob r c) q =
     (if q = r
      then (lifecycles c r)\<lparr>activeJobs := activeJobs (lifecycles c r) + 1,
             jobsDone := (if activeJobs (lifecycles c r) = 0 then Some (channels c) else jobsDone (lifecycles c r))\<rparr>
      else lifecycles c q)"
  by (auto simp: startJob_def Let_def update_run_def)

lemma cancel_run_simps [cron_simps]:
  "entries (cancel_run b r c) = entries c" "running (cancel_run b r c) = running c"
  "currentRun (cancel_run b r c) = currentRun c" "runs (cancel_run b r c) = runs c"
  "allocated (cancel_run b r c) = allocated c" "closed (cancel_run b r c) = closed c"
  "channels (cancel_run b r c) = channels c" "nextID (cancel_run b r c) = nextID c"
  "loopDone (lifecycles (cancel_run b r c) q) = loopDone (lifecycles c q)"
  "jobsDone (lifecycles (cancel_run b r c) q) = jobsDone (lifecycles c q)"
  "activeJobs (lifecycles (cancel_run b r c) q) = activeJobs (lifecycles c q)"
  by (simp_all add: cancel_run_def cron_simps)

lemma cancel_run_cancelled:
  "schedulerCancelled (lifecycles (cancel_run b r c) q) \<longleftrightarrow> q = r \<or> schedulerCancelled (lifecycles c q)"
  by (simp add: cancel_run_def cron_simps)

lemma cancel_runs_cancelled:
  "schedulerCancelled (lifecycles (fold (cancel_run b) rs c) q) \<longleftrightarrow>
     q \<in> set rs \<or> schedulerCancelled (lifecycles c q)"
  by (induction rs arbitrary: c) (auto simp: cancel_run_cancelled)

lemma cancel_runs_jobsCancelled:
  "jobsCancelled (lifecycles (fold (cancel_run b) rs c) q) \<longleftrightarrow>
     b \<and> q \<in> set rs \<or> jobsCancelled (lifecycles c q)"
  by (induction rs arbitrary: c) (auto simp: cancel_run_def update_run_simps)

lemma cancel_runs_simps [cron_simps]:
  "entries (fold (cancel_run b) rs c) = entries c" "running (fold (cancel_run b) rs c) = running c"
  "currentRun (fold (cancel_run b) rs c) = currentRun c" "runs (fold (cancel_run b) rs c) = runs c"
  "allocated (fold (cancel_run b) rs c) = allocated c" "closed (fold (cancel_run b) rs c) = closed c"
  "channels (fold (cancel_run b) rs c) = channels c" "nextID (fold (cancel_run b) rs c) = nextID c"
  "loopDone (lifecycles (fold (cancel_run b) rs c) q) = loopDone (lifecycles c q)"
  "jobsDone (lifecycles (fold (cancel_run b) rs c) q) = jobsDone (lifecycles c q)"
  "activeJobs (lifecycles (fold (cancel_run b) rs c) q) = activeJobs (lifecycles c q)"
  by (induction rs arbitrary: c) (simp_all add: cron_simps)

end
