(* ===== verification/Cron_System.thy ===== *)
theory Cron_System
  imports Cron_State
begin

text \<open>
  A \<open>Cron\<close> with everything that runs against it: the goroutines of the scheduler loops, of the
  running jobs and of the clients that call \<open>Start\<close>, \<open>Run\<close>, \<open>Schedule\<close>, \<open>Remove\<close>, \<open>Entries\<close> and
  \<open>Stop\<close>. A step is one atomic action of one of them (a critical section, a rendezvous on a channel, a store to
  the flag), so an execution is any interleaving. Times of the clock and the choice between ready
  channels are free.
\<close>

text \<open>
  Where the goroutine of a run is: before \<open>initializeEntries\<close>, at the select of
  \<open>processSchedulerEvent\<close>, in \<open>runDueEntries\<close> at an index, with an entry or an ID it has received and
  not yet handled, after \<open>schedulerLoop\<close>, between the two actions of \<open>markStopped\<close>, at its end.
\<close>

datatype 'j loop_phase =
    NotStarted
  | Init
  | Select gotime
  | Due gotime nat
  | Adding "'j Entry"
  | Removing int
  | Returned_loop
  | Stored
  | Exited

text \<open>
  Where a client is. In \<open>Run\<close> it is the goroutine of the run \<open>InRun\<close> names. \<open>Stop\<close> keeps the runs it has yet to wait for, all the runs it took, and how
  many runs there had been when it took them.
\<close>

datatype 'j client =
    Idle
  | AddWait "'j Entry" nat
  | RemoveWait int nat
  | EntriesWait nat
  | InRun nat
  | LoopsWait "nat list" "nat list" nat
  | JobsWait "nat list" "nat list" nat
  | JobsChan nat nat "nat list" "nat list" nat
  | StopOk "nat list" nat
  | StopErr

record 'j system =
  cron :: "'j Cron"
  loops :: "nat \<Rightarrow> 'j loop_phase"
  jobs :: "nat \<Rightarrow> nat"
  clients :: "nat \<Rightarrow> 'j client"

definition initial :: "'j Chain \<Rightarrow> 'j system" where
  "initial ch = \<lparr>cron = new_cron ch, loops = (\<lambda>_. NotStarted), jobs = (\<lambda>_. 0), clients = (\<lambda>_. Idle)\<rparr>"

definition set_entries :: "'j Entry list \<Rightarrow> 'j Cron \<Rightarrow> 'j Cron" where
  "set_entries es c = c\<lparr>entries := es\<rparr>"

lemma set_entries_simps [cron_simps]:
  "entries (set_entries es c) = es" "running (set_entries es c) = running c"
  "currentRun (set_entries es c) = currentRun c" "runs (set_entries es c) = runs c"
  "allocated (set_entries es c) = allocated c" "closed (set_entries es c) = closed c"
  "channels (set_entries es c) = channels c" "nextID (set_entries es c) = nextID c"
  "lifecycles (set_entries es c) = lifecycles c"
  by (simp_all add: set_entries_def)

inductive loop_step :: "'j system \<Rightarrow> 'j system \<Rightarrow> bool" where
  init: "loops s r = Init \<Longrightarrow> initializeEntries now (entries (cron s)) = Ret es \<Longrightarrow>
    loop_step s (s\<lparr>cron := set_entries (sortEntriesByNext es) (cron s), loops := (loops s)(r := Select now)\<rparr>)"
| timer: "loops s r = Select t \<Longrightarrow> loop_step s (s\<lparr>loops := (loops s)(r := Due now 0)\<rparr>)"
| run_due: "loops s r = Due now k \<Longrightarrow> k < length (entries (cron s)) \<Longrightarrow> e = entries (cron s) ! k \<Longrightarrow>
    due now e \<Longrightarrow> eSchedule e now = Ret t \<Longrightarrow>
    loop_step s (s\<lparr>cron := startJob r (set_entries ((entries (cron s))[k := e\<lparr>Prev := Next e, Next := t\<rparr>]) (cron s)),
      loops := (loops s)(r := Due now (k + 1)), jobs := (jobs s)(r := jobs s r + 1)\<rparr>)"
| due_end: "loops s r = Due now k \<Longrightarrow> \<not> (k < length (entries (cron s)) \<and> due now (entries (cron s) ! k)) \<Longrightarrow>
    loop_step s (s\<lparr>cron := set_entries (sortEntriesByNext (entries (cron s))) (cron s),
      loops := (loops s)(r := Select now)\<rparr>)"
| entry_added: "loops s r = Adding e \<Longrightarrow> handleEntryAdded now e (entries (cron s)) = Ret es \<Longrightarrow>
    loop_step s (s\<lparr>cron := set_entries (sortEntriesByNext es) (cron s), loops := (loops s)(r := Select now)\<rparr>)"
| entry_removed: "loops s r = Removing k \<Longrightarrow>
    loop_step s (s\<lparr>cron := set_entries (sortEntriesByNext (removeEntry k (entries (cron s)))) (cron s),
      loops := (loops s)(r := Select now)\<rparr>)"
| ctx_done: "loops s r = Select t \<Longrightarrow> schedulerCancelled (lifecycles (cron s) r) \<Longrightarrow>
    loop_step s (s\<lparr>loops := (loops s)(r := Returned_loop)\<rparr>)"
| mark_store: "loops s r = Returned_loop \<Longrightarrow>
    loop_step s (s\<lparr>cron := markStopped_store (cron s), loops := (loops s)(r := Stored)\<rparr>)"
| mark_close: "loops s r = Stored \<Longrightarrow> markStopped_close r (cron s) = Ret c \<Longrightarrow>
    loop_step s (s\<lparr>cron := c, loops := (loops s)(r := Exited)\<rparr>)"
| job_end: "0 < jobs s r \<Longrightarrow> finishJob r (cron s) = Ret c \<Longrightarrow>
    loop_step s (s\<lparr>cron := c, jobs := (jobs s)(r := jobs s r - 1)\<rparr>)"

text \<open>
  A client and the loop meet at an unbuffered channel: the client that adds or removes is on its way
  again as soon as the loop has received, and the loop's handler is a step of its own. A client that
  asks for a snapshot waits for the reply, which is all the loop does in between.
\<close>

inductive rendezvous :: "'j system \<Rightarrow> 'j system \<Rightarrow> bool" where
  add: "loops s r = Select t \<Longrightarrow> clients s i = AddWait e ch \<Longrightarrow>
    rendezvous s (s\<lparr>loops := (loops s)(r := Adding e), clients := (clients s)(i := Idle)\<rparr>)"
| remove: "loops s r = Select t \<Longrightarrow> clients s i = RemoveWait k ch \<Longrightarrow>
    rendezvous s (s\<lparr>loops := (loops s)(r := Removing k), clients := (clients s)(i := Idle)\<rparr>)"
| snapshot: "loops s r = Select t \<Longrightarrow> clients s i = EntriesWait ch \<Longrightarrow>
    rendezvous s (s\<lparr>clients := (clients s)(i := Idle)\<rparr>)"

inductive client_step :: "'j system \<Rightarrow> 'j system \<Rightarrow> bool" where
  start: "start_run (cron s) = Some (r, c) \<Longrightarrow>
    client_step s (s\<lparr>cron := c, loops := (loops s)(r := Init)\<rparr>)"
| run: "clients s i = Idle \<Longrightarrow> Run (cron s) = Ret (r, c) \<Longrightarrow>
    client_step s (s\<lparr>cron := c, loops := (loops s)(r := Init), clients := (clients s)(i := InRun r)\<rparr>)"
| run_end: "clients s i = InRun r \<Longrightarrow> loops s r = Exited \<Longrightarrow>
    client_step s (s\<lparr>clients := (clients s)(i := Idle)\<rparr>)"
| cancel: "client_step s (s\<lparr>cron := cancel_run True r (cron s)\<rparr>)"
| schedule: "clients s i = Idle \<Longrightarrow> scheduleEntry name sched cmd (cron s) = Ret (e, w, c) \<Longrightarrow>
    client_step s (s\<lparr>cron := c,
      clients := (clients s)(i := (case w of None \<Rightarrow> Idle | Some ch \<Rightarrow> AddWait e ch))\<rparr>)"
| add_closed: "clients s i = AddWait e ch \<Longrightarrow> isClosed (cron s) ch \<Longrightarrow>
    client_step s (s\<lparr>cron := append_entry e (cron s), clients := (clients s)(i := Idle)\<rparr>)"
| remove: "clients s i = Idle \<Longrightarrow> Remove k (cron s) = Ret (w, c) \<Longrightarrow>
    client_step s (s\<lparr>cron := c,
      clients := (clients s)(i := (case w of None \<Rightarrow> Idle | Some ch \<Rightarrow> RemoveWait k ch))\<rparr>)"
| remove_closed: "clients s i = RemoveWait k ch \<Longrightarrow> isClosed (cron s) ch \<Longrightarrow>
    client_step s (s\<lparr>cron := remove_directly k (cron s), clients := (clients s)(i := Idle)\<rparr>)"
| entries: "clients s i = Idle \<Longrightarrow> Entries (cron s) = Ret w \<Longrightarrow>
    client_step s (s\<lparr>clients := (clients s)(i := (case w of Inl es \<Rightarrow> Idle | Inr ch \<Rightarrow> EntriesWait ch))\<rparr>)"
| entries_closed: "clients s i = EntriesWait ch \<Longrightarrow> isClosed (cron s) ch \<Longrightarrow>
    client_step s (s\<lparr>clients := (clients s)(i := Idle)\<rparr>)"
| stop: "clients s i = Idle \<Longrightarrow> stopRuns b (cron s) = (rs, c) \<Longrightarrow>
    client_step s (s\<lparr>cron := c, clients := (clients s)(i := LoopsWait rs rs (allocated (cron s)))\<rparr>)"
| loop_gone: "clients s i = LoopsWait (r # rs) cap n \<Longrightarrow>
    waitForRunChannel (cron s) (Some (loopDone (lifecycles (cron s) r))) True \<Longrightarrow>
    client_step s (s\<lparr>clients := (clients s)(i := LoopsWait rs cap n)\<rparr>)"
| loops_gone: "clients s i = LoopsWait [] cap n \<Longrightarrow>
    client_step s (s\<lparr>clients := (clients s)(i := JobsWait cap cap n)\<rparr>)"
| jobs_check: "clients s i = JobsWait (r # rs) cap n \<Longrightarrow> waitForRunJobs r (cron s) = (w, c) \<Longrightarrow>
    client_step s (s\<lparr>cron := c, clients := (clients s)(i := (case w of
      None \<Rightarrow> JobsWait rs cap n | Some ch \<Rightarrow> JobsChan ch r rs cap n))\<rparr>)"
| jobs_gone: "clients s i = JobsChan ch r rs cap n \<Longrightarrow> waitForRunChannel (cron s) (Some ch) True \<Longrightarrow>
    client_step s (s\<lparr>clients := (clients s)(i := JobsWait rs cap n)\<rparr>)"
| stop_ok: "clients s i = JobsWait [] cap n \<Longrightarrow>
    client_step s (s\<lparr>clients := (clients s)(i := StopOk cap n)\<rparr>)"
| stop_err_loop: "clients s i = LoopsWait (r # rs) cap n \<Longrightarrow>
    waitForRunChannel (cron s) (Some (loopDone (lifecycles (cron s) r))) False \<Longrightarrow>
    client_step s (s\<lparr>clients := (clients s)(i := StopErr)\<rparr>)"
| stop_err_jobs: "clients s i = JobsChan ch r rs cap n \<Longrightarrow> waitForRunChannel (cron s) (Some ch) False \<Longrightarrow>
    client_step s (s\<lparr>clients := (clients s)(i := StopErr)\<rparr>)"

definition sys_step :: "'j system \<Rightarrow> 'j system \<Rightarrow> bool" where
  "sys_step s s' \<longleftrightarrow> loop_step s s' \<or> rendezvous s s' \<or> client_step s s'"

definition reachable :: "'j Chain \<Rightarrow> 'j system \<Rightarrow> bool" where
  "reachable ch s \<longleftrightarrow> sys_step\<^sup>*\<^sup>* (initial ch) s"

lemma reachable_induct [consumes 1, case_names initial loop meet client]:
  assumes "reachable ch s" "P (initial ch)"
    "\<And>s s'. reachable ch s \<Longrightarrow> P s \<Longrightarrow> loop_step s s' \<Longrightarrow> P s'"
    "\<And>s s'. reachable ch s \<Longrightarrow> P s \<Longrightarrow> rendezvous s s' \<Longrightarrow> P s'"
    "\<And>s s'. reachable ch s \<Longrightarrow> P s \<Longrightarrow> client_step s s' \<Longrightarrow> P s'"
  shows "P s"
  using assms(1) unfolding reachable_def
proof (induction rule: rtranclp_induct)
  case (step s s')
  have r: "reachable ch s" using step.hyps(1) by (simp only: reachable_def)
  from step.hyps(2) show ?case unfolding sys_step_def
    by (elim disjE) (rule assms(3-5) [OF r step.IH], assumption)+
qed (rule assms(2))

lemma reachable_step: "reachable ch s \<Longrightarrow> sys_step s s' \<Longrightarrow> reachable ch s'"
  unfolding reachable_def by (rule rtranclp.rtrancl_into_rtrancl)

lemma reachable_loop: "reachable ch s \<Longrightarrow> loop_step s s' \<Longrightarrow> reachable ch s'"
  and reachable_client: "reachable ch s \<Longrightarrow> client_step s s' \<Longrightarrow> reachable ch s'"
  by (auto intro: reachable_step simp: sys_step_def)

subsection \<open>The invariant of the runs\<close>

definition live :: "'j loop_phase \<Rightarrow> bool" where
  "live p \<longleftrightarrow> p \<noteq> NotStarted \<and> p \<noteq> Stored \<and> p \<noteq> Exited"

text \<open>
  Exactly the current run of a running scheduler is live; a run's loop channel is its own and is
  closed when its goroutine has ended; a run that is not completed is in the list.
\<close>

definition runs_ok :: "'j Cron \<Rightarrow> (nat \<Rightarrow> 'j loop_phase) \<Rightarrow> bool" where
  "runs_ok c ls \<longleftrightarrow>
     (\<forall>r. ls r = NotStarted \<longleftrightarrow> allocated c \<le> r) \<and>
     (\<forall>r. live (ls r) \<longleftrightarrow> running c \<and> currentRun c = Some r) \<and>
     (running c \<longrightarrow> currentRun c \<noteq> None) \<and>
     (\<forall>r < allocated c. loopDone (lifecycles c r) < channels c) \<and>
     (\<forall>r < allocated c. \<forall>q < allocated c.
        loopDone (lifecycles c r) = loopDone (lifecycles c q) \<longrightarrow> r = q) \<and>
     (\<forall>r < allocated c. loopDone (lifecycles c r) \<in> closed c \<longleftrightarrow> ls r = Exited) \<and>
     (\<forall>r < allocated c. ls r \<noteq> Exited \<or> 0 < activeJobs (lifecycles c r) \<longrightarrow> r \<in> set (runs c)) \<and>
     set (runs c) \<subseteq> {..<allocated c} \<and> closed c \<subseteq> {..<channels c}"

text \<open>
  The counter of a run is the number of its job goroutines; while it is positive the run has a
  channel for its jobs, open and its own.
\<close>

definition jobs_ok :: "'j Cron \<Rightarrow> (nat \<Rightarrow> nat) \<Rightarrow> bool" where
  "jobs_ok c js \<longleftrightarrow>
     (\<forall>r. js r = (if r < allocated c then activeJobs (lifecycles c r) else 0)) \<and>
     (\<forall>r < allocated c. jobsDone (lifecycles c r) = None \<longleftrightarrow> activeJobs (lifecycles c r) = 0) \<and>
     (\<forall>r < allocated c. \<forall>ch. jobsDone (lifecycles c r) = Some ch \<longrightarrow>
        ch < channels c \<and> ch \<notin> closed c \<and> (\<forall>q < allocated c. loopDone (lifecycles c q) \<noteq> ch) \<and>
        (\<forall>q < allocated c. jobsDone (lifecycles c q) = Some ch \<longrightarrow> q = r)) \<and>
     closed c \<subseteq> {..<channels c}"

lemma runs_ok_entries [simp]: "runs_ok (set_entries es c) ls = runs_ok c ls"
  by (simp add: runs_ok_def cron_simps)

lemma jobs_ok_entries [simp]: "jobs_ok (set_entries es c) js = jobs_ok c js"
  by (simp add: jobs_ok_def cron_simps)

lemma runs_ok_phase: "live p \<Longrightarrow> live (ls r) \<Longrightarrow> runs_ok c ls \<Longrightarrow> runs_ok c (ls(r := p))"
  unfolding runs_ok_def live_def by (auto split: if_splits)

lemma completed_exited:
  assumes "runs_ok c ls" "r < allocated c"
  shows "completed c r \<longleftrightarrow> activeJobs (lifecycles c r) = 0 \<and> ls r = Exited"
  using assms by (auto simp: completed_def isClosed_def runs_ok_def)

lemma runs_okD:
  assumes "runs_ok c ls"
  shows "ls r = NotStarted \<longleftrightarrow> allocated c \<le> r" "live (ls r) \<longleftrightarrow> running c \<and> currentRun c = Some r"
    "running c \<Longrightarrow> \<exists>q. currentRun c = Some q"
    "r < allocated c \<Longrightarrow> loopDone (lifecycles c r) < channels c"
    "r < allocated c \<Longrightarrow> loopDone (lifecycles c r) \<in> closed c \<longleftrightarrow> ls r = Exited"
    "r < allocated c \<Longrightarrow> ls r \<noteq> Exited \<or> 0 < activeJobs (lifecycles c r) \<Longrightarrow> r \<in> set (runs c)"
    "r \<in> set (runs c) \<Longrightarrow> r < allocated c"
    "x \<in> closed c \<Longrightarrow> x < channels c"
  using assms unfolding runs_ok_def by blast+

lemma runs_okI:
  assumes "\<And>r. ls r = NotStarted \<longleftrightarrow> allocated c \<le> r"
    and "\<And>r. live (ls r) \<longleftrightarrow> running c \<and> currentRun c = Some r"
    and "running c \<Longrightarrow> currentRun c \<noteq> None"
    and "\<And>r. r < allocated c \<Longrightarrow> loopDone (lifecycles c r) < channels c"
    and "\<And>r q. r < allocated c \<Longrightarrow> q < allocated c \<Longrightarrow>
      loopDone (lifecycles c r) = loopDone (lifecycles c q) \<Longrightarrow> r = q"
    and "\<And>r. r < allocated c \<Longrightarrow> loopDone (lifecycles c r) \<in> closed c \<longleftrightarrow> ls r = Exited"
    and "\<And>r. r < allocated c \<Longrightarrow> ls r \<noteq> Exited \<or> 0 < activeJobs (lifecycles c r) \<Longrightarrow> r \<in> set (runs c)"
    and "\<And>r. r \<in> set (runs c) \<Longrightarrow> r < allocated c"
    and "\<And>x. x \<in> closed c \<Longrightarrow> x < channels c"
  shows "runs_ok c ls"
  using assms unfolding runs_ok_def by blast

lemma runs_ok_inj:
  "runs_ok c ls \<Longrightarrow> r < allocated c \<Longrightarrow> q < allocated c \<Longrightarrow>
   loopDone (lifecycles c r) = loopDone (lifecycles c q) \<Longrightarrow> r = q"
  unfolding runs_ok_def by blast

lemma live_allocated: "runs_ok c ls \<Longrightarrow> live (ls r) \<Longrightarrow> r < allocated c"
  using runs_okD(1) [of c ls r] by (simp add: live_def not_le)

lemma runs_ok_cleanup:
  assumes "runs_ok c ls"
  shows "runs_ok (cleanupCompletedRunsLocked c) ls"
proof -
  have "currentRun (cleanupCompletedRunsLocked c) = currentRun c" if run: "running c"
  proof -
    obtain q where q: "currentRun c = Some q" using runs_okD(3) [OF assms run] by blast
    then have l: "live (ls q)" using runs_okD(2) [OF assms, of q] run by simp
    then have "ls q \<noteq> Exited" by (simp add: live_def)
    then have "\<not> completed c q" using completed_exited [OF assms live_allocated [OF assms l]] by simp
    then show ?thesis using cleanup_currentRun(2) [OF q] q by simp
  qed
  moreover have "r \<in> set (runs (cleanupCompletedRunsLocked c))"
    if "r < allocated c" "ls r \<noteq> Exited \<or> 0 < activeJobs (lifecycles c r)" for r
    using runs_okD(6) [OF assms that] completed_exited [OF assms that(1)] that(2)
    by (auto simp: cron_simps)
  ultimately show ?thesis
    using assms unfolding runs_ok_def by (auto simp: cron_simps)
qed

lemma enterRunning_simps:
  assumes "enterRunning c = (r, c')"
  shows "r = allocated c" "allocated c' = allocated c + 1" "channels c' = channels c + 1"
    "running c'" "currentRun c' = Some r" "runs c' = filter (\<lambda>q. \<not> completed c q) (runs c) @ [r]"
    "closed c' = closed c" "entries c' = entries c" "nextID c' = nextID c"
    "lifecycles c' = (lifecycles c)(r := \<lparr>schedulerCancelled = False, jobsCancelled = False,
       loopDone = channels c, jobsDone = None, activeJobs = 0\<rparr>)"
  using assms by (auto simp: enterRunning_def Let_def cron_simps)

lemma runs_ok_enter:
  assumes ok: "runs_ok c ls" and "\<not> running c" "enterRunning c = (r, c')"
  shows "runs_ok c' (ls(r := Init))"
proof (rule runs_okI)
  note e = enterRunning_simps [OF assms(3)]
  show "(ls(r := Init)) q = NotStarted \<longleftrightarrow> allocated c' \<le> q" for q
    using runs_okD(1) [OF ok, of q] by (auto simp: e)
  show "live ((ls(r := Init)) q) \<longleftrightarrow> running c' \<and> currentRun c' = Some q" for q
    using runs_okD(2) [OF ok, of q] assms(2) by (auto simp: e live_def)
  show "currentRun c' \<noteq> None" by (simp add: e)
  show "loopDone (lifecycles c' q) < channels c'" if "q < allocated c'" for q
    using that runs_okD(4) [OF ok, of q] by (auto simp: e less_Suc_eq)
  show "p = q" if "p < allocated c'" "q < allocated c'"
    "loopDone (lifecycles c' p) = loopDone (lifecycles c' q)" for p q
    using that runs_okD(4) [OF ok, of q] runs_okD(4) [OF ok, of p] runs_ok_inj [OF ok, of p q]
    by (auto simp: e less_Suc_eq split: if_splits)
  show "loopDone (lifecycles c' q) \<in> closed c' \<longleftrightarrow> (ls(r := Init)) q = Exited" if "q < allocated c'" for q
    using that runs_okD(5) [OF ok, of q] runs_okD(8) [OF ok, of "channels c"] by (auto simp: e less_Suc_eq)
  show "q \<in> set (runs c')"
    if "q < allocated c'" "(ls(r := Init)) q \<noteq> Exited \<or> 0 < activeJobs (lifecycles c' q)" for q
    using that runs_okD(6) [OF ok, of q] completed_exited [OF ok, of q] by (auto simp: e less_Suc_eq split: if_splits)
  show "q < allocated c'" if "q \<in> set (runs c')" for q
    using that runs_okD(7) [OF ok, of q] by (auto simp: e)
  show "x < channels c'" if "x \<in> closed c'" for x
    using that runs_okD(8) [OF ok, of x] by (simp add: e)
qed

lemma runs_ok_store:
  assumes ok: "runs_ok c ls" and r: "ls r = Returned_loop"
  shows "runs_ok (markStopped_store c) (ls(r := Stored))"
proof (rule runs_okI)
  note e = markStopped_store_def
  have lr: "running c" "currentRun c = Some r"
    using r runs_okD(2) [OF ok, of r] by (simp_all add: live_def)
  show "(ls(r := Stored)) q = NotStarted \<longleftrightarrow> allocated (markStopped_store c) \<le> q" for q
    using r runs_okD(1) [OF ok, of q] by (auto simp: e)
  show "live ((ls(r := Stored)) q) \<longleftrightarrow>
      running (markStopped_store c) \<and> currentRun (markStopped_store c) = Some q" for q
    using lr runs_okD(2) [OF ok, of q] by (auto simp: e live_def)
  show "loopDone (lifecycles (markStopped_store c) q) \<in> closed (markStopped_store c) \<longleftrightarrow>
      (ls(r := Stored)) q = Exited" if "q < allocated (markStopped_store c)" for q
    using that r runs_okD(5) [OF ok, of q] by (auto simp: e)
  show "q \<in> set (runs (markStopped_store c))" if "q < allocated (markStopped_store c)"
    "(ls(r := Stored)) q \<noteq> Exited \<or> 0 < activeJobs (lifecycles (markStopped_store c) q)" for q
    using that r runs_okD(6) [OF ok, of q] by (auto simp: e split: if_splits)
qed (use runs_okD(4,7,8) [OF ok] runs_ok_inj [OF ok] in \<open>simp_all add: markStopped_store_def\<close>)

lemma markStopped_close_Ret:
  assumes "runs_ok c ls" "ls r = Stored"
  shows "markStopped_close r c = Ret (c\<lparr>closed := insert (loopDone (lifecycles c r)) (closed c)\<rparr>)"
proof -
  have "r < allocated c" using assms runs_okD(1) [OF assms(1), of r] by (simp add: not_le)
  then show ?thesis
    using runs_okD(5) [OF assms(1)] assms(2) by (simp add: markStopped_close_def close_def)
qed

lemma runs_ok_close:
  assumes ok: "runs_ok c ls" and r: "ls r = Stored" and "markStopped_close r c = Ret c'"
  shows "runs_ok c' (ls(r := Exited))"
proof (rule runs_okI)
  have e: "c' = c\<lparr>closed := insert (loopDone (lifecycles c r)) (closed c)\<rparr>"
    using assms(3) markStopped_close_Ret [OF ok r] by simp
  have a: "r < allocated c" using r runs_okD(1) [OF ok, of r] by (simp add: not_le)
  show "(ls(r := Exited)) q = NotStarted \<longleftrightarrow> allocated c' \<le> q" for q
    using r runs_okD(1) [OF ok, of q] by (auto simp: e)
  show "live ((ls(r := Exited)) q) \<longleftrightarrow> running c' \<and> currentRun c' = Some q" for q
    using r runs_okD(2) [OF ok, of q] by (auto simp: e live_def)
  show "currentRun c' \<noteq> None" if "running c'" using that runs_okD(3) [OF ok] by (auto simp: e)
  show "loopDone (lifecycles c' q) \<in> closed c' \<longleftrightarrow> (ls(r := Exited)) q = Exited"
    if "q < allocated c'" for q
    using that a runs_okD(5) [OF ok, of q] runs_ok_inj [OF ok, of q r] by (auto simp: e)
  show "q \<in> set (runs c')"
    if "q < allocated c'" "(ls(r := Exited)) q \<noteq> Exited \<or> 0 < activeJobs (lifecycles c' q)" for q
    using that r runs_okD(6) [OF ok, of q] by (auto simp: e split: if_splits)
  show "x < channels c'" if "x \<in> closed c'" for x
    using that a runs_okD(8) [OF ok, of x] runs_okD(4) [OF ok, of r] by (auto simp: e)
  show "loopDone (lifecycles c' q) < channels c'" if "q < allocated c'" for q
    using that runs_okD(4) [OF ok, of q] by (simp add: e)
  show "p = q" if "p < allocated c'" "q < allocated c'"
    "loopDone (lifecycles c' p) = loopDone (lifecycles c' q)" for p q
    using that runs_ok_inj [OF ok, of p q] by (simp add: e)
  show "q < allocated c'" if "q \<in> set (runs c')" for q
    using that runs_okD(7) [OF ok, of q] by (simp add: e)
qed

text \<open>What matters to \<open>runs_ok\<close>.\<close>

lemma runs_ok_cong:
  assumes "allocated c' = allocated c" "running c' = running c" "currentRun c' = currentRun c"
    "runs c' = runs c" "closed c' = closed c" "channels c' = channels c"
    "\<And>q. loopDone (lifecycles c' q) = loopDone (lifecycles c q)"
    "\<And>q. activeJobs (lifecycles c' q) = activeJobs (lifecycles c q)"
  shows "runs_ok c' ls \<longleftrightarrow> runs_ok c ls"
  unfolding runs_ok_def by (simp add: assms)

lemma jobs_ok_cong:
  assumes "allocated c' = allocated c" "closed c' = closed c" "channels c' = channels c"
    "\<And>q. loopDone (lifecycles c' q) = loopDone (lifecycles c q)"
    "\<And>q. jobsDone (lifecycles c' q) = jobsDone (lifecycles c q)"
    "\<And>q. activeJobs (lifecycles c' q) = activeJobs (lifecycles c q)"
  shows "jobs_ok c' js \<longleftrightarrow> jobs_ok c js"
  unfolding jobs_ok_def by (simp add: assms)

lemma cancel_ok [simp]:
  "runs_ok (cancel_run b r c) ls = runs_ok c ls" "jobs_ok (cancel_run b r c) js = jobs_ok c js"
  by (rule runs_ok_cong jobs_ok_cong; simp add: cron_simps)+

lemma cancels_ok [simp]:
  "runs_ok (fold (cancel_run b) rs c) ls = runs_ok c ls"
  "jobs_ok (fold (cancel_run b) rs c) js = jobs_ok c js"
  by (rule runs_ok_cong jobs_ok_cong; simp add: cron_simps)+

lemma cleanup_jobs_ok [simp]: "jobs_ok (cleanupCompletedRunsLocked c) js = jobs_ok c js"
  by (rule jobs_ok_cong; simp add: cron_simps)

lemma store_jobs_ok [simp]: "jobs_ok (markStopped_store c) js = jobs_ok c js"
  by (rule jobs_ok_cong; simp add: markStopped_store_def)

lemma append_ok [simp]:
  "runs_ok (append_entry e c) ls = runs_ok c ls" "jobs_ok (append_entry e c) js = jobs_ok c js"
  "runs_ok (remove_directly k c) ls = runs_ok c ls" "jobs_ok (remove_directly k c) js = jobs_ok c js"
  by (rule runs_ok_cong jobs_ok_cong; simp add: append_entry_def remove_directly_def)+

lemma jobs_okD:
  assumes "jobs_ok c js"
  shows "js r = (if r < allocated c then activeJobs (lifecycles c r) else 0)"
    "r < allocated c \<Longrightarrow> jobsDone (lifecycles c r) = None \<longleftrightarrow> activeJobs (lifecycles c r) = 0"
    "r < allocated c \<Longrightarrow> jobsDone (lifecycles c r) = Some ch \<Longrightarrow> ch < channels c \<and> ch \<notin> closed c"
    "r < allocated c \<Longrightarrow> jobsDone (lifecycles c r) = Some ch \<Longrightarrow> q < allocated c \<Longrightarrow>
       loopDone (lifecycles c q) \<noteq> ch"
    "r < allocated c \<Longrightarrow> jobsDone (lifecycles c r) = Some ch \<Longrightarrow> q < allocated c \<Longrightarrow>
       jobsDone (lifecycles c q) = Some ch \<Longrightarrow> q = r"
  using assms unfolding jobs_ok_def by blast+

lemma jobs_okI:
  assumes "\<And>r. js r = (if r < allocated c then activeJobs (lifecycles c r) else 0)"
    "\<And>r. r < allocated c \<Longrightarrow> jobsDone (lifecycles c r) = None \<longleftrightarrow> activeJobs (lifecycles c r) = 0"
    "\<And>r ch. r < allocated c \<Longrightarrow> jobsDone (lifecycles c r) = Some ch \<Longrightarrow> ch < channels c \<and> ch \<notin> closed c"
    "\<And>r ch q. r < allocated c \<Longrightarrow> jobsDone (lifecycles c r) = Some ch \<Longrightarrow> q < allocated c \<Longrightarrow>
       loopDone (lifecycles c q) \<noteq> ch"
    "\<And>r ch q. r < allocated c \<Longrightarrow> jobsDone (lifecycles c r) = Some ch \<Longrightarrow> q < allocated c \<Longrightarrow>
       jobsDone (lifecycles c q) = Some ch \<Longrightarrow> q = r"
    "\<And>x. x \<in> closed c \<Longrightarrow> x < channels c"
  shows "jobs_ok c js"
  using assms unfolding jobs_ok_def by blast

lemma runs_ok_startJob:
  assumes ok: "runs_ok c ls" and r: "live (ls r)"
  shows "runs_ok (startJob r c) ls"
proof (rule runs_okI)
  have a: "r < allocated c" by (rule live_allocated [OF ok r])
  have m: "r \<in> set (runs c)" using runs_okD(6) [OF ok a] r by (auto simp: live_def)
  show "ls q = NotStarted \<longleftrightarrow> allocated (startJob r c) \<le> q" for q
    using runs_okD(1) [OF ok] by (simp add: cron_simps)
  show "live (ls q) \<longleftrightarrow> running (startJob r c) \<and> currentRun (startJob r c) = Some q" for q
    using runs_okD(2) [OF ok] by (simp add: cron_simps)
  show "currentRun (startJob r c) \<noteq> None" if "running (startJob r c)"
    using that runs_okD(3) [OF ok] by (auto simp: cron_simps)
  show "loopDone (lifecycles (startJob r c) q) < channels (startJob r c)"
    if "q < allocated (startJob r c)" for q
    using that runs_okD(4) [OF ok, of q] by (auto simp: cron_simps split: if_splits)
  show "p = q" if "p < allocated (startJob r c)" "q < allocated (startJob r c)"
    "loopDone (lifecycles (startJob r c) p) = loopDone (lifecycles (startJob r c) q)" for p q
    using that runs_ok_inj [OF ok, of p q] by (auto simp: cron_simps split: if_splits)
  show "loopDone (lifecycles (startJob r c) q) \<in> closed (startJob r c) \<longleftrightarrow> ls q = Exited"
    if "q < allocated (startJob r c)" for q
    using that runs_okD(5) [OF ok, of q] by (auto simp: cron_simps)
  show "q \<in> set (runs (startJob r c))" if "q < allocated (startJob r c)"
    "ls q \<noteq> Exited \<or> 0 < activeJobs (lifecycles (startJob r c) q)" for q
    using that m runs_okD(6) [OF ok, of q] by (auto simp: cron_simps split: if_splits)
  show "q < allocated (startJob r c)" if "q \<in> set (runs (startJob r c))" for q
    using that runs_okD(7) [OF ok, of q] by (simp add: cron_simps)
  show "x < channels (startJob r c)" if "x \<in> closed (startJob r c)" for x
    using that runs_okD(8) [OF ok, of x] by (auto simp: cron_simps)
qed

lemma jobs_ok_startJob:
  assumes ok: "jobs_ok c js" and rok: "runs_ok c ls" and a: "r < allocated c"
  shows "jobs_ok (startJob r c) (js(r := js r + 1))"
proof (rule jobs_okI)
  show "(js(r := js r + 1)) q =
      (if q < allocated (startJob r c) then activeJobs (lifecycles (startJob r c) q) else 0)" for q
    using a jobs_okD(1) [OF ok] by (auto simp: cron_simps)
  show "jobsDone (lifecycles (startJob r c) q) = None \<longleftrightarrow> activeJobs (lifecycles (startJob r c) q) = 0"
    if "q < allocated (startJob r c)" for q
    using that jobs_okD(2) [OF ok, of q] by (auto simp: cron_simps)
  show "ch < channels (startJob r c) \<and> ch \<notin> closed (startJob r c)"
    if "q < allocated (startJob r c)" "jobsDone (lifecycles (startJob r c) q) = Some ch" for q ch
    using that jobs_okD(3) [OF ok, of q ch] runs_okD(8) [OF rok, of "channels c"]
    by (auto simp: cron_simps split: if_splits)
  show "loopDone (lifecycles (startJob r c) p) \<noteq> ch"
    if "q < allocated (startJob r c)" "jobsDone (lifecycles (startJob r c) q) = Some ch"
      "p < allocated (startJob r c)" for q ch p
    using that jobs_okD(4) [OF ok, of q ch p] runs_okD(4) [OF rok, of p]
    by (auto simp: cron_simps split: if_splits)
  show "p = q"
    if "q < allocated (startJob r c)" "jobsDone (lifecycles (startJob r c) q) = Some ch"
      "p < allocated (startJob r c)" "jobsDone (lifecycles (startJob r c) p) = Some ch" for q ch p
    using that jobs_okD(5) [OF ok, of q ch p] jobs_okD(3) [OF ok, of q ch] jobs_okD(3) [OF ok, of p ch]
    by (auto simp: cron_simps split: if_splits)
  show "x < channels (startJob r c)" if "x \<in> closed (startJob r c)" for x
    using that runs_okD(8) [OF rok, of x] by (auto simp: cron_simps)
qed

text \<open>The effect of \<open>finishJob\<close> before its cleanup, in a state where its guard holds.\<close>

definition job_done :: "nat \<Rightarrow> 'j Cron \<Rightarrow> 'j Cron" where
  "job_done r c =
     (let l = lifecycles c r; last = (activeJobs l = 1)
      in c\<lparr>lifecycles := (lifecycles c)(r := l\<lparr>activeJobs := activeJobs l - 1,
               jobsDone := (if last then None else jobsDone l)\<rparr>),
           closed := (if last then closed c \<union> set_option (jobsDone l) else closed c)\<rparr>)"

lemma job_done_simps [cron_simps]:
  "allocated (job_done r c) = allocated c" "running (job_done r c) = running c"
  "currentRun (job_done r c) = currentRun c" "runs (job_done r c) = runs c"
  "channels (job_done r c) = channels c" "entries (job_done r c) = entries c"
  "nextID (job_done r c) = nextID c"
  "loopDone (lifecycles (job_done r c) q) = loopDone (lifecycles c q)"
  "activeJobs (lifecycles (job_done r c) q) =
     (if q = r then activeJobs (lifecycles c r) - 1 else activeJobs (lifecycles c q))"
  "jobsDone (lifecycles (job_done r c) q) =
     (if q = r \<and> activeJobs (lifecycles c r) = 1 then None else jobsDone (lifecycles c q))"
  "x \<in> closed (job_done r c) \<longleftrightarrow>
     x \<in> closed c \<or> (activeJobs (lifecycles c r) = 1 \<and> jobsDone (lifecycles c r) = Some x)"
  by (auto simp: job_done_def Let_def)

lemma finishJob_eq:
  assumes ok: "jobs_ok c js" and a: "r < allocated c" and p: "0 < activeJobs (lifecycles c r)"
  shows "finishJob r c = Ret (cleanupCompletedRunsLocked (job_done r c))"
proof -
  obtain ch where ch: "jobsDone (lifecycles c r) = Some ch" using jobs_okD(2) [OF ok a] p by auto
  have "ch \<notin> closed c" using jobs_okD(3) [OF ok a ch] by simp
  moreover have same: "(lifecycles c r)\<lparr>activeJobs := n, jobsDone := Some ch\<rparr> =
      (lifecycles c r)\<lparr>activeJobs := n\<rparr>" for n
    by (rule runLifecycle.equality) (simp_all add: ch)
  ultimately show ?thesis using ch p
    by (auto simp: finishJob_def job_done_def Let_def same close_def update_run_def
        intro!: arg_cong [of _ _ cleanupCompletedRunsLocked])
qed

lemma runs_ok_finishJob:
  assumes ok: "runs_ok c ls" and jok: "jobs_ok c js" and a: "r < allocated c"
    and p: "0 < activeJobs (lifecycles c r)" and f: "finishJob r c = Ret c'"
  shows "runs_ok c' ls"
proof -
  let ?c = "job_done r c"
  have "runs_ok ?c ls"
  proof (rule runs_okI)
    show "loopDone (lifecycles ?c q) \<in> closed ?c \<longleftrightarrow> ls q = Exited" if "q < allocated ?c" for q
      using that runs_okD(5) [OF ok, of q] jobs_okD(4) [OF jok a _, of _ q] by (auto simp: cron_simps)
    show "q \<in> set (runs ?c)" if "q < allocated ?c" "ls q \<noteq> Exited \<or> 0 < activeJobs (lifecycles ?c q)" for q
      using that p runs_okD(6) [OF ok, of q] by (auto simp: cron_simps split: if_splits)
    show "x < channels ?c" if "x \<in> closed ?c" for x
      using that runs_okD(8) [OF ok, of x] jobs_okD(3) [OF jok a, of x] by (auto simp: cron_simps)
    show "p = q" if "p < allocated ?c" "q < allocated ?c"
      "loopDone (lifecycles ?c p) = loopDone (lifecycles ?c q)" for p q
      using that runs_ok_inj [OF ok, of p q] by (simp add: cron_simps)
  qed (use runs_okD(1,2,3,4,7) [OF ok] in \<open>simp_all add: cron_simps\<close>)
  then show ?thesis using f finishJob_eq [OF jok a p] runs_ok_cleanup by auto
qed

lemma jobs_ok_finishJob:
  assumes jok: "jobs_ok c js" and a: "r < allocated c"
    and p: "0 < activeJobs (lifecycles c r)" and f: "finishJob r c = Ret c'"
  shows "jobs_ok c' (js(r := js r - 1))"
proof -
  let ?c = "job_done r c"
  have "jobs_ok ?c (js(r := js r - 1))"
  proof (rule jobs_okI)
    show "(js(r := js r - 1)) q = (if q < allocated ?c then activeJobs (lifecycles ?c q) else 0)" for q
      using a jobs_okD(1) [OF jok] by (auto simp: cron_simps)
    show "jobsDone (lifecycles ?c q) = None \<longleftrightarrow> activeJobs (lifecycles ?c q) = 0" if "q < allocated ?c" for q
      using that p jobs_okD(2) [OF jok, of q] by (auto simp: cron_simps)
    show "ch < channels ?c \<and> ch \<notin> closed ?c"
      if "q < allocated ?c" "jobsDone (lifecycles ?c q) = Some ch" for q ch
      using that a jobs_okD(3) [OF jok, of q ch] jobs_okD(5) [OF jok, of r ch q]
      by (auto simp: cron_simps split: if_splits)
    show "loopDone (lifecycles ?c x) \<noteq> ch"
      if "q < allocated ?c" "jobsDone (lifecycles ?c q) = Some ch" "x < allocated ?c" for q ch x
      using that jobs_okD(4) [OF jok, of q ch x] by (auto simp: cron_simps split: if_splits)
    show "x = q"
      if "q < allocated ?c" "jobsDone (lifecycles ?c q) = Some ch" "x < allocated ?c"
        "jobsDone (lifecycles ?c x) = Some ch" for q ch x
      using that jobs_okD(5) [OF jok, of q ch x] by (auto simp: cron_simps split: if_splits)
    show "x < channels ?c" if "x \<in> closed ?c" for x
      using that jok jobs_okD(3) [OF jok a, of x] by (auto simp: cron_simps jobs_ok_def)
  qed
  then show ?thesis using f finishJob_eq [OF jok a p] by auto
qed

subsection \<open>The invariant holds in every reachable state\<close>

lemma jobs_ok_close:
  assumes ok: "runs_ok c ls" and jok: "jobs_ok c js" and r: "ls r = Stored"
    and f: "markStopped_close r c = Ret c'"
  shows "jobs_ok c' js"
proof (rule jobs_okI)
  have e: "c' = c\<lparr>closed := insert (loopDone (lifecycles c r)) (closed c)\<rparr>"
    using f markStopped_close_Ret [OF ok r] by simp
  have a: "r < allocated c" using r runs_okD(1) [OF ok, of r] by (simp add: not_le)
  show "ch < channels c' \<and> ch \<notin> closed c'"
    if "q < allocated c'" "jobsDone (lifecycles c' q) = Some ch" for q ch
    using that a jobs_okD(3) [OF jok, of q ch] jobs_okD(4) [OF jok, of q ch r] by (auto simp: e)
  show "x < channels c'" if "x \<in> closed c'" for x
    using that a runs_okD(8) [OF ok, of x] runs_okD(4) [OF ok a] by (auto simp: e)
  show "x = q" if "q < allocated c'" "jobsDone (lifecycles c' q) = Some ch" "x < allocated c'"
    "jobsDone (lifecycles c' x) = Some ch" for q ch x
    using that jobs_okD(5) [OF jok, of q ch x] by (simp add: e)
  show "loopDone (lifecycles c' x) \<noteq> ch"
    if "q < allocated c'" "jobsDone (lifecycles c' q) = Some ch" "x < allocated c'" for q ch x
    using that jobs_okD(4) [OF jok, of q ch x] by (simp add: e)
qed (use jobs_okD(1,2) [OF jok] f markStopped_close_Ret [OF ok r] in auto)

lemma jobs_ok_enter:
  assumes ok: "runs_ok c ls" and jok: "jobs_ok c js" and r: "enterRunning c = (r, c')"
  shows "jobs_ok c' js"
proof (rule jobs_okI)
  note e = enterRunning_simps [OF r]
  show "js q = (if q < allocated c' then activeJobs (lifecycles c' q) else 0)" for q
    using jobs_okD(1) [OF jok, of q] by (auto simp: e less_Suc_eq)
  show "jobsDone (lifecycles c' q) = None \<longleftrightarrow> activeJobs (lifecycles c' q) = 0" if "q < allocated c'" for q
    using that jobs_okD(2) [OF jok, of q] by (auto simp: e less_Suc_eq)
  show "ch < channels c' \<and> ch \<notin> closed c'"
    if "q < allocated c'" "jobsDone (lifecycles c' q) = Some ch" for q ch
    using that jobs_okD(3) [OF jok, of q ch] by (auto simp: e less_Suc_eq split: if_splits)
  show "loopDone (lifecycles c' x) \<noteq> ch"
    if "q < allocated c'" "jobsDone (lifecycles c' q) = Some ch" "x < allocated c'" for q ch x
    using that jobs_okD(3) [OF jok, of q ch] jobs_okD(4) [OF jok, of q ch x]
    by (auto simp: e less_Suc_eq split: if_splits)
  show "x = q" if "q < allocated c'" "jobsDone (lifecycles c' q) = Some ch" "x < allocated c'"
    "jobsDone (lifecycles c' x) = Some ch" for q ch x
    using that jobs_okD(5) [OF jok, of q ch x] by (auto simp: e less_Suc_eq split: if_splits)
  show "x < channels c'" if "x \<in> closed c'" for x
    using that runs_okD(8) [OF ok, of x] by (simp add: e)
qed

lemma entries_update_ok [simp]:
  "runs_ok (c\<lparr>entries := es\<rparr>) ls = runs_ok c ls" "jobs_ok (c\<lparr>entries := es\<rparr>) js = jobs_ok c js"
  "runs_ok (c\<lparr>nextID := n\<rparr>) ls = runs_ok c ls" "jobs_ok (c\<lparr>nextID := n\<rparr>) js = jobs_ok c js"
  "runs_ok (c\<lparr>nextID := n, entries := es\<rparr>) ls = runs_ok c ls"
  "jobs_ok (c\<lparr>nextID := n, entries := es\<rparr>) js = jobs_ok c js"
  by (simp_all add: runs_ok_def jobs_ok_def)

lemma scheduleEntry_cases:
  assumes "scheduleEntry name sched cmd c = Ret (e, w, c')"
  shows "runs_ok c' ls = runs_ok c ls" "jobs_ok c' js = jobs_ok c js"
  using assms
  by (auto simp: scheduleEntry_def Let_def and_then_eq_Ret split: if_splits)

lemma Remove_cases:
  assumes "Remove k c = Ret (w, c')"
  shows "runs_ok c' ls = runs_ok c ls" "jobs_ok c' js = jobs_ok c js"
  using assms
  by (auto simp: Remove_def and_then_eq_Ret split: if_splits)

lemma stopRuns_cases:
  assumes "stopRuns b c = (rs, c')" "runs_ok c ls" "jobs_ok c js"
  shows "runs_ok c' ls" "jobs_ok c' js"
  using assms runs_ok_cleanup by (auto simp: stopRuns_def Let_def)

lemma waitForRunJobs_cases:
  assumes "waitForRunJobs r c = (w, c')" "runs_ok c ls" "jobs_ok c js"
  shows "runs_ok c' ls" "jobs_ok c' js"
  using assms runs_ok_cleanup by (auto simp: waitForRunJobs_def split: if_splits)

definition system_ok :: "'j system \<Rightarrow> bool" where
  "system_ok s \<longleftrightarrow> runs_ok (cron s) (loops s) \<and> jobs_ok (cron s) (jobs s)"

lemma live_simps [simp]:
  "live Init" "live (Select t)" "live (Due t k)" "live (Adding e)" "live (Removing i)" "live Returned_loop" "\<not> live NotStarted"
  "\<not> live Stored" "\<not> live Exited"
  by (simp_all add: live_def)

lemma loop_step_ok:
  assumes "loop_step s s'" "system_ok s"
  shows "system_ok s'"
  using assms
proof (induction rule: loop_step.induct)
  case (run_due s r now k e t)
  then have ok: "runs_ok (cron s) (loops s)" "jobs_ok (cron s) (jobs s)" by (simp_all add: system_ok_def)
  let ?c = "set_entries ((entries (cron s))[k := e\<lparr>Prev := Next e, Next := t\<rparr>]) (cron s)"
  have l: "live (loops s r)" using run_due by simp
  have "runs_ok (startJob r ?c) (loops s)" by (rule runs_ok_startJob) (simp_all add: ok l)
  then have "runs_ok (startJob r ?c) ((loops s)(r := Due now (k + 1)))"
    by (intro runs_ok_phase l) simp_all
  moreover have "jobs_ok (startJob r ?c) ((jobs s)(r := jobs s r + 1))"
    by (rule jobs_ok_startJob [where ls = "loops s"])
      (use ok live_allocated [OF ok(1) l] in \<open>simp_all add: cron_simps\<close>)
  ultimately show ?case by (simp add: system_ok_def)
next
  case (job_end s r c)
  then have ok: "runs_ok (cron s) (loops s)" "jobs_ok (cron s) (jobs s)" by (simp_all add: system_ok_def)
  have a: "r < allocated (cron s)" "0 < activeJobs (lifecycles (cron s) r)"
    using job_end.hyps(1) jobs_okD(1) [OF ok(2), of r] by (simp_all split: if_splits)
  show ?case
    using runs_ok_finishJob [OF ok a job_end.hyps(2)] jobs_ok_finishJob [OF ok(2) a job_end.hyps(2)]
    by (simp add: system_ok_def)
qed (auto simp: system_ok_def runs_ok_phase runs_ok_store intro: runs_ok_close jobs_ok_close)

lemma rendezvous_ok: "rendezvous s s' \<Longrightarrow> system_ok s \<Longrightarrow> system_ok s'"
  by (induction rule: rendezvous.induct) (simp_all add: system_ok_def runs_ok_phase)

lemma client_step_ok:
  assumes "client_step s s'" "system_ok s"
  shows "system_ok s'"
  using assms
proof (induction rule: client_step.induct)
  case (start s r c)
  then have "\<not> running (cron s)" "enterRunning (cron s) = (r, c)"
    by (auto simp: start_run_def split: if_splits)
  with start show ?case using runs_ok_enter jobs_ok_enter by (auto simp: system_ok_def)
next
  case (run s i r c)
  then have "\<not> running (cron s)" "enterRunning (cron s) = (r, c)" by (auto simp: Run_def split: if_splits)
  with run show ?case using runs_ok_enter jobs_ok_enter by (auto simp: system_ok_def)
qed (auto simp: system_ok_def dest: scheduleEntry_cases Remove_cases stopRuns_cases waitForRunJobs_cases)

lemma initial_ok: "system_ok (initial ch)"
  by (simp add: system_ok_def initial_def new_cron_def runs_ok_def jobs_ok_def)

lemma reachable_ok: "reachable ch s \<Longrightarrow> system_ok s"
  by (induction rule: reachable_induct) (auto simp: initial_ok loop_step_ok rendezvous_ok client_step_ok)

end
