(* ===== verification/Cron_Stop.thy ===== *)
theory Cron_Stop
  imports Cron_System
begin

text \<open>
  What \<open>Stop\<close> and \<open>Shutdown\<close> guarantee: when they return nil, the goroutines of every run that
  had been started before are gone, scheduler and jobs, and none of them comes back. The proof
  follows a client through its waits; \<open>progress\<close> is what any step of anybody keeps of what it
  has seen.
\<close>

definition quiet :: "'j system \<Rightarrow> nat \<Rightarrow> bool" where
  "quiet s r \<longleftrightarrow> loops s r = Exited \<and> jobs s r = 0"

definition progress :: "'j system \<Rightarrow> 'j system \<Rightarrow> bool" where
  "progress s s' \<longleftrightarrow>
     allocated (cron s) \<le> allocated (cron s') \<and> closed (cron s) \<subseteq> closed (cron s') \<and>
     (\<forall>r. loops s r = Exited \<longrightarrow> loops s' r = Exited \<and> jobs s' r \<le> jobs s r \<and>
       (\<forall>ch. jobsDone (lifecycles (cron s) r) = Some ch \<longrightarrow>
          jobsDone (lifecycles (cron s') r) = Some ch \<or> (ch \<in> closed (cron s') \<and> jobs s' r = 0)))"

lemma progressD:
  assumes "progress s s'"
  shows "allocated (cron s) \<le> allocated (cron s')"
    "x \<in> closed (cron s) \<Longrightarrow> x \<in> closed (cron s')"
    "loops s r = Exited \<Longrightarrow> loops s' r = Exited"
    "loops s r = Exited \<Longrightarrow> jobs s' r \<le> jobs s r"
    "quiet s r \<Longrightarrow> quiet s' r"
    "loops s r = Exited \<Longrightarrow> jobsDone (lifecycles (cron s) r) = Some ch \<Longrightarrow>
       jobsDone (lifecycles (cron s') r) = Some ch \<or> (ch \<in> closed (cron s') \<and> jobs s' r = 0)"
  using assms unfolding progress_def quiet_def by (blast | fastforce)+

lemma exited_allocated: "system_ok s \<Longrightarrow> loops s r = Exited \<Longrightarrow> r < allocated (cron s)"
  using runs_okD(1) [of "cron s" "loops s" r] by (simp add: system_ok_def not_le)

lemma progress_same:
  assumes "allocated (cron s') = allocated (cron s)" "closed (cron s') = closed (cron s)"
    "\<And>r. jobsDone (lifecycles (cron s') r) = jobsDone (lifecycles (cron s) r)"
    "jobs s' = jobs s" "\<And>r. loops s r = Exited \<Longrightarrow> loops s' r = Exited"
  shows "progress s s'"
  using assms by (simp add: progress_def)

lemma loop_step_progress:
  assumes "loop_step s s'" "system_ok s"
  shows "progress s s'"
  using assms
proof (induction rule: loop_step.induct)
  case (run_due s r now k e t)
  then show ?case by (auto simp: progress_def cron_simps)
next
  case (mark_close s r c)
  then have "c = (cron s)\<lparr>closed := insert (loopDone (lifecycles (cron s) r)) (closed (cron s))\<rparr>"
    using markStopped_close_Ret [of "cron s" "loops s" r] by (simp add: system_ok_def)
  with mark_close show ?case by (auto simp: progress_def)
next
  case (job_end s r c)
  then have jok: "jobs_ok (cron s) (jobs s)" by (simp add: system_ok_def)
  have a: "r < allocated (cron s)" "0 < activeJobs (lifecycles (cron s) r)"
    and j: "jobs s r = activeJobs (lifecycles (cron s) r)"
    using job_end.hyps(1) jobs_okD(1) [OF jok, of r] by (simp_all split: if_splits)
  have "c = cleanupCompletedRunsLocked (job_done r (cron s))"
    using job_end.hyps(2) finishJob_eq [OF jok a] by simp
  then show ?case using j by (auto simp: progress_def cron_simps)
qed (auto intro!: progress_same simp: cron_simps markStopped_store_def split: if_splits)

lemma rendezvous_progress: "rendezvous s s' \<Longrightarrow> progress s s'"
  by (induction rule: rendezvous.induct) (auto intro!: progress_same simp: cron_simps)

lemma scheduleEntry_same:
  assumes "scheduleEntry name sched cmd c = Ret (e, w, c')"
  shows "allocated c' = allocated c" "closed c' = closed c" "lifecycles c' = lifecycles c"
    "channels c' = channels c" "nextID c' = nextID c + 1" "ID e = nextID c + 1"
    "entries c' = (if w = None then entries c @ [e] else entries c)"
  using assms by (auto simp: scheduleEntry_def Let_def and_then_eq_Ret split: if_splits)

lemma Remove_same:
  assumes "Remove k c = Ret (w, c')"
  shows "allocated c' = allocated c" "closed c' = closed c" "lifecycles c' = lifecycles c"
    "channels c' = channels c" "nextID c' = nextID c"
    "entries c' = (if w = None then removeEntry k (entries c) else entries c)"
  using assms by (auto simp: Remove_def and_then_eq_Ret split: if_splits)

lemma stopRuns_same:
  assumes "stopRuns b c = (rs, c')"
  shows "allocated c' = allocated c" "closed c' = closed c" "entries c' = entries c" "nextID c' = nextID c"
    "jobsDone (lifecycles c' q) = jobsDone (lifecycles c q)"
    "rs = filter (\<lambda>r. \<not> completed c r) (runs c)"
  using assms by (auto simp: stopRuns_def Let_def cron_simps)

lemma waitForRunJobs_same:
  assumes "waitForRunJobs r c = (w, c')"
  shows "allocated c' = allocated c" "closed c' = closed c" "entries c' = entries c" "nextID c' = nextID c"
    "lifecycles c' = lifecycles c"
    "w = (if activeJobs (lifecycles c r) = 0 then None else jobsDone (lifecycles c r))"
  using assms by (auto simp: waitForRunJobs_def cron_simps split: if_splits)

lemma client_step_progress:
  assumes "client_step s s'" "system_ok s"
  shows "progress s s'"
  using assms
proof (induction rule: client_step.induct)
  case (start s r c)
  then have e: "enterRunning (cron s) = (r, c)" by (auto simp: start_run_def split: if_splits)
  show ?case
    using exited_allocated [OF start.prems] by (fastforce simp: progress_def enterRunning_simps [OF e])
next
  case (run s i r c)
  then have e: "enterRunning (cron s) = (r, c)" by (auto simp: Run_def split: if_splits)
  show ?case
    using exited_allocated [OF run.prems] by (fastforce simp: progress_def enterRunning_simps [OF e])
qed (auto intro!: progress_same simp: cron_simps append_entry_def remove_directly_def
    dest: scheduleEntry_same Remove_same stopRuns_same waitForRunJobs_same)

subsection \<open>A client in Stop\<close>

text \<open>Of the first \<open>n\<close> runs, those that are not in \<open>cap\<close> are quiet.\<close>

definition covers :: "'j system \<Rightarrow> nat list \<Rightarrow> nat \<Rightarrow> bool" where
  "covers s cap n \<longleftrightarrow> (\<forall>r < n. r \<notin> set cap \<longrightarrow> quiet s r)"

definition within :: "'j system \<Rightarrow> nat set \<Rightarrow> nat list \<Rightarrow> bool" where
  "within s rs cap \<longleftrightarrow> rs \<subseteq> set cap \<and> (\<forall>r \<in> set cap. r < allocated (cron s))"

text \<open>The loops of these runs have ended; these runs are quiet.\<close>

definition all_exited :: "'j system \<Rightarrow> nat set \<Rightarrow> bool" where
  "all_exited s rs \<longleftrightarrow> (\<forall>r \<in> rs. loops s r = Exited)"

definition all_quiet :: "'j system \<Rightarrow> nat set \<Rightarrow> bool" where
  "all_quiet s rs \<longleftrightarrow> (\<forall>r \<in> rs. quiet s r)"

text \<open>The channel is the one of the run's jobs, unless the run is quiet and the channel closed.\<close>

definition awaits :: "'j system \<Rightarrow> nat \<Rightarrow> nat \<Rightarrow> bool" where
  "awaits s ch r \<longleftrightarrow>
     jobsDone (lifecycles (cron s) r) = Some ch \<or> (quiet s r \<and> ch \<in> closed (cron s))"

fun client_ok :: "'j system \<Rightarrow> 'j client \<Rightarrow> bool" where
  "client_ok s (LoopsWait rs cap n) \<longleftrightarrow>
     covers s cap n \<and> within s (set rs) cap \<and> all_exited s (set cap - set rs)"
| "client_ok s (JobsWait rs cap n) \<longleftrightarrow>
     covers s cap n \<and> within s (set rs) cap \<and> all_exited s (set cap) \<and> all_quiet s (set cap - set rs)"
| "client_ok s (JobsChan ch r rs cap n) \<longleftrightarrow>
     covers s cap n \<and> within s (insert r (set rs)) cap \<and> all_exited s (set cap) \<and>
     all_quiet s (set cap - insert r (set rs)) \<and> awaits s ch r"
| "client_ok s (StopOk cap n) \<longleftrightarrow> covers s cap n \<and> all_quiet s (set cap)"
| "client_ok s c \<longleftrightarrow> True"

lemma covers_progress: "progress s s' \<Longrightarrow> covers s cap n \<Longrightarrow> covers s' cap n"
  using progressD(5) unfolding covers_def by blast

lemma within_progress: "progress s s' \<Longrightarrow> within s rs cap \<Longrightarrow> within s' rs cap"
  using progressD(1) [of s s'] unfolding within_def by fastforce

lemma exited_progress: "progress s s' \<Longrightarrow> all_exited s rs \<Longrightarrow> all_exited s' rs"
  using progressD(3) unfolding all_exited_def by blast

lemma quiet_progress: "progress s s' \<Longrightarrow> all_quiet s rs \<Longrightarrow> all_quiet s' rs"
  using progressD(5) unfolding all_quiet_def by blast

lemma awaits_progress:
  assumes "progress s s'" "loops s r = Exited" "awaits s ch r"
  shows "awaits s' ch r"
proof (cases "jobsDone (lifecycles (cron s) r) = Some ch")
  case True
  then show ?thesis
    using progressD(6) [OF assms(1,2)] progressD(3) [OF assms(1,2)] by (auto simp: awaits_def quiet_def)
next
  case False
  then have "quiet s r" "ch \<in> closed (cron s)" using assms(3) by (auto simp: awaits_def)
  then show ?thesis using progressD(2,5) [OF assms(1)] by (simp add: awaits_def)
qed

lemma client_ok_progress:
  assumes p: "progress s s'" and c: "client_ok s c"
  shows "client_ok s' c"
proof (cases c)
  case (JobsChan ch r rs cap n)
  then have "loops s r = Exited" using c by (simp add: within_def all_exited_def)
  then show ?thesis
    using c JobsChan p by (simp add: covers_progress within_progress exited_progress quiet_progress awaits_progress)
qed (use c p in \<open>simp_all add: covers_progress within_progress exited_progress quiet_progress\<close>)

definition clients_ok :: "'j system \<Rightarrow> bool" where
  "clients_ok s \<longleftrightarrow> (\<forall>i. client_ok s (clients s i))"

text \<open>A step moves one client at most; the others keep what they know.\<close>

lemma clients_ok_step:
  assumes "clients_ok s" "progress s s'" "clients s' = (clients s)(i := c)" "client_ok s' c"
  shows "clients_ok s'"
  unfolding clients_ok_def
proof
  fix j
  show "client_ok s' (clients s' j)"
    using assms client_ok_progress [OF assms(2)] by (cases "j = i") (auto simp: clients_ok_def)
qed

lemma clients_ok_stutter:
  assumes "clients_ok s" "progress s s'" "clients s' = clients s"
  shows "clients_ok s'"
  using assms client_ok_progress [OF assms(2)] by (simp add: clients_ok_def)

lemma client_ok_simps:
  "client_ok s Idle" "client_ok s (AddWait e ch)" "client_ok s (RemoveWait k ch)"
  "client_ok s (EntriesWait ch)" "client_ok s (InRun r)" "client_ok s StopErr"
  by simp_all

lemma loop_step_clients: "loop_step s s' \<Longrightarrow> clients s' = clients s"
  by (induction rule: loop_step.induct) simp_all

lemma rendezvous_clients:
  "rendezvous s s' \<Longrightarrow> \<exists>i. clients s' = (clients s)(i := Idle)"
  by (induction rule: rendezvous.induct) auto

lemma completed_quiet:
  assumes "system_ok s" "r < allocated (cron s)" "completed (cron s) r"
  shows "quiet s r"
  using assms completed_exited [of "cron s" "loops s" r] jobs_okD(1) [of "cron s" "jobs s" r]
  by (simp add: system_ok_def quiet_def)

lemma not_listed_quiet:
  assumes "system_ok s" "r < allocated (cron s)" "r \<notin> set (runs (cron s))"
  shows "quiet s r"
proof -
  have "\<not> (loops s r \<noteq> Exited \<or> 0 < activeJobs (lifecycles (cron s) r))"
    using assms runs_okD(6) [of "cron s" "loops s" r] unfolding system_ok_def by blast
  then show ?thesis
    using assms jobs_okD(1) [of "cron s" "jobs s" r] by (simp add: system_ok_def quiet_def)
qed

lemma exited_iff: "system_ok s \<Longrightarrow> r < allocated (cron s) \<Longrightarrow>
  isClosed (cron s) (loopDone (lifecycles (cron s) r)) \<longleftrightarrow> loops s r = Exited"
  using runs_okD(5) [of "cron s" "loops s" r] by (simp add: system_ok_def isClosed_def)

text \<open>What a client of \<open>Stop\<close> or \<open>Shutdown\<close> knows after each of its steps.\<close>

lemma stopRuns_waits:
  assumes "system_ok s" "stopRuns b (cron s) = (rs, c)"
  shows "client_ok s (LoopsWait rs rs (allocated (cron s)))"
proof -
  note rs = stopRuns_same(6) [OF assms(2)]
  have "covers s rs (allocated (cron s))"
    using completed_quiet [OF assms(1)] not_listed_quiet [OF assms(1)] by (auto simp: covers_def rs)
  moreover have "within s (set rs) rs"
    using assms(1) runs_okD(7) [of "cron s" "loops s"] by (auto simp: rs system_ok_def within_def)
  ultimately show ?thesis by (simp add: all_exited_def)
qed

lemma loop_gone_waits:
  assumes "system_ok s" "client_ok s (LoopsWait (r # rs) cap n)"
    and "waitForRunChannel (cron s) (Some (loopDone (lifecycles (cron s) r))) True"
  shows "client_ok s (LoopsWait rs cap n)"
proof -
  have "r < allocated (cron s)" using assms(2) by (auto simp: within_def)
  then have "loops s r = Exited" using exited_iff [OF assms(1)] assms(3) by simp
  then show ?thesis using assms(2) by (auto simp: within_def all_exited_def)
qed

lemma jobs_check_waits:
  assumes "system_ok s" "client_ok s (JobsWait (r # rs) cap n)" "waitForRunJobs r (cron s) = (u, c)"
  shows "client_ok s (case u of None \<Rightarrow> JobsWait rs cap n | Some ch \<Rightarrow> JobsChan ch r rs cap n)"
proof -
  have r: "r < allocated (cron s)" "loops s r = Exited" using assms(2) by (auto simp: within_def all_exited_def)
  have u: "u = (if activeJobs (lifecycles (cron s) r) = 0 then None else jobsDone (lifecycles (cron s) r))"
    using waitForRunJobs_same(6) [OF assms(3)] .
  have a: "jobs s r = activeJobs (lifecycles (cron s) r)"
    "jobsDone (lifecycles (cron s) r) = None \<longleftrightarrow> activeJobs (lifecycles (cron s) r) = 0"
    using assms(1) r(1) jobs_okD(1,2) [of "cron s" "jobs s" r] by (simp_all add: system_ok_def)
  show ?thesis
  proof (cases u)
    case None
    then have "quiet s r" using u a r(2) by (simp add: quiet_def split: if_splits)
    then show ?thesis using assms(2) None by (auto simp: within_def all_quiet_def)
  next
    case (Some ch)
    then have "awaits s ch r" using u by (simp add: awaits_def split: if_splits)
    then show ?thesis using assms(2) Some by (auto simp: within_def all_quiet_def)
  qed
qed

lemma jobs_gone_waits:
  assumes "system_ok s" "client_ok s (JobsChan ch r rs cap n)" "waitForRunChannel (cron s) (Some ch) True"
  shows "client_ok s (JobsWait rs cap n)"
proof -
  have "r < allocated (cron s)" using assms(2) by (auto simp: within_def)
  then have "jobsDone (lifecycles (cron s) r) \<noteq> Some ch"
    using assms(1,3) jobs_okD(3) [of "cron s" "jobs s" r ch] by (auto simp: system_ok_def isClosed_def)
  then have "quiet s r" using assms(2) by (simp add: awaits_def)
  then show ?thesis using assms(2) by (auto simp: within_def all_quiet_def)
qed

lemma client_step_clients:
  assumes step: "client_step s s'" and ok: "system_ok s" and inv: "clients_ok s"
  shows "clients_ok s'"
proof -
  note p = client_step_progress [OF step ok]
  have c: "client_ok s (clients s i)" for i using inv by (simp add: clients_ok_def)
  have moved: "clients_ok s'" if "clients s' = (clients s)(i := d)" "client_ok s d" for i d
    by (rule clients_ok_step [OF inv p that(1) client_ok_progress [OF p that(2)]])
  note kept = clients_ok_stutter [OF inv p]
  from step show ?thesis
  proof cases
    case (stop i b rs d)
    then show ?thesis using stopRuns_waits [OF ok stop(3)] by (intro moved [of i]) auto
  next
    case (loop_gone i r rs cap n)
    then show ?thesis using loop_gone_waits [OF ok _ loop_gone(3)] c [of i] by (intro moved [of i]) auto
  next
    case (loops_gone i cap n)
    then show ?thesis using c [of i] by (intro moved [of i]) (auto simp: within_def all_quiet_def)
  next
    case (jobs_check i r rs cap n u d)
    then show ?thesis using jobs_check_waits [OF ok _ jobs_check(3)] c [of i] by (intro moved [of i]) auto
  next
    case (jobs_gone i ch r rs cap n)
    then show ?thesis using jobs_gone_waits [OF ok _ jobs_gone(3)] c [of i] by (intro moved [of i]) auto
  next
    case (stop_ok i cap n)
    then show ?thesis using c [of i] by (intro moved [of i]) auto
  next
    case (start r d)
    then show ?thesis by (intro kept) simp
  next
    case (cancel r)
    then show ?thesis by (intro kept) simp
  qed (rule moved, simp, simp split: option.splits sum.splits)+
qed

lemma initial_clients_ok: "clients_ok (initial ch)"
  by (simp add: clients_ok_def initial_def)

lemma reachable_clients_ok:
  assumes "reachable ch s"
  shows "clients_ok s"
  using assms
proof (induction rule: reachable_induct)
  case initial
  show ?case by (rule initial_clients_ok)
next
  case (loop s s')
  show ?case
    by (rule clients_ok_stutter [OF loop.IH loop_step_progress [OF loop.hyps(2) reachable_ok [OF loop.hyps(1)]]
          loop_step_clients [OF loop.hyps(2)]])
next
  case (meet s s')
  obtain i where i: "clients s' = (clients s)(i := Idle)" using rendezvous_clients [OF meet.hyps(2)] by blast
  show ?case by (rule clients_ok_step [OF meet.IH rendezvous_progress [OF meet.hyps(2)] i]) simp
next
  case (client s s')
  show ?case by (rule client_step_clients [OF client.hyps(2) reachable_ok [OF client.hyps(1)] client.IH])
qed

end
