(* ===== verification/Cron_Properties.thy ===== *)
theory Cron_Properties
  imports Cron_Stop
begin

text \<open>
  The properties of a \<open>Cron\<close> under every interleaving: one scheduler loop at a time, no nil
  dereference and no double close, unique entry IDs, the guarantee of \<open>Stop\<close>; and the
  interleaving in which an entry is added behind the back of a running scheduler and never
  scheduled.
\<close>

subsection \<open>Entry IDs\<close>

definition ids :: "'j Entry list \<Rightarrow> int set" where
  "ids es = ID ` set es"

text \<open>The entry a client waits to add, and the entry a loop has received and not yet added.\<close>

definition to_add :: "'j system \<Rightarrow> nat + nat \<Rightarrow> 'j Entry option" where
  "to_add s x = (case x of
     Inl i \<Rightarrow> (case clients s i of AddWait e ch \<Rightarrow> Some e | _ \<Rightarrow> None)
   | Inr r \<Rightarrow> (case loops s r of Adding e \<Rightarrow> Some e | _ \<Rightarrow> None))"

lemma to_add_simps:
  "to_add s (Inl i) = Some e \<longleftrightarrow> (\<exists>ch. clients s i = AddWait e ch)"
  "to_add s (Inr r) = Some e \<longleftrightarrow> loops s r = Adding e"
  by (auto simp: to_add_def split: client.splits loop_phase.splits)

text \<open>The IDs of the entries, and of those about to be added, are distinct and issued.\<close>

definition ids_ok :: "'j system \<Rightarrow> bool" where
  "ids_ok s \<longleftrightarrow>
     distinct (map ID (entries (cron s))) \<and> ids (entries (cron s)) \<subseteq> {1..nextID (cron s)} \<and>
     0 \<le> nextID (cron s) \<and>
     (\<forall>x e. to_add s x = Some e \<longrightarrow>
        1 \<le> ID e \<and> ID e \<le> nextID (cron s) \<and> ID e \<notin> ids (entries (cron s))) \<and>
     (\<forall>x y e f. to_add s x = Some e \<longrightarrow> to_add s y = Some f \<longrightarrow> ID e = ID f \<longrightarrow> x = y)"

lemma ids_ok_pending:
  "ids_ok s \<Longrightarrow> to_add s x = Some e \<Longrightarrow>
   1 \<le> ID e \<and> ID e \<le> nextID (cron s) \<and> ID e \<notin> ids (entries (cron s))"
  "ids_ok s \<Longrightarrow> to_add s x = Some e \<Longrightarrow> to_add s y = Some f \<Longrightarrow> ID e = ID f \<Longrightarrow> x = y"
  unfolding ids_ok_def by blast+

lemma ids_ok_entries:
  "ids_ok s \<Longrightarrow> distinct (map ID (entries (cron s)))"
  "ids_ok s \<Longrightarrow> ids (entries (cron s)) \<subseteq> {1..nextID (cron s)}" "ids_ok s \<Longrightarrow> 0 \<le> nextID (cron s)"
  unfolding ids_ok_def by blast+

lemma initializeEntries_ids: "initializeEntries now es = Ret es' \<Longrightarrow> map ID es' = map ID es"
  by (induction es arbitrary: es') (auto simp: and_then_eq_Ret)

lemma ids_map: "map ID es' = map ID es \<Longrightarrow> ids es' = ids es"
  unfolding ids_def by (metis list.set_map)

lemma sort_ids [simp]:
  "distinct (map ID (sortEntriesByNext es)) \<longleftrightarrow> distinct (map ID es)"
  "ids (sortEntriesByNext es) = ids es"
proof -
  have m: "mset (sortEntriesByNext es) = mset es" by (simp add: sortEntriesByNext_key)
  then have "mset (map ID (sortEntriesByNext es)) = mset (map ID es)" by (simp add: mset_map)
  then show "distinct (map ID (sortEntriesByNext es)) \<longleftrightarrow> distinct (map ID es)"
    by (rule mset_eq_imp_distinct_iff)
  show "ids (sortEntriesByNext es) = ids es"
    using mset_eq_setD [OF m] by (simp add: ids_def)
qed

lemma handleEntryAdded_ids:
  assumes "handleEntryAdded now e es = Ret es'"
  shows "map ID es' = map ID es @ [ID e]" "ids es' = insert (ID e) (ids es)"
  using assms by (auto simp: handleEntryAdded_def and_then_eq_Ret ids_def)

lemma removeEntry_ids:
  "distinct (map ID es) \<Longrightarrow> distinct (map ID (removeEntry k es))" "ids (removeEntry k es) \<subseteq> ids es"
  by (auto simp: removeEntry_def ids_def distinct_map_filter)

lemma removed_ids: "ids (removeEntry k es) = ids es - {k}"
  by (auto simp: removeEntry_def ids_def)

lemma update_ids:
  "k < length es \<Longrightarrow> ID e = ID (es ! k) \<Longrightarrow> map ID (es[k := e]) = map ID es"
  by (metis list_update_id map_update)

text \<open>
  \<open>s'\<close> has the entries of \<open>s\<close> up to their IDs, or fewer, and no new entry to add: what is held at
  \<open>x\<close> was held at \<open>g x\<close>.
\<close>

lemma ids_ok_move:
  assumes "ids_ok s" "distinct (map ID (entries (cron s')))"
    "ids (entries (cron s')) \<subseteq> ids (entries (cron s))" "nextID (cron s') = nextID (cron s)"
    "\<And>x e. to_add s' x = Some e \<Longrightarrow> to_add s (g x) = Some e"
    "\<And>x y. to_add s' x \<noteq> None \<Longrightarrow> to_add s' y \<noteq> None \<Longrightarrow> g x = g y \<Longrightarrow> x = y"
  shows "ids_ok s'"
proof -
  have "1 \<le> ID e \<and> ID e \<le> nextID (cron s') \<and> ID e \<notin> ids (entries (cron s'))"
    if "to_add s' x = Some e" for x e
    using ids_ok_pending(1) [OF assms(1) assms(5) [OF that]] assms(3,4) by auto
  moreover have "x = y" if "to_add s' x = Some e" "to_add s' y = Some f" "ID e = ID f" for x y e f
    using ids_ok_pending(2) [OF assms(1) assms(5) [OF that(1)] assms(5) [OF that(2)] that(3)]
      assms(6) [of x y] that by simp
  ultimately show ?thesis using assms(1-4) ids_ok_entries [OF assms(1)] unfolding ids_ok_def by auto
qed

lemma ids_ok_shrink:
  assumes "ids_ok s" "distinct (map ID (entries (cron s')))"
    "ids (entries (cron s')) \<subseteq> ids (entries (cron s))" "nextID (cron s') = nextID (cron s)"
    "\<And>i e ch. clients s' i = AddWait e ch \<Longrightarrow> clients s i = AddWait e ch"
    "\<And>r e. loops s' r = Adding e \<Longrightarrow> loops s r = Adding e"
  shows "ids_ok s'"
proof (rule ids_ok_move [where g = "\<lambda>x. x", OF assms(1-4)])
  show "to_add s x = Some e" if "to_add s' x = Some e" for x e
    using that assms(5,6) by (cases x) (auto simp: to_add_simps)
qed

lemma ids_ok_phase:
  assumes "ids_ok s" "map ID (entries (cron s')) = map ID (entries (cron s)) \<or>
      (distinct (map ID (entries (cron s'))) \<and> ids (entries (cron s')) = ids (entries (cron s)))"
    "nextID (cron s') = nextID (cron s)" "clients s' = clients s" "loops s' = (loops s)(r := p)"
    "\<And>e. p \<noteq> Adding e"
  shows "ids_ok s'"
proof (rule ids_ok_shrink [OF assms(1)])
  show "distinct (map ID (entries (cron s')))" "ids (entries (cron s')) \<subseteq> ids (entries (cron s))"
    using assms(2) ids_ok_entries(1) [OF assms(1)] ids_map [of "entries (cron s')" "entries (cron s)"]
    by (elim disjE, simp, simp)+
qed (use assms(3-6) in \<open>auto split: if_splits\<close>)

lemma ids_ok_client:
  assumes "ids_ok s" "\<And>e ch. c \<noteq> AddWait e ch"
  shows "ids_ok (s\<lparr>clients := (clients s)(i := c)\<rparr>)"
  by (rule ids_ok_shrink [OF assms(1)]) (use assms ids_ok_entries in \<open>auto split: if_splits\<close>)

lemma ids_ok_cancel: "ids_ok s \<Longrightarrow> ids_ok (s\<lparr>cron := cancel_run b r (cron s)\<rparr>)"
  by (rule ids_ok_shrink, assumption) (simp_all add: ids_ok_def cron_simps)

text \<open>The entry held at \<open>x\<close> moves into the list.\<close>

lemma ids_ok_add:
  assumes "ids_ok s" "to_add s x = Some e"
    "\<And>y f. to_add s' y = Some f \<Longrightarrow> y \<noteq> x \<and> to_add s y = Some f"
    "distinct (map ID (entries (cron s'))) \<longleftrightarrow> distinct (ID e # map ID (entries (cron s)))"
    "ids (entries (cron s')) = insert (ID e) (ids (entries (cron s)))"
    "nextID (cron s') = nextID (cron s)"
  shows "ids_ok s'"
proof -
  note e = ids_ok_pending(1) [OF assms(1,2)] and s = ids_ok_entries [OF assms(1)]
  have "distinct (map ID (entries (cron s')))"
    using assms(4) e s(1) by (simp add: ids_def)
  moreover have "1 \<le> ID f \<and> ID f \<le> nextID (cron s') \<and> ID f \<notin> ids (entries (cron s'))"
    if "to_add s' y = Some f" for y f
  proof -
    have y: "y \<noteq> x" "to_add s y = Some f" using assms(3) [OF that] by simp_all
    then have "ID f \<noteq> ID e" using ids_ok_pending(2) [OF assms(1) y(2) assms(2)] by blast
    then show ?thesis using ids_ok_pending(1) [OF assms(1) y(2)] assms(5,6) by simp
  qed
  moreover have "y = z" if "to_add s' y = Some f" "to_add s' z = Some g" "ID f = ID g" for y z f g
    using ids_ok_pending(2) [OF assms(1) _ _ that(3)] assms(3) that(1,2) by blast
  ultimately show ?thesis using assms(5,6) e s unfolding ids_ok_def by auto
qed

lemma loop_step_ids:
  assumes "loop_step s s'" "ids_ok s" "system_ok s"
  shows "ids_ok s'"
  using assms
proof (induction rule: loop_step.induct)
  case (init s r now es)
  note m = initializeEntries_ids [OF init.hyps(2)]
  show ?case
    by (rule ids_ok_shrink [OF init.prems(1)])
      (use init.prems(1) m ids_map [OF m] in \<open>simp_all add: cron_simps ids_ok_def split: if_splits\<close>)
next
  case (run_due s r now k e t)
  then have m: "map ID ((entries (cron s))[k := e\<lparr>Prev := Next e, Next := t\<rparr>]) = map ID (entries (cron s))"
    by (intro update_ids) simp_all
  show ?case
    by (rule ids_ok_shrink [OF run_due.prems(1)])
      (use run_due.prems(1) m ids_map [OF m] in \<open>simp_all add: cron_simps ids_ok_def split: if_splits\<close>)
next
  case (mark_close s r c)
  have "c = (cron s)\<lparr>closed := insert (loopDone (lifecycles (cron s) r)) (closed (cron s))\<rparr>"
    using mark_close markStopped_close_Ret [of "cron s" "loops s" r] by (simp add: system_ok_def)
  then show ?case
    by (intro ids_ok_shrink [OF mark_close.prems(1)]) (use mark_close.prems(1) in \<open>simp_all add: ids_ok_def split: if_splits\<close>)
next
  case (job_end s r c)
  then have jok: "jobs_ok (cron s) (jobs s)" by (simp add: system_ok_def)
  have a: "r < allocated (cron s)" "0 < activeJobs (lifecycles (cron s) r)"
    using job_end.hyps(1) jobs_okD(1) [OF jok, of r] by (simp_all split: if_splits)
  have "c = cleanupCompletedRunsLocked (job_done r (cron s))"
    using job_end.hyps(2) finishJob_eq [OF jok a] by simp
  then show ?case
    by (intro ids_ok_shrink [OF job_end.prems(1)]) (use job_end.prems(1) in \<open>simp_all add: ids_ok_def cron_simps split: if_splits\<close>)
next
  case (entry_added s r e now es)
  show ?case
    by (rule ids_ok_add [OF entry_added.prems(1), of "Inr r" e])
      (use entry_added.hyps(1) handleEntryAdded_ids [OF entry_added.hyps(2)] in
        \<open>auto simp: cron_simps to_add_def split: sum.splits if_splits\<close>)
next
  case (entry_removed s r k now)
  show ?case
    by (rule ids_ok_shrink [OF entry_removed.prems(1)])
      (use ids_ok_entries(1) [OF entry_removed.prems(1), THEN removeEntry_ids(1)] removeEntry_ids(2) [of k] in
        \<open>simp_all add: cron_simps split: if_splits\<close>)
next
  case (timer s r t now)
  then show ?case by (intro ids_ok_phase [OF timer.prems(1), where p = "Due now 0"]) simp_all
next
  case (due_end s r now k)
  then show ?case
    by (intro ids_ok_phase [OF due_end.prems(1), where p = "Select now"]) (simp_all add: cron_simps ids_ok_entries(1))
next
  case (ctx_done s r t)
  then show ?case by (intro ids_ok_phase [OF ctx_done.prems(1), where p = "Returned_loop"]) simp_all
next
  case (mark_store s r)
  then show ?case by (intro ids_ok_phase [OF mark_store.prems(1), where p = "Stored"]) (simp_all add: markStopped_store_def)
qed

lemma rendezvous_ids:
  assumes "rendezvous s s'" "ids_ok s"
  shows "ids_ok s'"
  using assms
proof (induction rule: rendezvous.induct)
  case (add s r t i e ch)
  let ?g = "\<lambda>x. if x = Inr r then Inl i else x"
  show ?case
    by (rule ids_ok_move [where g = ?g, OF add.prems])
      (use add.hyps ids_ok_entries [OF add.prems] in \<open>auto simp: to_add_def split: sum.splits if_splits\<close>)
next
  case (remove s r t i k ch)
  show ?case
    by (rule ids_ok_shrink [OF remove.prems])
      (use ids_ok_entries [OF remove.prems] in \<open>auto split: if_splits\<close>)
next
  case (snapshot s r t i ch)
  show ?case
    by (rule ids_ok_shrink [OF snapshot.prems])
      (use ids_ok_entries [OF snapshot.prems] in \<open>auto split: if_splits\<close>)
qed

text \<open>A client takes a fresh ID.\<close>

lemma ids_ok_issue:
  assumes "ids_ok s" "ID e = nextID (cron s) + 1" "nextID (cron s') = nextID (cron s) + 1"
    "clients s' = (clients s)(i := (case w of None \<Rightarrow> Idle | Some ch \<Rightarrow> AddWait e ch))" "loops s' = loops s"
    "entries (cron s') = (if w = None then entries (cron s) @ [e] else entries (cron s))"
  shows "ids_ok s'"
proof -
  note s = ids_ok_entries [OF assms(1)]
  have new: "ID e \<notin> ids (entries (cron s))" using s(2) assms(2) by auto
  have old: "ID f \<noteq> ID e" "1 \<le> ID f" "ID f \<le> nextID (cron s')" "ID f \<notin> ids (entries (cron s'))"
    if "to_add s x = Some f" for x f
    using ids_ok_pending(1) [OF assms(1) that] assms(2,3,6) by (auto simp: ids_def)
  have e: "distinct (map ID (entries (cron s')))" "ids (entries (cron s')) \<subseteq> {1..nextID (cron s')}"
    using s new assms(2,3,6) by (auto simp: ids_def)
  have p: "(x = Inl i \<and> f = e \<and> w \<noteq> None) \<or> (x \<noteq> Inl i \<and> to_add s x = Some f)"
    if "to_add s' x = Some f" for x f
    using that assms(4,5) by (auto simp: to_add_def split: if_splits option.splits sum.splits)
  have "1 \<le> ID f \<and> ID f \<le> nextID (cron s') \<and> ID f \<notin> ids (entries (cron s'))"
    if c: "to_add s' x = Some f" for x f
    using p [OF c]
  proof
    assume "x = Inl i \<and> f = e \<and> w \<noteq> None"
    then show ?thesis using assms(2,3,6) s(3) new by auto
  next
    assume "x \<noteq> Inl i \<and> to_add s x = Some f"
    then show ?thesis using old(2-4) by blast
  qed
  moreover have "x = y" if c: "to_add s' x = Some f" "to_add s' y = Some g" "ID f = ID g" for x y f g
    using p [OF c(1)] p [OF c(2)] old(1) c(3) ids_ok_pending(2) [OF assms(1)] by metis
  ultimately show ?thesis using e s(3) assms(3) unfolding ids_ok_def by auto
qed

lemma client_step_ids:
  assumes "client_step s s'" "ids_ok s"
  shows "ids_ok s'"
  using assms
proof (induction rule: client_step.induct)
  case (start s r c)
  then have e: "enterRunning (cron s) = (r, c)" by (auto simp: start_run_def split: if_splits)
  show ?case
    by (rule ids_ok_shrink [OF start.prems])
      (use ids_ok_entries [OF start.prems] in \<open>simp_all add: enterRunning_simps [OF e] split: if_splits\<close>)
next
  case (run s i r c)
  then have e: "enterRunning (cron s) = (r, c)" by (auto simp: Run_def split: if_splits)
  show ?case
    by (rule ids_ok_shrink [OF run.prems])
      (use ids_ok_entries [OF run.prems] in \<open>simp_all add: enterRunning_simps [OF e] split: if_splits\<close>)
next
  case (schedule s i name sched cmd e w c)
  show ?case
    by (rule ids_ok_issue [OF schedule.prems, of e _ i w])
      (use scheduleEntry_same [OF schedule.hyps(2)] in simp_all)
next
  case (add_closed s i e ch)
  show ?case
    by (rule ids_ok_add [OF add_closed.prems, of "Inl i" e])
      (use add_closed.hyps(1) in
        \<open>auto simp: append_entry_def ids_def to_add_def split: sum.splits if_splits\<close>)
next
  case (remove s i k w c)
  show ?case
    by (rule ids_ok_shrink [OF remove.prems])
      (use Remove_same [OF remove.hyps(2)] ids_ok_entries(1) [OF remove.prems]
          ids_ok_entries(1) [OF remove.prems, THEN removeEntry_ids(1)] removeEntry_ids(2) [of k] in
        \<open>auto split: if_splits option.splits\<close>)
next
  case (remove_closed s i k ch)
  show ?case
    by (rule ids_ok_shrink [OF remove_closed.prems])
      (use ids_ok_entries(1) [OF remove_closed.prems, THEN removeEntry_ids(1)] removeEntry_ids(2) [of k] in
        \<open>simp_all add: remove_directly_def split: if_splits\<close>)
next
  case (stop s i b rs c)
  show ?case
    by (rule ids_ok_shrink [OF stop.prems])
      (use stopRuns_same [OF stop.hyps(2)] ids_ok_entries [OF stop.prems] in \<open>auto split: if_splits\<close>)
next
  case (jobs_check s i r rs cap n w c)
  show ?case
    by (rule ids_ok_shrink [OF jobs_check.prems])
      (use waitForRunJobs_same [OF jobs_check.hyps(2)] ids_ok_entries [OF jobs_check.prems] in
        \<open>auto split: if_splits option.splits\<close>)
next
  case (entries s i w)
  show ?case
    by (rule ids_ok_shrink [OF entries.prems])
      (use ids_ok_entries [OF entries.prems] in \<open>auto split: if_splits sum.splits\<close>)
qed (simp_all add: ids_ok_client ids_ok_cancel)

lemma initial_ids: "ids_ok (initial ch)"
  by (auto simp: ids_ok_def initial_def new_cron_def ids_def to_add_def split: sum.splits)

lemma reachable_ids: "reachable ch s \<Longrightarrow> ids_ok s"
  by (induction rule: reachable_induct)
    (auto simp: initial_ids reachable_ok intro: loop_step_ids rendezvous_ids client_step_ids)

subsection \<open>An execution\<close>

text \<open>
  The scheduler is started and waits; client 0 calls \<open>Schedule\<close> and waits for the loop; client 1
  calls \<open>Stop\<close>; the loop leaves. Then \<open>Stop\<close> returns, or the scheduler is started again.
\<close>

lemma reachable_initial: "reachable ch (initial ch)"
  by (simp add: reachable_def)

definition noon :: gotime where
  "noon = \<lparr>tsec = 43200, tnsec = 0, tloc = UTC\<rparr>"

definition secondly :: "gotime \<Rightarrow> gotime call" where
  "secondly = schedule_Next (\<lambda>_. undefined) (Constant (Every go_Second))"

definition late_entry :: "unit Entry" where
  "late_entry = \<lparr>ID = 1, Name = [], eSchedule = secondly, Next = zero_time, Prev = zero_time,
     Job = (), wrappedJob = ()\<rparr>"

definition demo_life :: "bool \<Rightarrow> nat \<Rightarrow> runLifecycle" where
  "demo_life b ch = \<lparr>schedulerCancelled = b, jobsCancelled = False, loopDone = ch, jobsDone = None, activeJobs = 0\<rparr>"

definition life0 :: "nat \<Rightarrow> runLifecycle" where
  "life0 = (\<lambda>_. demo_life False 0)"

definition cron1 :: "unit Cron" where
  "cron1 = \<lparr>entries = [], chain = [], running = True, nextID = 0, currentRun = Some 0, runs = [0],
     lifecycles = life0(0 := demo_life False 0), allocated = 1, closed = {}, channels = 1\<rparr>"

definition cron2 :: "unit Cron" where
  "cron2 = cron1\<lparr>nextID := 1, lifecycles := life0(0 := demo_life True 0)\<rparr>"

definition cron3 :: "unit Cron" where
  "cron3 = cron2\<lparr>running := False, closed := {0}\<rparr>"

definition cron4 :: "unit Cron" where
  "cron4 = cron3\<lparr>running := True, currentRun := Some 1, runs := [1],
     lifecycles := (lifecycles cron3)(1 := demo_life False 1), allocated := 2, channels := 2\<rparr>"

lemmas demo_defs = cron1_def cron2_def cron3_def cron4_def demo_life_def life0_def

lemma demo_start: "start_run (new_cron []) = Some (0, cron1)"
  by (simp add: start_run_def new_cron_def enterRunning_def cleanupCompletedRunsLocked_def
      demo_defs Let_def)

lemma demo_schedule:
  "scheduleEntry [] secondly () cron1 = Ret (late_entry, Some 0, cron1\<lparr>nextID := 1\<rparr>)"
  by (simp add: scheduleEntry_def current_loopDone_def demo_defs late_entry_def Let_def)

lemma demo_stop: "stopRuns False (cron1\<lparr>nextID := 1\<rparr>) = ([0], cron2)"
  by (simp add: stopRuns_def cleanupCompletedRunsLocked_def completed_def isClosed_def cancel_run_def
      update_run_def demo_defs Let_def)

lemma demo_close: "markStopped_close 0 (markStopped_store cron2) = Ret cron3"
  by (simp add: markStopped_close_def markStopped_store_def close_def demo_defs)

lemma demo_restart: "start_run cron3 = Some (1, cron4)"
  by (simp add: start_run_def enterRunning_def cleanupCompletedRunsLocked_def completed_def
      isClosed_def demo_defs Let_def)

abbreviation sys :: "unit Cron \<Rightarrow> (nat \<Rightarrow> unit loop_phase) \<Rightarrow> (nat \<Rightarrow> unit client) \<Rightarrow> unit system" where
  "sys c ls cl \<equiv> \<lparr>cron = c, loops = ls, jobs = (\<lambda>_. 0), clients = cl\<rparr>"

abbreviation no_loops :: "nat \<Rightarrow> unit loop_phase" where
  "no_loops \<equiv> (\<lambda>_. NotStarted)"

abbreviation no_clients :: "nat \<Rightarrow> unit client" where
  "no_clients \<equiv> (\<lambda>_. Idle)"

lemma sorted_nil: "set_entries (sortEntriesByNext []) cron1 = cron1"
  "set_entries (sortEntriesByNext []) cron4 = cron4"
  by (simp_all add: set_entries_def sortEntriesByNext_def SortFunc_def demo_defs)

lemma demo_select: "reachable [] (sys cron1 (no_loops(0 := Select noon)) no_clients)"
proof -
  have "reachable [] (sys cron1 (no_loops(0 := Init)) no_clients)"
    by (rule reachable_client [OF reachable_initial])
      (use client_step.start [of "initial []" 0 cron1] demo_start in \<open>simp add: initial_def\<close>)
  from reachable_loop [OF this] show ?thesis
    using loop_step.init [of "sys cron1 (no_loops(0 := Init)) no_clients" 0 noon "[]"]
    by (simp add: sorted_nil) (simp add: demo_defs)
qed

abbreviation stopping :: "nat \<Rightarrow> unit client" where
  "stopping \<equiv> no_clients(0 := AddWait late_entry 0, 1 := LoopsWait [0] [0] 1)"

lemma demo_stopping: "reachable [] (sys cron2 (no_loops(0 := Select noon)) stopping)"
proof -
  have "reachable [] (sys (cron1\<lparr>nextID := 1\<rparr>) (no_loops(0 := Select noon)) (no_clients(0 := AddWait late_entry 0)))"
    by (rule reachable_client [OF demo_select])
      (use client_step.schedule [of "sys cron1 (no_loops(0 := Select noon)) no_clients" 0 "[]" secondly "()"]
          demo_schedule in simp)
  from reachable_client [OF this] show ?thesis
    using client_step.stop [of "sys (cron1\<lparr>nextID := 1\<rparr>) (no_loops(0 := Select noon))
        (no_clients(0 := AddWait late_entry 0))" 1 False "[0]" cron2] demo_stop
    by (simp add: cron1_def)
qed

lemma demo_stopped: "reachable [] (sys cron3 (no_loops(0 := Exited)) stopping)"
proof -
  have "reachable [] (sys cron2 (no_loops(0 := Returned_loop)) stopping)"
    by (rule reachable_loop [OF demo_stopping])
      (use loop_step.ctx_done [of "sys cron2 (no_loops(0 := Select noon)) stopping" 0 noon] in
        \<open>simp add: cron2_def demo_life_def\<close>)
  then have "reachable [] (sys (markStopped_store cron2) (no_loops(0 := Stored)) stopping)"
    by (rule reachable_loop)
      (use loop_step.mark_store [of "sys cron2 (no_loops(0 := Returned_loop)) stopping" 0] in simp)
  from reachable_loop [OF this] show ?thesis
    using loop_step.mark_close [of "sys (markStopped_store cron2) (no_loops(0 := Stored)) stopping" 0 cron3]
      demo_close by simp
qed

text \<open>\<open>Stop\<close> returns nil.\<close>

definition demo_end :: "unit system" where
  "demo_end = sys (cron3\<lparr>runs := [], currentRun := None\<rparr>) (no_loops(0 := Exited)) (stopping(1 := StopOk [0] 1))"

lemma demo_check: "waitForRunJobs 0 cron3 = (None, cron3\<lparr>runs := [], currentRun := None\<rparr>)"
  by (simp add: waitForRunJobs_def cleanupCompletedRunsLocked_def completed_def isClosed_def demo_defs)

lemma demo_end_reachable: "reachable [] demo_end"
proof -
  let ?ls = "no_loops(0 := Exited)"
  let ?c = "cron3\<lparr>runs := [], currentRun := None\<rparr>"
  have "isClosed cron3 (loopDone (lifecycles cron3 0))" by (simp add: isClosed_def demo_defs)
  then have "reachable [] (sys cron3 ?ls (stopping(1 := LoopsWait [] [0] 1)))"
    by (intro reachable_client [OF demo_stopped])
      (use client_step.loop_gone [of "sys cron3 ?ls stopping" 1 0 "[]" "[0]" 1] in simp)
  then have "reachable [] (sys cron3 ?ls (stopping(1 := JobsWait [0] [0] 1)))"
    by (rule reachable_client)
      (use client_step.loops_gone [of "sys cron3 ?ls (stopping(1 := LoopsWait [] [0] 1))" 1 "[0]" 1] in simp)
  then have "reachable [] (sys ?c ?ls (stopping(1 := JobsWait [] [0] 1)))"
    by (rule reachable_client)
      (use client_step.jobs_check [of "sys cron3 ?ls (stopping(1 := JobsWait [0] [0] 1))" 1 0 "[]" "[0]" 1 None ?c]
          demo_check in simp)
  then show ?thesis
    unfolding demo_end_def
    by (rule reachable_client)
      (use client_step.stop_ok [of "sys ?c ?ls (stopping(1 := JobsWait [] [0] 1))" 1 "[0]" 1] in simp)
qed

text \<open>The scheduler is started again before client 0 looks.\<close>

definition stale_wait :: "unit system" where
  "stale_wait = sys cron4 (no_loops(0 := Exited, 1 := Select noon)) stopping"

definition stale_add :: "unit system" where
  "stale_add = sys (append_entry late_entry cron4) (no_loops(0 := Exited, 1 := Select noon))
     (stopping(0 := Idle))"

lemma stale_wait_reachable: "reachable [] stale_wait"
proof -
  have "reachable [] (sys cron4 (no_loops(0 := Exited, 1 := Init)) stopping)"
    by (rule reachable_client [OF demo_stopped])
      (use client_step.start [of "sys cron3 (no_loops(0 := Exited)) stopping" 1 cron4] demo_restart in simp)
  then show ?thesis
    unfolding stale_wait_def
    by (rule reachable_loop)
      (use loop_step.init [of "sys cron4 (no_loops(0 := Exited, 1 := Init)) stopping" 1 noon "[]"] in
        \<open>simp add: sorted_nil\<close>, simp add: demo_defs)
qed

lemma stale_add_reachable: "reachable [] stale_add"
  unfolding stale_add_def
  by (rule reachable_client [OF stale_wait_reachable])
    (use client_step.add_closed [of stale_wait 0 late_entry 0] in
      \<open>simp add: isClosed_def stale_wait_def\<close>, simp add: demo_defs)

subsection \<open>One scheduler at a time\<close>

text \<open>
  C4: in every interleaving at most one scheduler loop is between its start and its end, and it
  is the current run of a scheduler marked as running.
\<close>

theorem one_scheduler_loop:
  assumes "reachable ch s" "live (loops s r)"
  shows "running (cron s) \<and> currentRun (cron s) = Some r \<and> (\<forall>q. live (loops s q) \<longrightarrow> q = r)"
proof -
  have ok: "runs_ok (cron s) (loops s)"
    using reachable_ok [OF assms(1)] by (simp add: system_ok_def)
  have r: "running (cron s) \<and> currentRun (cron s) = Some r" using runs_okD(2) [OF ok] assms(2) by blast
  have "q = r" if "live (loops s q)" for q
    using runs_okD(2) [OF ok, of q] that r by simp
  then show ?thesis using r by blast
qed

theorem one_scheduler_loop_witness:
  "live (loops stale_add 1) \<and> running (cron stale_add) \<and> currentRun (cron stale_add) = Some 1 \<and>
   \<not> live (loops stale_add 0)"
proof -
  have live: "live (loops stale_add 1)" by (simp add: stale_add_def)
  from one_scheduler_loop [OF stale_add_reachable this] live show ?thesis by (metis zero_neq_one)
qed

text \<open>
  C21: in every interleaving the operations of a client never dereference a nil run, and the
  closes of the scheduler and of the job counter never hit a closed channel: no call panics.
\<close>

theorem cron_no_panic:
  assumes "reachable ch s"
  shows "completes (scheduleEntry name sched cmd (cron s)) \<and> completes (Remove i (cron s)) \<and>
    completes (Entries (cron s)) \<and>
    (loops s r = Stored \<longrightarrow> completes (markStopped_close r (cron s))) \<and>
    (0 < jobs s r \<longrightarrow> completes (finishJob r (cron s)))"
proof -
  have ok: "runs_ok (cron s) (loops s)" "jobs_ok (cron s) (jobs s)"
    using reachable_ok [OF assms] by (simp_all add: system_ok_def)
  have cur: "running (cron s) \<Longrightarrow> \<exists>q. currentRun (cron s) = Some q" by (rule runs_okD(3) [OF ok(1)])
  have "completes (finishJob r (cron s))" if "0 < jobs s r"
  proof -
    have "r < allocated (cron s)" "0 < activeJobs (lifecycles (cron s) r)"
      using that jobs_okD(1) [OF ok(2), of r] by (simp_all split: if_splits)
    then show ?thesis using finishJob_eq [OF ok(2)] by simp
  qed
  then show ?thesis
    using cur markStopped_close_Ret [OF ok(1)]
    by (auto simp: scheduleEntry_def Remove_def Entries_def current_loopDone_def Let_def)
qed

theorem cron_no_panic_witness:
  "completes (scheduleEntry [] secondly () (cron stale_add)) \<and> completes (Remove 1 (cron stale_add)) \<and>
   completes (Entries (cron stale_add))"
  using cron_no_panic [OF stale_add_reachable, of "[]" secondly "()" 1 0] by blast

text \<open>
  C38: in every interleaving the entries in the list have distinct IDs, positive and issued; an entry
  that a client or the loop is about to add has an ID that is neither in the list nor that of another
  one about to be added; and the next call of \<open>Schedule\<close> returns an ID that is in nobody's hands.
\<close>

theorem entry_ids_unique:
  assumes "reachable ch s"
  shows "distinct (map ID (entries (cron s))) \<and>
    list_all (\<lambda>e. Valid e \<and> 0 < ID e \<and> ID e \<le> nextID (cron s)) (entries (cron s)) \<and>
    (\<forall>x e. to_add s x = Some e \<longrightarrow> Valid e \<and> ID e \<notin> ids (entries (cron s)) \<and>
      (\<forall>y f. to_add s y = Some f \<longrightarrow> ID f = ID e \<longrightarrow> y = x)) \<and>
    (\<forall>name sched cmd e w c. scheduleEntry name sched cmd (cron s) = Ret (e, w, c) \<longrightarrow>
      Valid e \<and> ID e \<notin> ids (entries (cron s)) \<and> (\<forall>x f. to_add s x = Some f \<longrightarrow> ID f \<noteq> ID e))"
proof -
  have ok: "ids_ok s" by (rule reachable_ids [OF assms])
  note e = ids_ok_entries [OF ok] and p = ids_ok_pending [OF ok]
  have "Valid f \<and> ID f \<notin> ids (entries (cron s)) \<and> (\<forall>x g. to_add s x = Some g \<longrightarrow> ID g \<noteq> ID f)"
    if "scheduleEntry name sched cmd (cron s) = Ret (f, w, c)" for name sched cmd f w c
    using scheduleEntry_same(6) [OF that] e(2,3) p(1) by (fastforce simp: Valid_def)
  moreover have "Valid f \<and> ID f \<notin> ids (entries (cron s)) \<and>
      (\<forall>y g. to_add s y = Some g \<longrightarrow> ID g = ID f \<longrightarrow> y = x)" if "to_add s x = Some f" for x f
    using p(1) [OF that] p(2) [OF _ that] by (auto simp: Valid_def)
  moreover have "list_all (\<lambda>e. Valid e \<and> 0 < ID e \<and> ID e \<le> nextID (cron s)) (entries (cron s))"
    using e(2) by (auto simp: ids_def list_all_iff Valid_def)
  ultimately show ?thesis using e(1) by blast
qed

theorem entry_ids_unique_witness:
  "to_add stale_wait (Inl 0) = Some late_entry \<and> Valid late_entry \<and>
   (\<exists>e w c. scheduleEntry [] secondly () (cron stale_wait) = Ret (e, w, c) \<and> ID late_entry \<noteq> ID e)"
proof -
  have a: "to_add stale_wait (Inl 0) = Some late_entry" by (simp add: to_add_def stale_wait_def)
  have "completes (scheduleEntry [] secondly () (cron stale_wait))"
    by (simp add: stale_wait_def demo_defs scheduleEntry_def current_loopDone_def Let_def)
  then obtain e w c where s: "scheduleEntry [] secondly () (cron stale_wait) = Ret (e, w, c)"
    by (simp add: stale_wait_def demo_defs scheduleEntry_def current_loopDone_def Let_def)
  from entry_ids_unique [OF stale_wait_reachable] a s show ?thesis by blast
qed

subsection \<open>Stop\<close>

text \<open>
  C7: when \<open>Stop\<close> or \<open>Shutdown\<close> has returned nil, every run that was ever started before it took
  its list has ended, its scheduler loop as well as its jobs, and stays so in every continuation.
\<close>

theorem stop_waits_for_all:
  assumes "reachable ch s" "clients s i = StopOk cap n" "sys_step\<^sup>*\<^sup>* s s'" "r < n"
  shows "loops s' r = Exited \<and> jobs s' r = 0"
proof -
  have "client_ok s (StopOk cap n)"
    using reachable_clients_ok [OF assms(1)] assms(2) unfolding clients_ok_def by metis
  then have "quiet s r" using assms(4) by (auto simp: covers_def all_quiet_def)
  with assms(3) have "reachable ch s' \<and> quiet s' r"
  proof (induction rule: rtranclp_induct)
    case (step t u)
    have "progress t u"
      using step.hyps(2) loop_step_progress rendezvous_progress client_step_progress
        reachable_ok [OF conjunct1 [OF step.IH [OF step.prems]]] unfolding sys_step_def by blast
    then show ?case
      using step.IH [OF step.prems] step.hyps(2) reachable_step progressD(5) by blast
  qed (simp add: assms(1))
  then show ?thesis by (simp add: quiet_def)
qed

theorem stop_waits_for_all_witness: "loops demo_end 0 = Exited \<and> jobs demo_end 0 = 0"
  using stop_waits_for_all [OF demo_end_reachable, of 1 "[0]" 1 demo_end 0] by (simp add: demo_end_def)

text \<open>
  C9: \<open>Stop\<close> and \<open>Shutdown\<close> find every run that has not come to its end, its loop or its jobs, however
  old it is, and cancel its scheduler; \<open>Stop\<close> also cancels the context of its jobs, \<open>Shutdown\<close> leaves
  the contexts of all jobs as they are.
\<close>

theorem stop_cancels_jobs:
  assumes "reachable ch s" "0 < jobs s r \<or> live (loops s r) \<or> loops s r = Stored"
  shows "case (Stop (cron s), Shutdown (cron s)) of ((rs, c), (rs', c')) \<Rightarrow>
    r \<in> set rs \<and> schedulerCancelled (lifecycles c r) \<and> jobsCancelled (lifecycles c r) \<and>
    r \<in> set rs' \<and> schedulerCancelled (lifecycles c' r) \<and>
    (\<forall>q. jobsCancelled (lifecycles c' q) \<longleftrightarrow> jobsCancelled (lifecycles (cron s) q))"
proof -
  have ok: "runs_ok (cron s) (loops s)" "jobs_ok (cron s) (jobs s)"
    using reachable_ok [OF assms(1)] by (simp_all add: system_ok_def)
  have a: "r < allocated (cron s)" "loops s r \<noteq> Exited \<or> 0 < activeJobs (lifecycles (cron s) r)"
    using assms(2) live_allocated [OF ok(1), of r] runs_okD(1) [OF ok(1), of r] jobs_okD(1) [OF ok(2), of r]
    by (auto split: if_splits)
  then have "r \<in> set (runs (cron s))" "\<not> completed (cron s) r"
    using runs_okD(6) [OF ok(1)] completed_exited [OF ok(1)] by auto
  then show ?thesis
    by (simp add: Stop_def Shutdown_def stopRuns_def Let_def cron_simps cancel_runs_cancelled
        cancel_runs_jobsCancelled)
qed

theorem stop_cancels_jobs_witness:
  "0 \<in> set (fst (Stop cron2)) \<and> jobsCancelled (lifecycles (snd (Stop cron2)) 0)"
  using stop_cancels_jobs [OF demo_stopping, of 0] by (auto split: prod.splits)

subsection \<open>An entry added behind a running scheduler\<close>

text \<open>
  C26: a client that waits to add an entry to a scheduler that stops, and is started again before
  the client looks, may append its entry behind the new scheduler's back: a state is reachable in
  which the scheduler runs and waits, the entry is in its list, and its \<open>Next\<close> was never computed
  although its schedule is due every second, so that the entry is due at no time.
\<close>

theorem stale_add_never_scheduled:
  "\<exists>s :: unit system. reachable [] s \<and> running (cron s) \<and> loops s 1 = Select noon \<and>
     entries (cron s) = [late_entry] \<and> secondly noon = Ret (noon\<lparr>tsec := tsec noon + 1\<rparr>) \<and>
     (\<forall>t. \<not> due t late_entry)"
proof -
  have "secondly noon = Ret (noon\<lparr>tsec := tsec noon + 1\<rparr>)"
    by (simp add: secondly_def noon_def delay_Next_def Every_def go_Add_def i64_def)
  moreover have "\<not> due t late_entry" for t
    by (simp add: due_def late_entry_def IsZero_def zero_time_def)
  ultimately show ?thesis
    using stale_add_reachable
    by (intro exI [of _ stale_add]) (simp add: stale_add_def append_entry_def cron4_def cron3_def cron2_def cron1_def)
qed

end

