(* ===== verification/Cron_Timeline.thy ===== *)
theory Cron_Timeline
  imports Cron_Entries
begin

text \<open>
  The scheduler loop of cron.go against the schedules of its entries: \<open>schedulerLoop\<close> with nothing
  but its timer, which fires when it was asked to. It composes \<open>initializeEntries\<close>,
  \<open>sortEntriesByNext\<close>, \<open>newSchedulerTimer\<close>, \<open>handleTimerFired\<close> and \<open>runDueEntries\<close>.
\<close>

text \<open>The time at which a timer started at \<open>now\<close> for \<open>d\<close> fires.\<close>

definition fires :: "gotime \<Rightarrow> int \<Rightarrow> gotime" where
  "fires now d = go_Add now (max d 0)"

definition handleTimerFired ::
  "location \<Rightarrow> gotime \<Rightarrow> 'j Entry list \<Rightarrow> (gotime \<times> 'j Entry list \<times> 'j Entry list) call" where
  "handleTimerFired loc firedAt es =
     (let now = go_In firedAt loc
      in and_then (runDueEntries now es) (\<lambda>(started, es'). Ret (now, started, es')))"

text \<open>
  \<open>n\<close> rounds of the loop: the times of the rounds with the entries started, the last time, and the
  entries.
\<close>

primrec timer_rounds ::
  "location \<Rightarrow> nat \<Rightarrow> gotime \<Rightarrow> 'j Entry list \<Rightarrow>
    ((gotime \<times> 'j Entry list) list \<times> gotime \<times> 'j Entry list) call" where
  "timer_rounds loc 0 now es = Ret ([], now, es)"
| "timer_rounds loc (Suc n) now es =
     (let es1 = sortEntriesByNext es; d = newSchedulerTimer es1 now
      in and_then (handleTimerFired loc (fires now d) es1) (\<lambda>(now', started, es2).
         and_then (timer_rounds loc n now' es2) (\<lambda>(log, r). Ret ((now', started) # log, r))))"

definition started_at :: "int \<Rightarrow> (gotime \<times> 'j Entry list) list \<Rightarrow> gotime list" where
  "started_at i log = map fst (filter (\<lambda>(t, started). list_ex (\<lambda>e. ID e = i) started) log)"

subsection \<open>Chains of activations\<close>

lemma activations_snoc:
  "activations s t (us @ [v]) \<longleftrightarrow>
     activations s t us \<and> s (last (t # us)) = Ret v \<and> \<not> IsZero v \<and> After v (last (t # us))"
  by (induction us arbitrary: t) auto

lemma activations_NextN: "activations s t us \<Longrightarrow> NextN s t (int (length us)) = Ret us"
proof (induction us arbitrary: t)
  case (Cons u us)
  then have "NextN_loop s (length us) u = Ret us" by (simp add: NextN_def)
  with Cons show ?case by (simp add: NextN_def nat_add_distrib)
qed (simp add: NextN_def)

text \<open>
  \<open>in_time L t0 acts now e\<close>: scheduled since \<open>t0\<close>, the entry has run at the activations \<open>acts\<close> of its
  schedule, and its \<open>Next\<close> is the activation after these, not past at \<open>now\<close>; \<open>on_track\<close>: still to
  come.
\<close>

definition in_time :: "location \<Rightarrow> gotime \<Rightarrow> gotime list \<Rightarrow> gotime \<Rightarrow> 'j Entry \<Rightarrow> bool" where
  "in_time L t0 acts now e \<longleftrightarrow>
     lawful_entry L e \<and> activations (eSchedule e) t0 acts \<and>
     eSchedule e (last (t0 # acts)) = Ret (Next e) \<and>
     (IsZero (Next e) \<or> (instant now \<le> instant (Next e) \<and> After (Next e) (last (t0 # acts)) \<and>
       valid_time (Next e) \<and> tloc (Next e) = L))"

definition on_track :: "location \<Rightarrow> gotime \<Rightarrow> gotime list \<Rightarrow> gotime \<Rightarrow> 'j Entry \<Rightarrow> bool" where
  "on_track L t0 acts now e \<longleftrightarrow> in_time L t0 acts now e \<and> (IsZero (Next e) \<or> After (Next e) now)"

lemma instant_After: "valid_time t \<Longrightarrow> valid_time u \<Longrightarrow> After t u \<longleftrightarrow> instant u < instant t"
  using Before_instant [of t u] Before_instant [of u t]
  by (auto simp: After_def instant_def valid_time_def)

lemma instant_eq:
  assumes "valid_time t" "valid_time u" "instant t = instant u" "tloc t = tloc u"
  shows "t = (u :: gotime)"
proof -
  have "\<not> After t u" "\<not> After u t" using instant_After assms(1-3) by auto
  then show ?thesis using assms(4) by (auto simp: After_def intro: gotime.equality)
qed

lemma fires_props:
  assumes "valid_time now" "0 \<le> d"
  shows "valid_time (fires now d)" "instant (fires now d) = instant now + d" "tloc (fires now d) = tloc now"
  using assms by (auto simp: fires_def go_Add_def instant_def valid_time_def Let_def algebra_simps)

lemma go_Sub_later:
  "instant u \<le> instant t \<Longrightarrow> 0 \<le> go_Sub t u \<and> instant u + go_Sub t u \<le> instant t"
  "instant u < instant t \<Longrightarrow> 0 < go_Sub t u"
  by (auto simp: go_Sub_def)

text \<open>The timer of a sorted list of entries in time does not sleep past any activation.\<close>

lemma timer_before_next:
  assumes "by_next es" "\<And>e. e \<in> set es \<Longrightarrow> in_time L (t0 e) (a e) now e" "valid_time now"
  shows "0 \<le> newSchedulerTimer es now"
    and "e \<in> set es \<Longrightarrow> \<not> IsZero (Next e) \<Longrightarrow> instant now + newSchedulerTimer es now \<le> instant (Next e)"
proof -
  have later: "valid_time (Next e) \<and> instant now \<le> instant (Next e)"
    if "e \<in> set es" "\<not> IsZero (Next e)" for e
    using assms(2) [OF that(1)] that(2) by (auto simp: in_time_def)
  show "0 \<le> newSchedulerTimer es now"
  proof (cases es)
    case (Cons h hs)
    then show ?thesis using go_Sub_later(1) later [of h]
      by (auto simp: newSchedulerTimer_def idleTimerDuration_def)
  qed (simp add: newSchedulerTimer_def idleTimerDuration_def)
  show "instant now + newSchedulerTimer es now \<le> instant (Next e)" if e: "e \<in> set es" "\<not> IsZero (Next e)"
  proof (cases es)
    case (Cons h hs)
    have le: "next_key h \<le> next_key e" using assms(1) e(1) by (auto simp: Cons)
    then have h: "\<not> IsZero (Next h)"
      using e(2) by (auto simp: next_key_def less_eq_activation_key_def split: if_splits)
    then have "instant (Next h) \<le> instant (Next e)"
      using next_key_instant [OF le e(2)] later [OF e] later [of h] by (simp add: Cons)
    moreover have "instant now + go_Sub (Next h) now \<le> instant (Next h)"
      using go_Sub_later(1) later [of h] h by (simp add: Cons)
    ultimately show ?thesis using h by (simp add: Cons newSchedulerTimer_def)
  qed (use e in simp)
qed

lemma timer_positive:
  assumes "\<And>e. e \<in> set es \<Longrightarrow> on_track L (t0 e) (a e) now e" "valid_time now"
  shows "0 < newSchedulerTimer es now"
proof (cases es)
  case (Cons h hs)
  have "\<not> IsZero (Next h) \<Longrightarrow> instant now < instant (Next h)"
    using assms(1) [of h] instant_After assms(2) by (auto simp: Cons on_track_def in_time_def)
  then show ?thesis using go_Sub_later(2)
    by (auto simp: Cons newSchedulerTimer_def idleTimerDuration_def)
qed (simp add: newSchedulerTimer_def idleTimerDuration_def)

subsection \<open>One round\<close>

lemma set_sorted [simp]: "set (sortEntriesByNext es) = set es"
  by (simp add: sortEntriesByNext_key)

lemma by_next_sorted: "by_next (sortEntriesByNext es)"
  by (simp add: sortEntriesByNext_key)

text \<open>The entry after a round at \<open>now\<close>.\<close>

definition advanced :: "gotime \<Rightarrow> 'j Entry \<Rightarrow> 'j Entry" where
  "advanced now e =
     (if due now e then e\<lparr>Prev := Next e, Next := the_value (eSchedule e now)\<rparr> else e)"

lemma advanced_sel [simp]:
  "ID (advanced now e) = ID e" "eSchedule (advanced now e) = eSchedule e"
  by (simp_all add: advanced_def)

lemma advanced_on_track:
  assumes "in_time L t0 acts now e" "valid_time now'" "tloc now' = L"
    and "\<not> IsZero (Next e) \<Longrightarrow> instant now' \<le> instant (Next e)"
  shows "on_track L t0 (acts @ (if due now' e then [now'] else [])) now' (advanced now' e)"
proof (cases "due now' e")
  case True
  then have n: "\<not> IsZero (Next e)" "\<not> After (Next e) now'" by (simp_all add: due_def)
  have v: "valid_time (Next e)" "tloc (Next e) = L" "After (Next e) (last (t0 # acts))"
    and law: "lawful_entry L e" and chain: "activations (eSchedule e) t0 acts"
    and nxt: "eSchedule e (last (t0 # acts)) = Ret (Next e)"
    using assms(1) n(1) by (auto simp: in_time_def)
  have "instant (Next e) = instant now'"
    using n(2) assms(4) [OF n(1)] instant_After [OF v(1) assms(2)] by simp
  then have eq: "Next e = now'" using instant_eq [OF v(1) assms(2)] v(2) assms(3) by simp
  obtain u where u: "eSchedule e now' = Ret u" "IsZero u \<or> After u now' \<and> valid_time u \<and> tloc u = L"
    using lawful_entry_Next [OF law assms(2,3)] by blast
  then have "IsZero u \<or> instant now' \<le> instant u" using instant_After assms(2) by force
  moreover have "advanced now' e = e\<lparr>Prev := Next e, Next := u\<rparr>" using True u(1) by (simp add: advanced_def)
  ultimately show ?thesis using True chain nxt n(1) v law u
    by (auto simp: on_track_def in_time_def activations_snoc eq lawful_entry_def)
next
  case False
  then have "IsZero (Next e) \<or> After (Next e) now'" by (auto simp: due_def)
  then show ?thesis using assms(1,4) False by (auto simp: on_track_def in_time_def advanced_def)
qed

text \<open>All entries are, the entry with ID \<open>i\<close> scheduled since \<open>t0 i\<close> and run at \<open>acts i\<close>.\<close>

definition all_in_time ::
  "location \<Rightarrow> (int \<Rightarrow> gotime) \<Rightarrow> (int \<Rightarrow> gotime list) \<Rightarrow> gotime \<Rightarrow> 'j Entry list \<Rightarrow> bool" where
  "all_in_time L t0 acts now es \<longleftrightarrow>
     valid_time now \<and> tloc now = L \<and> distinct (map ID es) \<and>
     (\<forall>e \<in> set es. in_time L (t0 (ID e)) (acts (ID e)) now e)"

definition all_on_track ::
  "location \<Rightarrow> (int \<Rightarrow> gotime) \<Rightarrow> (int \<Rightarrow> gotime list) \<Rightarrow> gotime \<Rightarrow> 'j Entry list \<Rightarrow> bool" where
  "all_on_track L t0 acts now es \<longleftrightarrow>
     all_in_time L t0 acts now es \<and> (\<forall>e \<in> set es. IsZero (Next e) \<or> After (Next e) now)"

lemma all_on_track_iff:
  "all_on_track L t0 acts now es \<longleftrightarrow>
     valid_time now \<and> tloc now = L \<and> distinct (map ID es) \<and>
     (\<forall>e \<in> set es. on_track L (t0 (ID e)) (acts (ID e)) now e)"
  by (auto simp: all_on_track_def all_in_time_def on_track_def)

text \<open>What does not change: which entries there are, by ID and schedule.\<close>

definition identities :: "'j Entry list \<Rightarrow> (int \<times> (gotime \<Rightarrow> gotime call)) set" where
  "identities es = (\<lambda>e. (ID e, eSchedule e)) ` set es"

lemma go_In_self: "tloc t = L \<Longrightarrow> go_In t L = (t :: gotime)"
  by (cases t) (auto simp: go_In_def)

lemma round:
  fixes es :: "'j Entry list"
  assumes "all_in_time L t0 acts now es"
  defines "es1 \<equiv> sortEntriesByNext es"
  defines "now' \<equiv> fires now (newSchedulerTimer es1 now)"
  shows "handleTimerFired L now' es1 = Ret (now', filter (due now') es1, map (advanced now') es1)"
    and "all_on_track L t0 (\<lambda>i. acts i @ started_at i [(now', filter (due now') es1)]) now' (map (advanced now') es1)"
    and "identities (map (advanced now') es1) = identities es"
    and "instant now \<le> instant now'"
proof -
  have es: "valid_time now" "tloc now = L" "distinct (map ID es)"
    "\<And>e. e \<in> set es1 \<Longrightarrow> in_time L (t0 (ID e)) (acts (ID e)) now e"
    using assms(1) by (simp_all add: all_in_time_def es1_def)
  have sorted: "by_next es1" by (simp add: es1_def by_next_sorted)
  note timer = timer_before_next [OF sorted es(4) es(1)]
  have now': "valid_time now'" "instant now' = instant now + newSchedulerTimer es1 now" "tloc now' = L"
    using fires_props [OF es(1)] timer(1) es(2) by (simp_all add: now'_def)
  show "instant now \<le> instant now'" using now'(2) timer(1) by simp
  have law: "lawful_entry L e" if "e \<in> set es1" for e using es(4) [OF that] by (simp add: in_time_def)
  have "runDueEntries now' es1 = Ret (filter (due now') es1, map (advanced now') es1)"
    unfolding advanced_def [abs_def]
    using lawful_entry_Next [OF law now'(1,3)] by (intro runDueEntries_prefix sorted) blast
  then show "handleTimerFired L now' es1 = Ret (now', filter (due now') es1, map (advanced now') es1)"
    using go_In_self [OF now'(3)] by (simp add: handleTimerFired_def)
  show "identities (map (advanced now') es1) = identities es"
    by (force simp: identities_def es1_def image_image)
  have dist: "distinct (map ID es1)"
    using es(3) unfolding es1_def sortEntriesByNext_key by (metis mset_map mset_sort mset_eq_imp_distinct_iff)
  have "started_at (ID e) [(now', filter (due now') es1)] = (if due now' e then [now'] else [])"
    if "e \<in> set es1" for e
    using that dist by (auto simp: started_at_def list_ex_iff distinct_map inj_on_def)
  moreover have "on_track L (t0 (ID e)) (acts (ID e) @ (if due now' e then [now'] else [])) now' (advanced now' e)"
    if "e \<in> set es1" for e
    using that by (intro advanced_on_track [OF es(4) now'(1,3)]) (auto simp: now'(2) intro: timer(2))
  ultimately show "all_on_track L t0 (\<lambda>i. acts i @ started_at i [(now', filter (due now') es1)]) now' (map (advanced now') es1)"
    using now' dist by (simp add: all_on_track_iff comp_def)
qed

lemma round_later:
  assumes "all_on_track L t0 acts now es"
  shows "instant now < instant (fires now (newSchedulerTimer (sortEntriesByNext es) now))"
proof -
  have "valid_time now" "0 < newSchedulerTimer (sortEntriesByNext es) now"
    using assms timer_positive [of "sortEntriesByNext es" L "t0 \<circ> ID" "acts \<circ> ID" now]
    by (auto simp: all_on_track_iff)
  then show ?thesis using fires_props(2) by simp
qed

subsection \<open>All rounds\<close>

lemma started_at_Cons:
  "started_at i (x # log) = started_at i [x] @ started_at i log"
  by (simp add: started_at_def)

lemma timer_rounds_on_track:
  "all_on_track L t0 acts now es \<Longrightarrow>
   \<exists>log now' es'. timer_rounds L n now es = Ret (log, now', es') \<and>
     all_on_track L t0 (\<lambda>i. acts i @ started_at i log) now' es' \<and>
     identities es' = identities es \<and> instant now + int n \<le> instant now'"
proof (induction n arbitrary: acts now es)
  case 0
  then show ?case by (simp add: started_at_def)
next
  case (Suc n)
  define es1 where "es1 = sortEntriesByNext es"
  define now1 where "now1 = fires now (newSchedulerTimer es1 now)"
  have "all_in_time L t0 acts now es" using Suc.prems by (simp add: all_on_track_def)
  note r = round [OF this, folded es1_def, folded now1_def]
  have later: "instant now < instant now1"
    using round_later [OF Suc.prems] by (simp add: es1_def now1_def)
  let ?st = "filter (due now1) es1" and ?es2 = "map (advanced now1) es1"
  obtain log now' es' where rest: "timer_rounds L n now1 ?es2 = Ret (log, now', es')"
    "all_on_track L t0 (\<lambda>i. (acts i @ started_at i [(now1, ?st)]) @ started_at i log) now' es'"
    "identities es' = identities ?es2" "instant now1 + int n \<le> instant now'"
    using Suc.IH [OF r(2)] by blast
  have "timer_rounds L (Suc n) now es = Ret ((now1, ?st) # log, now', es')"
    using r(1) rest(1) by (simp add: es1_def [symmetric] now1_def [symmetric] Let_def)
  moreover have "(\<lambda>i. (acts i @ started_at i [(now1, ?st)]) @ started_at i log) =
      (\<lambda>i. acts i @ started_at i ((now1, ?st) # log))"
    by (rule ext) (simp add: started_at_Cons [of _ _ log])
  ultimately show ?case
    using rest(2-4) r(3) later by (intro exI [of _ "(now1, ?st) # log"] exI [of _ now'] exI [of _ es']) simp
qed

lemma initializeEntries_on_track:
  assumes "list_all (lawful_entry L) es" "distinct (map ID es)" "valid_time now" "tloc now = L"
  shows "\<exists>es0. initializeEntries now es = Ret es0 \<and> all_on_track L (\<lambda>_. now) (\<lambda>_. []) now es0 \<and>
    identities es0 = identities es"
proof -
  let ?init = "\<lambda>e. e\<lparr>Next := the_value (eSchedule e now)\<rparr>"
  have e: "on_track L now [] now (?init e)" if "e \<in> set es" for e
  proof -
    have law: "lawful_entry L e" using that assms(1) by (simp add: list_all_iff)
    obtain u where u: "eSchedule e now = Ret u" "IsZero u \<or> After u now \<and> valid_time u \<and> tloc u = L"
      using lawful_entry_Next [OF law assms(3,4)] by blast
    then have "IsZero u \<or> instant now \<le> instant u" using instant_After assms(3) by force
    then show ?thesis using law u by (auto simp: on_track_def in_time_def lawful_entry_def)
  qed
  have "initializeEntries now es = Ret (map ?init es)"
    using initializeEntries_eq assms(1,3,4) by blast
  moreover have "all_on_track L (\<lambda>_. now) (\<lambda>_. []) now (map ?init es)"
    using e assms(2-4) by (auto simp: all_on_track_iff comp_def)
  moreover have "identities (map ?init es) = identities es"
    by (simp add: identities_def image_image)
  ultimately show ?thesis by blast
qed

text \<open>
  Driven by a timer that fires when asked to, the scheduler starts every entry at exactly the
  activations of its schedule: the times at which it was started are what \<open>NextN\<close> lists from the
  start of the scheduler on, none is late, doubled or missed, and the next one is still to come. Each
  round moves time forward.
\<close>

lemma rounds_keep_schedule:
  assumes "list_all (lawful_entry L) es" "distinct (map ID es)" "valid_time now" "tloc now = L"
  shows "\<exists>es0 log now' es'. initializeEntries now es = Ret es0 \<and> timer_rounds L n now es0 = Ret (log, now', es') \<and>
    instant now + int n \<le> instant now' \<and>
    list_all (\<lambda>e. let ts = started_at (ID e) log in
       NextN (eSchedule e) now (int (length ts)) = Ret ts \<and>
       (\<exists>u. eSchedule e (last (now # ts)) = Ret u \<and> (IsZero u \<or> After u now'))) es"
proof -
  obtain es0 where es0: "initializeEntries now es = Ret es0" "all_on_track L (\<lambda>_. now) (\<lambda>_. []) now es0"
    "identities es0 = identities es"
    using initializeEntries_on_track [OF assms] by blast
  obtain log now' es' where run: "timer_rounds L n now es0 = Ret (log, now', es')"
    "all_on_track L (\<lambda>_. now) (\<lambda>i. [] @ started_at i log) now' es'"
    "identities es' = identities es0" "instant now + int n \<le> instant now'"
    using timer_rounds_on_track [OF es0(2)] by blast
  have "NextN (eSchedule e) now (int (length (started_at (ID e) log))) = Ret (started_at (ID e) log) \<and>
      (\<exists>u. eSchedule e (last (now # started_at (ID e) log)) = Ret u \<and> (IsZero u \<or> After u now'))"
    if "e \<in> set es" for e
  proof -
    have "(ID e, eSchedule e) \<in> identities es'"
      using that run(3) es0(3) by (simp add: identities_def)
    then obtain e' where e': "e' \<in> set es'" "ID e' = ID e" "eSchedule e' = eSchedule e"
      by (auto simp: identities_def)
    have "on_track L now (started_at (ID e') log) now' e'"
      using run(2) e'(1) by (simp add: all_on_track_iff)
    then show ?thesis using e'(2,3) by (auto simp: on_track_def in_time_def activations_NextN)
  qed
  then show ?thesis using es0(1) run(1,4) by (auto simp: list_all_iff Let_def)
qed

end
