(* ===== verification/Cron_Late.thy ===== *)
theory Cron_Late
  imports Cron_Timeline
begin

text \<open>
  The scheduler loop while entries come and go, and with timers that may be late. An event of
  \<open>processSchedulerEvent\<close> is taken when it is ready: the timer at or after the time it was asked to
  fire at, an entry to add or an ID to remove. (A request for a snapshot changes nothing, and the timer
  goes on.) An entry to add keeps the contract of \<open>Schedule\<close> and has an ID of its own, as \<open>scheduleEntry\<close>
  gives it. The log, newest first, says what happened when. Events come at any time and in any order;
  an entry may be added or removed when the timer is due already, and then a new timer is set. \<open>lag\<close>
  bounds how slow the loop is: with \<open>Some l\<close> it takes its next event at most \<open>l\<close> nanoseconds after the
  time its timer was to fire at, whatever the event is; with \<open>None\<close> there is no bound.
\<close>

definition handleEntryRemoved :: "location \<Rightarrow> gotime \<Rightarrow> int \<Rightarrow> 'j Entry list \<Rightarrow> gotime \<times> 'j Entry list" where
  "handleEntryRemoved loc clock i es = (let now = go_In clock loc in (now, removeEntry i es))"

datatype 'j happening =
    Ran gotime "'j Entry list"
  | Entered gotime int
  | Departed gotime int

text \<open>The time at which the timer asked for at \<open>now\<close> is to fire, and when the next event can come.\<close>

definition timer_fires :: "gotime \<Rightarrow> 'j Entry list \<Rightarrow> gotime" where
  "timer_fires now es = fires now (newSchedulerTimer (sortEntriesByNext es) now)"

definition within_lag :: "nat option \<Rightarrow> gotime \<Rightarrow> gotime \<Rightarrow> bool" where
  "within_lag lag a t \<longleftrightarrow> (case lag of None \<Rightarrow> True | Some l \<Rightarrow> instant t \<le> instant a + int l)"

definition on_time :: "nat option \<Rightarrow> gotime \<Rightarrow> gotime \<Rightarrow> bool" where
  "on_time lag a t \<longleftrightarrow> instant a \<le> instant t \<and> within_lag lag a t"

definition meanwhile :: "nat option \<Rightarrow> gotime \<Rightarrow> 'j Entry list \<Rightarrow> gotime \<Rightarrow> bool" where
  "meanwhile lag now es t \<longleftrightarrow>
     valid_time t \<and> instant now \<le> instant t \<and> within_lag lag (timer_fires now es) t"

lemma within_lag_None [simp]: "within_lag None a t"
  by (simp add: within_lag_def)

definition entered :: "'j happening list \<Rightarrow> int set" where
  "entered log = {i. \<exists>t. Entered t i \<in> set log}"

inductive late ::
  "nat option \<Rightarrow> location \<Rightarrow> gotime \<times> 'j Entry list \<times> 'j happening list \<Rightarrow>
    gotime \<times> 'j Entry list \<times> 'j happening list \<Rightarrow> bool"
  for lag loc where
  fired: "valid_time t \<Longrightarrow> on_time lag (timer_fires now es) t \<Longrightarrow>
    handleTimerFired loc t (sortEntriesByNext es) = Ret (now', started, es') \<Longrightarrow>
    late lag loc (now, es, log) (now', es', Ran now' started # log)"
| added: "meanwhile lag now es t \<Longrightarrow> lawful_entry loc e \<Longrightarrow> ID e \<notin> entered log \<Longrightarrow> now' = go_In t loc \<Longrightarrow>
    handleEntryAdded now' e (sortEntriesByNext es) = Ret es' \<Longrightarrow>
    late lag loc (now, es, log) (now', es', Entered now' (ID e) # log)"
| removed: "meanwhile lag now es t \<Longrightarrow> handleEntryRemoved loc t i (sortEntriesByNext es) = (now', es') \<Longrightarrow>
    late lag loc (now, es, log) (now', es', Departed now' i # log)"

text \<open>
  What the log says of an entry: nothing, \<open>None\<close>, if it is not in the list; else the time it was
  added at, followed by the times at which its job was started since.
\<close>

fun history :: "int \<Rightarrow> 'j happening list \<Rightarrow> gotime list option" where
  "history i [] = None"
| "history i (Entered t k # log) = (if k = i then Some [t] else history i log)"
| "history i (Departed t k # log) = (if k = i then None else history i log)"
| "history i (Ran t started # log) =
     map_option (\<lambda>ts. ts @ (if list_ex (\<lambda>e. ID e = i) started then [t] else [])) (history i log)"

text \<open>Only the jobs of entries in the list are ever started.\<close>

fun only_listed :: "'j happening list \<Rightarrow> bool" where
  "only_listed [] \<longleftrightarrow> True"
| "only_listed (Ran t started # log) \<longleftrightarrow>
     list_all (\<lambda>e. history (ID e) log \<noteq> None) started \<and> only_listed log"
| "only_listed (_ # log) \<longleftrightarrow> only_listed log"

text \<open>After the timer has fired, nothing is due.\<close>

fun none_overdue :: "gotime \<Rightarrow> 'j Entry list \<Rightarrow> 'j happening list \<Rightarrow> bool" where
  "none_overdue now es (Ran t started # log) \<longleftrightarrow> \<not> list_ex (due now) es"
| "none_overdue now es _ \<longleftrightarrow> True"

definition added_at :: "'j happening list \<Rightarrow> int \<Rightarrow> gotime" where
  "added_at log i = hd (the (history i log))"

definition runs_at :: "'j happening list \<Rightarrow> int \<Rightarrow> gotime list" where
  "runs_at log i = tl (the (history i log))"

lemma history_nonempty: "history i log = Some ts \<Longrightarrow> ts \<noteq> []"
  by (induction i log arbitrary: ts rule: history.induct) (auto split: if_splits)

lemma history_entered: "history i log = Some ts \<Longrightarrow> i \<in> entered log"
  by (induction i log arbitrary: ts rule: history.induct) (auto simp: entered_def split: if_splits)

lemma history_parts: "history i log = Some ts \<Longrightarrow> history i log = Some (added_at log i # runs_at log i)"
  using history_nonempty [of i log ts] by (simp add: added_at_def runs_at_def)

subsection \<open>Delayed activations\<close>

text \<open>How many entries were added or removed after \<open>a\<close> and up to \<open>u\<close>.\<close>

fun changed :: "gotime \<Rightarrow> gotime \<Rightarrow> 'j happening \<Rightarrow> bool" where
  "changed a u (Ran t started) \<longleftrightarrow> False"
| "changed a u (Entered t i) \<longleftrightarrow> instant a < instant t \<and> instant t \<le> instant u"
| "changed a u (Departed t i) \<longleftrightarrow> instant a < instant t \<and> instant t \<le> instant u"

definition changes :: "'j happening list \<Rightarrow> gotime \<Rightarrow> gotime \<Rightarrow> nat" where
  "changes log a u = length (filter (changed a u) log)"

text \<open>
  Each of the starts follows the activation that the schedule gives from the start before it, by no
  more than the lag, once, and once more for each entry added or removed in between: that event may have
  come when the timer was due, and the loop had to set a new one. An activation that passes before the
  job is started is not made up for.
\<close>

definition in_bounds :: "nat option \<Rightarrow> 'j happening list \<Rightarrow> gotime \<Rightarrow> gotime \<Rightarrow> bool" where
  "in_bounds lag log a u \<longleftrightarrow> instant a \<le> instant u \<and>
     (case lag of None \<Rightarrow> True | Some l \<Rightarrow> instant u \<le> instant a + int (l * Suc (changes log a u)))"

definition follows ::
  "nat option \<Rightarrow> 'j happening list \<Rightarrow> (gotime \<Rightarrow> gotime call) \<Rightarrow> gotime \<Rightarrow> gotime \<Rightarrow> bool" where
  "follows lag log sched t u \<longleftrightarrow>
     (case sched t of Ret a \<Rightarrow> \<not> IsZero a \<and> After a t \<and> in_bounds lag log a u | _ \<Rightarrow> False)"

primrec delayed ::
  "nat option \<Rightarrow> 'j happening list \<Rightarrow> (gotime \<Rightarrow> gotime call) \<Rightarrow> gotime \<Rightarrow> gotime list \<Rightarrow> bool" where
  "delayed lag log sched t [] \<longleftrightarrow> True"
| "delayed lag log sched t (u # us) \<longleftrightarrow> follows lag log sched t u \<and> delayed lag log sched u us"

lemma follows_iff:
  "follows lag log sched t u \<longleftrightarrow>
     (\<exists>a. sched t = Ret a \<and> \<not> IsZero a \<and> After a t \<and> in_bounds lag log a u)"
  by (auto simp: follows_def split: go.splits)

lemma delayed_snoc:
  "delayed lag log sched t (us @ [v]) \<longleftrightarrow>
     delayed lag log sched t us \<and> follows lag log sched (last (t # us)) v"
  by (induction us arbitrary: t) auto

text \<open>A longer log has more changes, and so has a longer time.\<close>

lemma changes_Cons: "changes (h # log) a u = (if changed a u h then 1 else 0) + changes log a u"
  by (simp add: changes_def)

lemma changes_later:
  assumes "instant u \<le> instant v"
  shows "changes log a u \<le> changes log a v"
proof (induction log)
  case (Cons h log)
  have "changed a u h \<Longrightarrow> changed a v h" using assms by (cases h) auto
  then show ?case using Cons by (auto simp: changes_Cons)
qed (simp add: changes_def)

lemma in_bounds_Cons: "in_bounds lag log a u \<Longrightarrow> in_bounds lag (h # log) a u"
proof -
  have "int (l * Suc (changes log a u)) \<le> int (l * Suc (changes (h # log) a u))" for l
    by (simp only: of_nat_le_iff) (rule mult_le_mono2, simp add: changes_Cons)
  then show "in_bounds lag log a u \<Longrightarrow> in_bounds lag (h # log) a u"
    by (auto simp: in_bounds_def split: option.splits intro: order_trans)
qed

lemma delayed_Cons: "delayed lag log sched t us \<Longrightarrow> delayed lag (h # log) sched t us"
  by (induction us arbitrary: t) (auto simp: follows_iff intro: in_bounds_Cons)

definition in_location :: "location \<Rightarrow> gotime \<Rightarrow> bool" where
  "in_location L t \<longleftrightarrow> valid_time t \<and> tloc t = L"

lemma in_location_In: "valid_time t \<Longrightarrow> in_location L (go_In t L)" "instant (go_In t L) = instant t"
  by (simp_all add: in_location_def go_In_def valid_time_def instant_def)

text \<open>With no lag these are the activations themselves.\<close>

lemma delayed_no_lag:
  assumes "schedule_law sched L" "list_all (in_location L) (t # us)" "delayed (Some 0) log sched t us"
  shows "activations sched t us"
  using assms(2,3)
proof (induction us arbitrary: t)
  case (Cons u us)
  obtain a where a: "sched t = Ret a" "\<not> IsZero a" "After a t" "instant a = instant u"
    using Cons.prems(2) by (auto simp: in_bounds_def follows_iff)
  then have "in_location L a"
    using schedule_law.later [OF assms(1), of t a] Cons.prems(1) by (simp add: in_location_def)
  then have "a = u" using instant_eq [of a u] a(4) Cons.prems(1) by (simp add: in_location_def)
  then show ?case using Cons a by simp
qed simp

text \<open>Times in the order of their starts.\<close>

lemma delayed_increasing:
  assumes "schedule_law sched L" "list_all (in_location L) (t # us)" "delayed lag log sched t us"
  shows "sorted_wrt (\<lambda>x y. instant x < instant y) (t # us)"
  using assms(2,3)
proof (induction us arbitrary: t)
  case (Cons u us)
  obtain a where a: "sched t = Ret a" "\<not> IsZero a" "After a t" "instant a \<le> instant u"
    using Cons.prems(2) by (auto simp: in_bounds_def follows_iff)
  then have "valid_time a"
    using schedule_law.later [OF assms(1), of t a] Cons.prems(1) by (simp add: in_location_def)
  then have "instant t < instant u"
    using a instant_After [of a t] Cons.prems(1) by (simp add: in_location_def)
  moreover have "sorted_wrt (\<lambda>x y. instant x < instant y) (u # us)"
    by (rule Cons.IH) (use Cons.prems in simp_all)
  ultimately show ?case by fastforce
qed simp

subsection \<open>Every event keeps the entries in their schedules\<close>

definition not_past :: "nat option \<Rightarrow> 'j happening list \<Rightarrow> gotime \<Rightarrow> gotime \<Rightarrow> bool" where
  "not_past lag log a now \<longleftrightarrow>
     (case lag of None \<Rightarrow> True | Some l \<Rightarrow> instant now \<le> instant a + int (l * changes log a now))"

definition entry_late ::
  "nat option \<Rightarrow> 'j happening list \<Rightarrow> location \<Rightarrow> gotime \<Rightarrow> gotime list \<Rightarrow> gotime \<Rightarrow> 'j Entry \<Rightarrow> bool" where
  "entry_late lag log L t0 acts now e \<longleftrightarrow>
     lawful_entry L e \<and> list_all (in_location L) (t0 # acts) \<and> delayed lag log (eSchedule e) t0 acts \<and>
     eSchedule e (last (t0 # acts)) = Ret (Next e) \<and> (IsZero (Next e) \<or> not_past lag log (Next e) now)"

lemma not_past_later: "instant now \<le> instant a \<Longrightarrow> not_past lag log a now"
  by (auto simp: not_past_def split: option.splits intro: order_trans [of _ "instant a"])

lemma in_location_last: "list_all (in_location L) (t0 # acts) \<Longrightarrow> in_location L (last (t0 # acts))"
  by (induction acts arbitrary: t0) auto

lemma entry_late_Next:
  assumes "entry_late lag log L t0 acts now e" "\<not> IsZero (Next e)"
  shows "in_location L (Next e)" "After (Next e) (last (t0 # acts))"
proof -
  have "lawful_entry L e" "eSchedule e (last (t0 # acts)) = Ret (Next e)" "in_location L (last (t0 # acts))"
    using assms(1) in_location_last [of L t0 acts] unfolding entry_late_def by blast+
  then show "in_location L (Next e)" "After (Next e) (last (t0 # acts))"
    using lawful_entry_Next [of L e "last (t0 # acts)"] assms(2) by (auto simp: in_location_def)
qed

definition tracked :: "nat option \<Rightarrow> location \<Rightarrow> gotime \<times> 'j Entry list \<times> 'j happening list \<Rightarrow> bool" where
  "tracked lag L s \<longleftrightarrow>
     (case s of (now, es, log) \<Rightarrow>
        in_location L now \<and> distinct (map ID es) \<and>
        (\<forall>e \<in> set es. entry_late lag log L (added_at log (ID e)) (runs_at log (ID e)) now e) \<and>
        (\<forall>i. history i log = None \<longleftrightarrow> i \<notin> ID ` set es) \<and> only_listed log \<and> none_overdue now es log)"

lemma trackedD:
  assumes "tracked lag L (now, es, log)"
  shows "valid_time now" "tloc now = L" "distinct (map ID es)"
    "e \<in> set es \<Longrightarrow> entry_late lag log L (added_at log (ID e)) (runs_at log (ID e)) now e"
    "history i log = None \<longleftrightarrow> i \<notin> ID ` set es" "only_listed log" "none_overdue now es log"
  using assms by (simp_all add: tracked_def in_location_def)

lemma trackedI:
  assumes "in_location L now" "distinct (map ID es)"
    and "\<And>e. e \<in> set es \<Longrightarrow> entry_late lag log L (added_at log (ID e)) (runs_at log (ID e)) now e"
    and "\<And>i. history i log = None \<longleftrightarrow> i \<notin> ID ` set es" "only_listed log" "none_overdue now es log"
  shows "tracked lag L (now, es, log)"
  using assms by (simp add: tracked_def)

lemma distinct_sorted: "distinct (map ID (sortEntriesByNext es)) \<longleftrightarrow> distinct (map ID es)"
  unfolding sortEntriesByNext_key by (metis mset_map mset_sort mset_eq_imp_distinct_iff)

text \<open>A timer is set for the first activation, or for now if that has passed.\<close>

lemma timer_fires_le:
  assumes "valid_time now" "\<And>e. e \<in> set es \<Longrightarrow> \<not> IsZero (Next e) \<Longrightarrow> valid_time (Next e)"
    and "e \<in> set es" "\<not> IsZero (Next e)"
  shows "instant (timer_fires now es) \<le> max (instant now) (instant (Next e))"
proof -
  let ?es = "sortEntriesByNext es"
  obtain h hs where Cons: "?es = h # hs" using assms(3) set_sorted [of es] by (cases ?es) auto
  then have "h \<in> set es" using set_sorted [of es] by auto
  have le: "next_key h \<le> next_key e"
    using by_next_sorted [of es] assms(3) set_sorted [of es] by (auto simp: Cons)
  then have h: "\<not> IsZero (Next h)"
    using assms(4) by (auto simp: next_key_def less_eq_activation_key_def split: if_splits)
  then have n: "instant (Next h) \<le> instant (Next e)"
    using next_key_instant [OF le assms(4)] assms(2) \<open>h \<in> set es\<close> assms(3,4) by blast
  have "instant (timer_fires now es) = instant now + max (go_Sub (Next h) now) 0"
    using fires_props(2) [OF assms(1), of "max (go_Sub (Next h) now) 0"]
    by (simp add: timer_fires_def Cons newSchedulerTimer_def h fires_def)
  moreover have "instant now + max (go_Sub (Next h) now) 0 \<le> max (instant now) (instant (Next h))"
  proof (cases "instant now \<le> instant (Next h)")
    case True
    then show ?thesis using go_Sub_later(1) [OF True] by simp
  next
    case False
    then have "go_Sub (Next h) now \<le> 0" by (simp add: go_Sub_def)
    then show ?thesis by simp
  qed
  ultimately show ?thesis using n by linarith
qed

lemma tracked_timer:
  assumes "tracked lag L (now, es, log)" "e \<in> set es" "\<not> IsZero (Next e)"
  shows "instant (timer_fires now es) \<le> max (instant now) (instant (Next e))"
proof -
  note e = trackedD(4) [OF assms(1)]
  have "valid_time (Next f)" if "f \<in> set es" "\<not> IsZero (Next f)" for f
    using entry_late_Next(1) [OF e [OF that(1)] that(2)] by (simp add: in_location_def)
  then show ?thesis using assms(2,3) by (rule timer_fires_le [OF trackedD(1) [OF assms(1)]])
qed

text \<open>An event within the lag is at most one lag later than the list has been behind so far.\<close>

lemma tracked_lag:
  assumes "tracked (Some l) L (now, es, log)" "e \<in> set es" "\<not> IsZero (Next e)" "instant now \<le> instant t"
    and "within_lag (Some l) (timer_fires now es) t"
  shows "instant t \<le> instant (Next e) + int (l * Suc (changes log (Next e) t))"
proof -
  let ?c = "changes log (Next e)"
  have "not_past (Some l) log (Next e) now"
    using trackedD(4) [OF assms(1,2)] assms(3) by (simp add: entry_late_def)
  then have n: "instant now \<le> instant (Next e) + int (l * ?c now)" by (simp add: not_past_def)
  have "l * ?c now \<le> l * ?c t" using changes_later [OF assms(4)] by (rule mult_le_mono2)
  then have "int (l * ?c now) \<le> int (l * ?c t)" by (simp only: of_nat_le_iff)
  moreover have "instant t \<le> max (instant now) (instant (Next e)) + int l"
    using tracked_timer [OF assms(1-3)] assms(5) by (simp add: within_lag_def)
  moreover have "int (l * Suc (?c t)) = int l + int (l * ?c t)" by simp
  moreover have "0 \<le> int (l * ?c t)" by simp
  ultimately show ?thesis using n by linarith
qed

text \<open>Another entry is added or removed at \<open>t\<close>.\<close>

lemma entry_late_later:
  assumes "tracked lag L (now, es, log)" "meanwhile lag now es t" "e \<in> set es"
    and "h = Entered t i \<or> h = Departed t i"
  shows "entry_late lag (h # log) L (added_at log (ID e)) (runs_at log (ID e)) t e"
proof -
  note e = trackedD(4) [OF assms(1,3)]
  have "not_past lag (h # log) (Next e) t" if n: "\<not> IsZero (Next e)"
  proof (cases "lag = None \<or> instant t \<le> instant (Next e)")
    case True
    then show ?thesis using not_past_later [of t "Next e" lag] by (auto simp: not_past_def)
  next
    case False
    then obtain l where l: "lag = Some l" by auto
    have "changes (h # log) (Next e) t = Suc (changes log (Next e) t)"
      using False assms(4) by (auto simp: changes_Cons)
    then show ?thesis using tracked_lag [of l L now es log e t] assms(1-3) n
      by (simp add: not_past_def meanwhile_def l)
  qed
  with e show ?thesis using delayed_Cons unfolding entry_late_def by blast
qed

lemma entry_late_Ran:
  "entry_late lag (Ran t started # log) L t0 acts now e = entry_late lag log L t0 acts now e"
proof -
  have b: "in_bounds lag (Ran t started # log) a u = in_bounds lag log a u" for a u
    by (simp add: in_bounds_def changes_Cons split: option.splits)
  have "delayed lag (Ran t started # log) sched x us = delayed lag log sched x us" for sched x us
    by (induction us arbitrary: x) (simp_all add: follows_iff b)
  moreover have "not_past lag (Ran t started # log) a u = not_past lag log a u" for a u
    by (simp add: not_past_def changes_Cons split: option.splits)
  ultimately show ?thesis by (simp add: entry_late_def)
qed

lemma meanwhile_In:
  "meanwhile lag now es t \<Longrightarrow> meanwhile lag now es (go_In t L) \<and> in_location L (go_In t L)"
  using in_location_In [of t L] by (simp add: meanwhile_def within_lag_def in_location_def split: option.splits)

text \<open>The timer fires at \<open>now'\<close>.\<close>

lemma advanced_late:
  assumes "entry_late lag log L t0 acts now e" "in_location L now'"
    and "\<not> IsZero (Next e) \<Longrightarrow> due now' e \<Longrightarrow> in_bounds lag log (Next e) now'"
  shows "entry_late lag log L t0 (acts @ (if due now' e then [now'] else [])) now' (advanced now' e) \<and>
    \<not> due now' (advanced now' e)"
proof (cases "due now' e")
  case True
  then have n: "\<not> IsZero (Next e)" "\<not> After (Next e) now'" by (simp_all add: due_def)
  note nxt = entry_late_Next [OF assms(1) n(1)]
  have law: "lawful_entry L e" using assms(1) by (simp add: entry_late_def)
  have v: "valid_time now'" "tloc now' = L" using assms(2) by (simp_all add: in_location_def)
  obtain u where u: "eSchedule e now' = Ret u" "IsZero u \<or> After u now' \<and> valid_time u \<and> tloc u = L"
    using lawful_entry_Next [OF law v] by blast
  have adv: "advanced now' e = e\<lparr>Prev := Next e, Next := u\<rparr>" using True u(1) by (simp add: advanced_def)
  have "follows lag log (eSchedule e) (last (t0 # acts)) now'"
    unfolding follows_iff using assms(1) n(1) nxt(2) assms(3) [OF n(1) True]
    by (simp only: entry_late_def) blast
  then have d: "delayed lag log (eSchedule e) t0 (acts @ [now'])"
    using assms(1) by (simp only: delayed_snoc entry_late_def)
  have "IsZero u \<or> not_past lag log u now'" using u(2) instant_After v(1) not_past_later by force
  then have "entry_late lag log L t0 (acts @ [now']) now' (e\<lparr>Prev := Next e, Next := u\<rparr>)"
    using assms(1,2) d u by (auto simp: entry_late_def lawful_entry_def)
  moreover have "\<not> due now' (e\<lparr>Prev := Next e, Next := u\<rparr>)" using u(2) by (auto simp: due_def)
  ultimately show ?thesis using True by (simp add: adv)
next
  case False
  have "not_past lag log (Next e) now'" if "\<not> IsZero (Next e)"
  proof (rule not_past_later)
    have "After (Next e) now'" using False that by (simp add: due_def)
    then show "instant now' \<le> instant (Next e)"
      using entry_late_Next(1) [OF assms(1) that] assms(2) instant_After [of "Next e" now']
      by (simp add: in_location_def)
  qed
  then show ?thesis using assms(1) False by (auto simp: advanced_def entry_late_def)
qed

lemma fires_tracked:
  assumes "tracked lag L (now, es, log)" "valid_time t" "on_time lag (timer_fires now es) t"
  defines "now' \<equiv> go_In t L" and "es1 \<equiv> sortEntriesByNext es"
  shows "handleTimerFired L t es1 = Ret (now', filter (due now') es1, map (advanced now') es1)" (is ?run)
    and "tracked lag L (now', map (advanced now') es1, Ran now' (filter (due now') es1) # log)" (is ?tracked)
proof -
  let ?log = "Ran now' (filter (due now') es1) # log"
  have now': "in_location L now'" "instant now' = instant t"
    using in_location_In(1) [OF assms(2), of L] in_location_In(2) [of t L] by (simp_all add: now'_def)
  then have v: "valid_time now'" "tloc now' = L" by (simp_all add: in_location_def)
  have es1: "set es1 = set es" "distinct (map ID es1)"
    using trackedD(3) [OF assms(1)] by (simp_all add: es1_def distinct_sorted)
  note e = trackedD(4) [OF assms(1)]
  have "instant now \<le> instant (timer_fires now es)"
    using fires_props(2) [of now "max (newSchedulerTimer (sortEntriesByNext es) now) 0"] trackedD(1) [OF assms(1)]
    by (simp add: timer_fires_def fires_def)
  then have after: "instant now \<le> instant now'" "within_lag lag (timer_fires now es) now'"
    using assms(3) by (auto simp: on_time_def within_lag_def now'(2) split: option.splits)
  have late: "in_bounds lag log (Next f) now'"
    if f: "f \<in> set es" "\<not> IsZero (Next f)" "due now' f" for f
  proof -
    have "instant (Next f) \<le> instant now'"
      using entry_late_Next(1) [OF e [OF f(1)] f(2)] f(2,3) v(1) instant_After [of "Next f" now']
      by (simp add: in_location_def due_def)
    moreover have "instant now' \<le> instant (Next f) + int (l * Suc (changes log (Next f) now'))"
      if "lag = Some l" for l
      using tracked_lag [of l L now es log f now'] assms(1) f(1,2) after that by simp
    ultimately show ?thesis by (auto simp: in_bounds_def split: option.splits)
  qed
  have law: "lawful_entry L f" if "f \<in> set es1" for f using e [of f] that by (simp add: es1(1) entry_late_def)
  have "runDueEntries now' es1 = Ret (filter (due now') es1, map (advanced now') es1)"
    unfolding advanced_def [abs_def]
    using lawful_entry_Next [OF law v] by (intro runDueEntries_prefix) (auto simp: es1_def by_next_sorted)
  then show ?run by (simp add: handleTimerFired_def now'_def Let_def)
  have ids: "ID ` set (map (advanced now') es1) = ID ` set es" by (simp add: image_image es1(1))
  have kept: "entry_late lag ?log L (added_at ?log (ID f)) (runs_at ?log (ID f)) now' (advanced now' f) \<and>
      \<not> due now' (advanced now' f)" if f: "f \<in> set es1" for f
  proof -
    have "history (ID f) log \<noteq> None" using trackedD(5) [OF assms(1)] f by (simp add: es1(1))
    then obtain h where "history (ID f) log = Some h" by blast
    then have h: "history (ID f) log = Some (added_at log (ID f) # runs_at log (ID f))" by (rule history_parts)
    have "list_ex (\<lambda>g. ID g = ID f) (filter (due now') es1) \<longleftrightarrow> due now' f"
      using f es1(2) by (auto simp: list_ex_iff distinct_map inj_on_def)
    then have "added_at ?log (ID f) = added_at log (ID f)"
      "runs_at ?log (ID f) = runs_at log (ID f) @ (if due now' f then [now'] else [])"
      using h by (simp_all add: added_at_def [of ?log] runs_at_def [of ?log])
    then show ?thesis using advanced_late [OF e now'(1)] late f by (simp add: es1(1) entry_late_Ran)
  qed
  show ?tracked
  proof (rule trackedI)
    show "distinct (map ID (map (advanced now') es1))" using es1(2) by (simp add: comp_def)
    show "only_listed ?log"
      using trackedD(5,6) [OF assms(1)] by (auto simp: list_all_iff es1(1))
  qed (use kept now'(1) ids trackedD(5) [OF assms(1)] in \<open>auto simp: list_ex_iff\<close>)
qed

lemma fired_tracked:
  assumes "tracked lag L (now, es, log)" "valid_time t" "on_time lag (timer_fires now es) t"
    and "handleTimerFired L t (sortEntriesByNext es) = Ret (now', started, es')"
  shows "tracked lag L (now', es', Ran now' started # log)"
  using fires_tracked [OF assms(1-3)] assms(4) by simp

lemma added_tracked:
  assumes "tracked lag L (now, es, log)" "meanwhile lag now es t" "lawful_entry L e" "ID e \<notin> entered log"
    and "now' = go_In t L" "handleEntryAdded now' e (sortEntriesByNext es) = Ret es'"
  shows "tracked lag L (now', es', Entered now' (ID e) # log)"
proof -
  let ?log = "Entered now' (ID e) # log"
  have now': "in_location L now'" "meanwhile lag now es now'"
    using meanwhile_In [OF assms(2)] by (simp_all add: assms(5))
  then have v: "valid_time now'" "tloc now' = L" by (simp_all add: in_location_def)
  obtain u where u: "eSchedule e now' = Ret u" "IsZero u \<or> After u now' \<and> valid_time u \<and> tloc u = L"
    using lawful_entry_Next [OF assms(3) v] by blast
  have es': "es' = sortEntriesByNext es @ [e\<lparr>Next := u\<rparr>]"
    using assms(6) by (simp add: handleEntryAdded_def u(1))
  have fresh: "ID e \<notin> ID ` set es"
    using trackedD(5) [OF assms(1), of "ID e"] history_entered assms(4) by fastforce
  have "IsZero u \<or> not_past lag ?log u now'" using u(2) instant_After v(1) not_past_later by force
  then have new: "entry_late lag ?log L now' [] now' (e\<lparr>Next := u\<rparr>)"
    using u(1) assms(3) now'(1) by (simp add: entry_late_def lawful_entry_def)
  have same: "added_at ?log (ID e) = now'" "runs_at ?log (ID e) = []"
    and other: "i \<noteq> ID e \<Longrightarrow> added_at ?log i = added_at log i \<and> runs_at ?log i = runs_at log i" for i
    by (simp_all add: added_at_def runs_at_def)
  show ?thesis
  proof (rule trackedI)
    fix f assume f: "f \<in> set es'"
    show "entry_late lag ?log L (added_at ?log (ID f)) (runs_at ?log (ID f)) now' f"
    proof (cases "f \<in> set es")
      case True
      then have "ID f \<noteq> ID e" using fresh by (metis imageI)
      then show ?thesis using entry_late_later [OF assms(1) now'(2) True, of "Entered now' (ID e)"] other by simp
    next
      case False
      then have "f = e\<lparr>Next := u\<rparr>" "ID f = ID e" using f by (simp_all add: es')
      then show ?thesis using new same by simp
    qed
  next
    show "distinct (map ID es')" using trackedD(3) [OF assms(1)] fresh by (auto simp: es' distinct_sorted)
    show "history i ?log = None \<longleftrightarrow> i \<notin> ID ` set es'" for i
      using trackedD(5) [OF assms(1)] by (auto simp: es')
  qed (use now'(1) trackedD(6) [OF assms(1)] in simp_all)
qed

lemma removed_tracked:
  assumes "tracked lag L (now, es, log)" "meanwhile lag now es t"
    and "handleEntryRemoved L t i (sortEntriesByNext es) = (now', es')"
  shows "tracked lag L (now', es', Departed now' i # log)"
proof -
  let ?log = "Departed now' i # log :: 'a happening list"
  have eq: "now' = go_In t L" "es' = removeEntry i (sortEntriesByNext es)"
    using assms(3) by (simp_all add: handleEntryRemoved_def Let_def)
  have now': "in_location L now'" "meanwhile lag now es now'"
    using meanwhile_In [OF assms(2)] by (simp_all add: eq(1))
  show ?thesis
  proof (rule trackedI)
    fix f assume "f \<in> set es'"
    then have f: "f \<in> set es" "ID f \<noteq> i" by (simp_all add: eq(2) removeEntry_def)
    then have "added_at ?log (ID f) = added_at log (ID f)" "runs_at ?log (ID f) = runs_at log (ID f)"
      by (simp_all add: added_at_def runs_at_def)
    then show "entry_late lag ?log L (added_at ?log (ID f)) (runs_at ?log (ID f)) now' f"
      using entry_late_later [OF assms(1) now'(2) f(1), of "Departed now' i"] by simp
  next
    show "distinct (map ID es')"
      using trackedD(3) [OF assms(1)] by (simp add: eq(2) removeEntry_def distinct_map_filter distinct_sorted)
    show "history j ?log = None \<longleftrightarrow> j \<notin> ID ` set es'" for j
      using trackedD(5) [OF assms(1)] by (auto simp: eq(2) removeEntry_def)
  qed (use now'(1) trackedD(6) [OF assms(1)] in simp_all)
qed

lemma late_tracked: "late lag L s s' \<Longrightarrow> tracked lag L s \<Longrightarrow> tracked lag L s'"
  by (induction rule: late.induct) (auto intro: fired_tracked added_tracked removed_tracked)

lemma late_steps_tracked: "(late lag L)\<^sup>*\<^sup>* s s' \<Longrightarrow> tracked lag L s \<Longrightarrow> tracked lag L s'"
  by (induction rule: rtranclp_induct) (auto intro: late_tracked)

text \<open>The loop is never stuck: when nothing else happens, the timer fires.\<close>

lemma timer_can_fire:
  assumes "tracked lag L (now, es, log)" "valid_time t" "on_time lag (timer_fires now es) t"
  shows "\<exists>started es'. late lag L (now, es, log) (go_In t L, es', Ran (go_In t L) started # log)"
  using late.fired [OF assms(2,3) fires_tracked(1) [OF assms]] by blast

subsection \<open>From the start on\<close>

text \<open>What \<open>schedulerLoop\<close> begins with.\<close>

definition begun :: "gotime \<Rightarrow> 'j Entry list \<Rightarrow> gotime \<times> 'j Entry list \<times> 'j happening list" where
  "begun now es = (now, es, map (\<lambda>e. Entered now (ID e)) es)"

lemma history_begun:
  "history i (map (\<lambda>e. Entered now (ID e)) es) = (if i \<in> ID ` set es then Some [now] else None)"
  by (induction es) auto

lemma begun_tracked:
  assumes "list_all (lawful_entry L) es" "distinct (map ID es)" "valid_time now" "tloc now = L"
    and "initializeEntries now es = Ret es0"
  shows "tracked lag L (begun now es0)"
proof -
  let ?log = "map (\<lambda>e. Entered now (ID e)) es0"
  have ok: "all_on_track L (\<lambda>_. now) (\<lambda>_. []) now es0"
    using initializeEntries_on_track [OF assms(1-4)] assms(5) by auto
  have "tracked lag L (now, es0, ?log)"
  proof (rule trackedI)
    fix e assume e: "e \<in> set es0"
    then have "on_track L now [] now e" using ok by (simp add: all_on_track_iff)
    then show "entry_late lag ?log L (added_at ?log (ID e)) (runs_at ?log (ID e)) now e"
      using e assms(3,4)
      by (auto simp: on_track_def in_time_def entry_late_def in_location_def added_at_def runs_at_def history_begun
            not_past_later)
  next
    show "only_listed ?log" by (induction es0) simp_all
    show "none_overdue now es0 ?log" by (cases es0) simp_all
  qed (use ok assms(3,4) in \<open>simp_all add: all_on_track_iff in_location_def history_begun\<close>)
  then show ?thesis by (simp add: begun_def)
qed

text \<open>
  \<open>delayed_schedule\<close>: the entry was added at some time, has run since once after each activation, within
  the bounds, the activations taken from the time of the last run; the next one is what its \<open>Next\<close>
  says. \<open>kept_schedule\<close>: it has run since at exactly the activations that \<open>NextN\<close> lists from that time,
  and the next one is not past.
\<close>

definition delayed_schedule :: "nat option \<Rightarrow> 'j happening list \<Rightarrow> 'j Entry \<Rightarrow> bool" where
  "delayed_schedule lag log e \<longleftrightarrow>
     (\<exists>t ts. history (ID e) log = Some (t # ts) \<and> delayed lag log (eSchedule e) t ts \<and>
        sorted_wrt (\<lambda>x y. instant x < instant y) (t # ts) \<and>
        eSchedule e (last (t # ts)) = Ret (Next e))"

definition kept_schedule :: "'j happening list \<Rightarrow> gotime \<Rightarrow> 'j Entry \<Rightarrow> bool" where
  "kept_schedule log now e \<longleftrightarrow>
     (\<exists>t ts u. history (ID e) log = Some (t # ts) \<and>
        NextN (eSchedule e) t (int (length ts)) = Ret ts \<and>
        eSchedule e (last (t # ts)) = Ret u \<and> (IsZero u \<or> instant now \<le> instant u))"

lemma tracked_history:
  assumes "tracked lag L (now, es, log)" "e \<in> set es"
  shows "history (ID e) log = Some (added_at log (ID e) # runs_at log (ID e))"
proof -
  have "history (ID e) log \<noteq> None" using trackedD(5) [OF assms(1)] assms(2) by simp
  then obtain h where "history (ID e) log = Some h" by blast
  then show ?thesis by (rule history_parts)
qed

lemma tracked_delayed:
  assumes "tracked lag L (now, es, log)" "e \<in> set es"
  shows "delayed_schedule lag log e"
proof -
  note h = tracked_history [OF assms] and e = trackedD(4) [OF assms]
  then have "sorted_wrt (\<lambda>x y. instant x < instant y) (added_at log (ID e) # runs_at log (ID e))"
    by (intro delayed_increasing [where sched = "eSchedule e" and L = L and lag = lag and log = log])
      (simp_all add: entry_late_def lawful_entry_def)
  then show ?thesis unfolding delayed_schedule_def
    using h e by (intro exI [of _ "added_at log (ID e)"] exI [of _ "runs_at log (ID e)"]) (simp add: entry_late_def)
qed

lemma tracked_kept:
  assumes "tracked (Some 0) L (now, es, log)" "e \<in> set es"
  shows "kept_schedule log now e"
proof -
  note h = tracked_history [OF assms] and e = trackedD(4) [OF assms]
  then have "activations (eSchedule e) (added_at log (ID e)) (runs_at log (ID e))"
    by (intro delayed_no_lag [of _ L _ _ log]) (simp_all add: entry_late_def lawful_entry_def)
  from activations_NextN [OF this] show ?thesis unfolding kept_schedule_def
    using h e by (intro exI [of _ "added_at log (ID e)"] exI [of _ "runs_at log (ID e)"] exI [of _ "Next e"])
      (simp add: entry_late_def not_past_def)
qed

text \<open>
  C5: whenever the timers fire and whenever entries are added and removed, also when the timer is due
  already, the job of an entry is never started before its activation and never twice for one
  activation; if the loop takes its next event at most \<open>l\<close> after the time its timer was to fire at, the
  job is started at most \<open>l\<close> after its activation, and \<open>l\<close> more for each entry added or removed in
  between; if \<open>l\<close> is 0, at exactly the activations of its schedule from the time it was added, none
  missed. The next activation counts from the start of the job, so those missed are not made up for;
  when the timer has fired nothing is overdue; and only jobs of entries in the list are started.
\<close>

theorem jobs_never_early:
  assumes "list_all (lawful_entry (tloc t0)) es" "distinct (map ID es)" "valid_time t0"
    and "initializeEntries t0 es = Ret es0" "(late lag (tloc t0))\<^sup>*\<^sup>* (begun t0 es0) (now, es', log)"
  shows "list_all (delayed_schedule lag log) es' \<and> (lag = Some 0 \<longrightarrow> list_all (kept_schedule log now) es') \<and>
    none_overdue now es' log \<and> only_listed log \<and> (\<forall>i. history i log = None \<longleftrightarrow> i \<notin> ID ` set es')"
proof -
  have t: "tracked lag (tloc t0) (now, es', log)"
    using late_steps_tracked [OF assms(5) begun_tracked [OF assms(1-3) refl assms(4)]] .
  have "list_all (kept_schedule log now) es'" if "lag = Some 0"
    using tracked_kept t that by (auto simp: list_all_iff)
  then show ?thesis using tracked_delayed [OF t] trackedD(5-7) [OF t] by (simp add: list_all_iff)
qed

text \<open>
  An entry that runs every ten seconds is added at second 5 to a scheduler with no entries; its timer is
  due at second 15. A loop that may be ten seconds late is asked to remove another entry at second 24,
  sets a new timer, and starts the job at second 33, eighteen seconds late; the next is due at second 43.
  A loop that is never late starts it at second 15.
\<close>

definition second :: "int \<Rightarrow> gotime" where
  "second s = \<lparr>tsec = s, tnsec = 0, tloc = UTC\<rparr>"

definition ten :: "int \<Rightarrow> gotime \<Rightarrow> unit Entry" where
  "ten s p = every_entry 1 10 s\<lparr>Prev := p\<rparr>"

lemma second_rel [simp]: "After (second a) (second b) \<longleftrightarrow> b < a" "IsZero (second a) \<longleftrightarrow> a = 0"
  by (auto simp: second_def After_def IsZero_def)

lemma ten_sel:
  "ID (ten s p) = 1" "Next (ten s p) = second s"
  "eSchedule (ten s p) (second t) = Ret (second (t + 10))" "lawful_entry L (ten s p)"
proof -
  have d: "delay_Next (Every (10 * go_Second)) (second t) = second (t + 10)"
    by (rule trans, rule delay_Next_whole [OF _ Every_Delay _ Every_Delay_less]) (simp_all add: second_def valid_time_def)
  show "eSchedule (ten s p) (second t) = Ret (second (t + 10))"
    using d by (simp add: ten_def every_entry_def)
  show "lawful_entry L (ten s p)"
    using every_schedule_law [of "10 * go_Second"] by (simp add: ten_def every_entry_def lawful_entry_def)
qed (simp_all add: ten_def every_entry_def second_def)

lemma ten_update: "(ten s p)\<lparr>Next := second t\<rparr> = ten t p" "(ten s p)\<lparr>Prev := q, Next := second t\<rparr> = ten t q"
  by (simp_all add: ten_def every_entry_def second_def)

lemma one_entry_timer: "0 < s \<Longrightarrow> s < t \<Longrightarrow> t \<le> s + 10 \<Longrightarrow> timer_fires (second s) [ten t p] = second t"
  by (simp add: timer_fires_def fires_def newSchedulerTimer_def sortEntriesByNext_key ten_sel)
    (simp add: second_def go_Sub_def instant_def go_Add_def)

lemma second_In: "go_In (second s) UTC = second s" by (simp add: go_In_def second_def)

lemma second_time: "valid_time (second s)" "instant (second s) = s * nanos"
  by (simp_all add: second_def valid_time_def instant_def)

lemma ten_events:
  assumes "meanwhile lag (second 0) ([] :: unit Entry list) (second 5)"
  shows "late lag UTC (second 0, [], []) (second 5, [ten 15 zero_time], [Entered (second 5) 1])"
    and "meanwhile lag (second s) [ten n p] (second t) \<Longrightarrow>
      late lag UTC (second s, [ten n p], log) (second t, [ten n p], Departed (second t) 2 # log)"
    and "on_time lag (timer_fires (second s) [ten n p]) (second t) \<Longrightarrow> 0 < n \<Longrightarrow> n \<le> t \<Longrightarrow>
      late lag UTC (second s, [ten n p], log) (second t, [ten (t + 10) (second n)], Ran (second t) [ten n p] # log)"
proof -
  show "late lag UTC (second 0, [], []) (second 5, [ten 15 zero_time], [Entered (second 5) 1])"
    using late.added [OF assms ten_sel(4) [of UTC 0 zero_time], of "[]" "second 5"]
    by (simp add: second_In entered_def handleEntryAdded_def sortEntriesByNext_key ten_sel ten_update)
  show "late lag UTC (second s, [ten n p], log) (second t, [ten n p], Departed (second t) 2 # log)"
    if "meanwhile lag (second s) [ten n p] (second t)"
    by (rule late.removed [OF that])
      (simp add: handleEntryRemoved_def second_In removeEntry_def sortEntriesByNext_key ten_sel)
  show "late lag UTC (second s, [ten n p], log) (second t, [ten (t + 10) (second n)], Ran (second t) [ten n p] # log)"
    if "on_time lag (timer_fires (second s) [ten n p]) (second t)" "0 < n" "n \<le> t"
    using that(2,3)
    by (intro late.fired [OF second_time(1) that(1)])
      (simp add: handleTimerFired_def Let_def second_In sortEntriesByNext_key ten_sel ten_update)
qed

lemma three_steps:
  "late lag L a b \<Longrightarrow> late lag L b c \<Longrightarrow> late lag L c d \<Longrightarrow> (late lag L)\<^sup>*\<^sup>* a d"
  by (meson converse_rtranclp_into_rtranclp r_into_rtranclp)

lemma ten_timers:
  "meanwhile lag (second 0) ([] :: unit Entry list) (second 5)"
  "0 < s \<Longrightarrow> s < n \<Longrightarrow> n \<le> s + 10 \<Longrightarrow> timer_fires (second s) [ten n p] = second n"
  "timer_fires (second 24) [ten 15 p] = second 24"
proof -
  have "timer_fires (second 0) ([] :: unit Entry list) = second (idleTimerDuration div nanos)"
    by (simp add: timer_fires_def newSchedulerTimer_def sortEntriesByNext_key fires_def idleTimerDuration_def
        second_def go_Add_def)
  then show "meanwhile lag (second 0) ([] :: unit Entry list) (second 5)"
    by (simp add: meanwhile_def within_lag_def second_time idleTimerDuration_def split: option.splits)
  show "timer_fires (second 24) [ten 15 p] = second 24"
    by (simp add: timer_fires_def fires_def newSchedulerTimer_def sortEntriesByNext_key ten_sel)
      (simp add: second_def go_Sub_def instant_def go_Add_def)
qed (rule one_entry_timer)

definition slow :: "nat option" where
  "slow = Some 10000000000"

lemma slow_run:
  "(late slow UTC)\<^sup>*\<^sup>* (begun (second 0) []) (second 33, [ten 43 (second 15)],
     [Ran (second 33) [ten 15 zero_time], Departed (second 24) 2, Entered (second 5) 1])"
proof -
  note ev = ten_events [OF ten_timers(1)]
  have "meanwhile slow (second 5) [ten 15 zero_time] (second 24)"
    by (simp add: meanwhile_def within_lag_def slow_def ten_timers second_time)
  moreover have "on_time slow (timer_fires (second 24) [ten 15 zero_time]) (second 33)"
    by (simp add: on_time_def within_lag_def slow_def ten_timers second_time)
  ultimately show ?thesis unfolding begun_def list.map
    using three_steps [OF ev(1) [of slow] ev(2) ev(3) [where t = 33]] by force
qed

lemma prompt_run:
  "(late (Some 0) UTC)\<^sup>*\<^sup>* (begun (second 0) []) (second 20, [ten 25 (second 15)],
     [Departed (second 20) 2, Ran (second 15) [ten 15 zero_time], Entered (second 5) 1])"
proof -
  note ev = ten_events [OF ten_timers(1)]
  have "on_time (Some 0) (timer_fires (second 5) [ten 15 zero_time]) (second 15)"
    by (simp add: on_time_def within_lag_def ten_timers)
  moreover have "meanwhile (Some 0) (second 15) [ten 25 (second 15)] (second 20)"
    by (simp add: meanwhile_def within_lag_def ten_timers second_time)
  ultimately show ?thesis unfolding begun_def list.map
    using three_steps [OF ev(1) [of "Some 0"] ev(3) [where t = 15] ev(2)] by force
qed

theorem jobs_never_early_witness:
  "(\<exists>log. (late slow UTC)\<^sup>*\<^sup>* (begun (second 0) []) (second 33, [ten 43 (second 15)], log) \<and>
      delayed_schedule slow log (ten 43 (second 15)) \<and> history 1 log = Some [second 5, second 33]) \<and>
   (\<exists>log. (late (Some 0) UTC)\<^sup>*\<^sup>* (begun (second 0) []) (second 20, [ten 25 (second 15)], log) \<and>
      kept_schedule log (second 20) (ten 25 (second 15)) \<and> history 1 log = Some [second 5, second 15])"
proof
  have s: "tloc (second 0) = UTC" by (simp add: second_def)
  note claim = jobs_never_early [of "second 0" "[]" "[]", unfolded s, OF _ _ second_time(1)]
  let ?log = "[Ran (second 33) [ten 15 zero_time], Departed (second 24) 2, Entered (second 5) 1]"
  have "history 1 ?log = Some [second 5, second 33]" by (simp add: ten_sel)
  with claim [OF _ _ _ slow_run] slow_run
  show "\<exists>log. (late slow UTC)\<^sup>*\<^sup>* (begun (second 0) []) (second 33, [ten 43 (second 15)], log) \<and>
      delayed_schedule slow log (ten 43 (second 15)) \<and> history 1 log = Some [second 5, second 33]"
    by (intro exI [of _ ?log]) simp
  let ?log = "[Departed (second 20) 2, Ran (second 15) [ten 15 zero_time], Entered (second 5) 1]"
  have "history 1 ?log = Some [second 5, second 15]" by (simp add: ten_sel)
  with claim [OF _ _ _ prompt_run] prompt_run
  show "\<exists>log. (late (Some 0) UTC)\<^sup>*\<^sup>* (begun (second 0) []) (second 20, [ten 25 (second 15)], log) \<and>
      kept_schedule log (second 20) (ten 25 (second 15)) \<and> history 1 log = Some [second 5, second 15]"
    by (intro exI [of _ ?log]) simp
qed

end
