(* ===== verification/Cron_Refinement.thy ===== *)
theory Cron_Refinement
  imports Cron_Properties Cron_Late
begin

text \<open>
  The abstract scheduler that the goroutine of a run implements: its state is the entry list and
  the number of jobs in flight, and each of its events is one atomic call of a handler of the loop.
  The loop of Cron_System starts due entries one by one, with other goroutines in between; the
  abstraction function completes the round it is in.
\<close>

inductive scheduler_event :: "'j Entry list \<times> nat \<Rightarrow> 'j Entry list \<times> nat \<Rightarrow> bool" where
  initialise: "initializeEntries now es = Ret es' \<Longrightarrow> scheduler_event (es, n) (sortEntriesByNext es', n)"
| tick: "runDueEntries now es = Ret (started, es') \<Longrightarrow>
    scheduler_event (es, n) (sortEntriesByNext es', n + length started)"
| added: "handleEntryAdded now e es = Ret es' \<Longrightarrow> scheduler_event (es, n) (sortEntriesByNext es', n)"
| removed: "scheduler_event (es, n) (sortEntriesByNext (removeEntry k es), n)"
| job_end: "scheduler_event (es, Suc n) (es, n)"

definition abs_state :: "nat \<Rightarrow> 'j system \<Rightarrow> 'j Entry list \<times> nat" where
  "abs_state r s =
     (let es = entries (cron s)
      in case loops s r of
           Due now k \<Rightarrow>
             (case runDueEntries now (drop k es) of
                Ret (started, es') \<Rightarrow> (sortEntriesByNext (take k es @ es'), jobs s r + length started)
              | _ \<Rightarrow> (es, jobs s r))
         | _ \<Rightarrow> (es, jobs s r))"

text \<open>Schedules that return at every time.\<close>

definition total_entries :: "'j Entry list \<Rightarrow> bool" where
  "total_entries es \<longleftrightarrow> (\<forall>e \<in> set es. \<forall>t. \<exists>u. eSchedule e t = Ret u)"

lemma runDueEntries_total: "total_entries es \<Longrightarrow> \<exists>started es'. runDueEntries now es = Ret (started, es')"
proof (induction es)
  case (Cons e es)
  then obtain u started es' where "eSchedule e now = Ret u" "runDueEntries now es = Ret (started, es')"
    by (force simp: total_entries_def)
  then show ?case by simp
qed simp

lemma total_entries_drop: "total_entries es \<Longrightarrow> total_entries (drop k es)"
  by (auto simp: total_entries_def dest: in_set_dropD)

lemma abs_state_Due:
  assumes "loops s r = Due now k" "runDueEntries now (drop k (entries (cron s))) = Ret (started, es')"
  shows "abs_state r s = (sortEntriesByNext (take k (entries (cron s)) @ es'), jobs s r + length started)"
  using assms by (simp add: abs_state_def)

lemma abs_state_other:
  assumes "\<And>now k. loops s r \<noteq> Due now k"
  shows "abs_state r s = (entries (cron s), jobs s r)"
proof (cases "loops s r")
  case (Due t k)
  then show ?thesis using assms [of t k] by simp
qed (simp_all add: abs_state_def)

text \<open>A step that leaves the phase, the entries and the jobs of the run alone is not seen.\<close>

lemma abs_state_frame:
  assumes "loops s' r = loops s r" "entries (cron s') = entries (cron s)" "jobs s' r = jobs s r"
  shows "abs_state r s' = abs_state r s"
  unfolding abs_state_def assms ..

lemma run_due_abs:
  assumes "loops s r = Due now k" "k < length (entries (cron s))" "total_entries (entries (cron s))"
    and "due now (entries (cron s) ! k)" "eSchedule (entries (cron s) ! k) now = Ret t"
    and "loops s' r = Due now (k + 1)" "jobs s' r = jobs s r + 1"
    and "entries (cron s') =
      (entries (cron s))[k := (entries (cron s) ! k)\<lparr>Prev := Next (entries (cron s) ! k), Next := t\<rparr>]"
  shows "abs_state r s' = abs_state r s"
proof -
  let ?es = "entries (cron s)" and ?e = "entries (cron s) ! k"
  obtain started es' where rest: "runDueEntries now (drop (k + 1) ?es) = Ret (started, es')"
    using runDueEntries_total [OF total_entries_drop [OF assms(3)]] by blast
  have "drop k ?es = ?e # drop (k + 1) ?es" using assms(2) by (simp add: Cons_nth_drop_Suc)
  then have old: "runDueEntries now (drop k ?es) = Ret (?e # started, ?e\<lparr>Prev := Next ?e, Next := t\<rparr> # es')"
    using assms(4,5) rest by (simp add: due_def)
  have "drop (k + 1) (entries (cron s')) = drop (k + 1) ?es"
    "take (k + 1) (entries (cron s')) = take k ?es @ [?e\<lparr>Prev := Next ?e, Next := t\<rparr>]"
    using assms(2) by (simp_all add: assms(8) take_Suc_conv_app_nth)
  then have "abs_state r s' = (sortEntriesByNext (take k ?es @ ?e\<lparr>Prev := Next ?e, Next := t\<rparr> # es'),
      jobs s r + 1 + length started)"
    using abs_state_Due [OF assms(6), of started es'] rest assms(7) by simp
  then show ?thesis using abs_state_Due [OF assms(1) old] by simp
qed

lemma due_end_abs:
  assumes "loops s r = Due now k"
    and "\<not> (k < length (entries (cron s)) \<and> due now (entries (cron s) ! k))"
  shows "abs_state r s = (sortEntriesByNext (entries (cron s)), jobs s r)"
proof -
  have "runDueEntries now (drop k (entries (cron s))) = Ret ([], drop k (entries (cron s)))"
  proof (cases "k < length (entries (cron s))")
    case True
    then have "drop k (entries (cron s)) = entries (cron s) ! k # drop (k + 1) (entries (cron s))"
      by (simp add: Cons_nth_drop_Suc)
    then show ?thesis using True assms(2) by (auto simp: due_def)
  qed simp
  from abs_state_Due [OF assms(1) this] show ?thesis by simp
qed

lemma finishJob_entries: "finishJob r c = Ret c' \<Longrightarrow> entries c' = entries c"
  by (auto simp: finishJob_def and_then_eq_Ret close_def cron_simps Let_def split: if_splits option.splits)

lemma job_end_abs:
  assumes "loops s' r = loops s r" "entries (cron s') = entries (cron s)" "jobs s r = Suc (jobs s' r)"
  shows "scheduler_event (abs_state r s) (abs_state r s')"
proof -
  have "fst (abs_state r s') = fst (abs_state r s)" "snd (abs_state r s) = Suc (snd (abs_state r s'))"
    using assms by (auto simp: abs_state_def Let_def split: loop_phase.splits go.splits prod.splits)
  then show ?thesis
    using scheduler_event.job_end [of "fst (abs_state r s')" "snd (abs_state r s')"] by (metis prod.collapse)
qed

lemma timer_abs:
  assumes "loops s r = Select t" "loops s' r = Due now 0" "cron s' = cron s" "jobs s' r = jobs s r"
    and "total_entries (entries (cron s))"
  shows "scheduler_event (abs_state r s) (abs_state r s')"
proof -
  obtain started es' where run: "runDueEntries now (entries (cron s)) = Ret (started, es')"
    using runDueEntries_total [OF assms(5)] by blast
  have "abs_state r s' = (sortEntriesByNext es', jobs s r + length started)"
    using abs_state_Due [of s' r now 0 started es'] run assms(2-4) by simp
  moreover have "abs_state r s = (entries (cron s), jobs s r)" using assms(1) by (simp add: abs_state_other)
  ultimately show ?thesis using scheduler_event.tick [OF run, of "jobs s r"] by simp
qed

text \<open>What a step shows of the run \<open>r\<close>, the only one whose loop lives.\<close>

abbreviation seen :: "nat \<Rightarrow> 'j system \<Rightarrow> 'j system \<Rightarrow> bool" where
  "seen r s s' \<equiv> abs_state r s' = abs_state r s \<or> scheduler_event (abs_state r s) (abs_state r s')"

lemma loop_step_seen:
  assumes "loop_step s s'" "live (loops s r)" "\<And>q. live (loops s q) \<Longrightarrow> q = r"
    and "total_entries (entries (cron s))"
  shows "seen r s s'"
  using assms(1)
proof cases
  case (init q now es)
  then have "q = r" using assms(3) by simp
  then show ?thesis using init scheduler_event.initialise [of now "entries (cron s)" es "jobs s r"]
    by (simp add: abs_state_other cron_simps)
next
  case (timer q t now)
  then have "q = r" using assms(3) by simp
  then show ?thesis using timer by (intro disjI2 timer_abs [OF _ _ _ _ assms(4), of r t _ now]) simp_all
next
  case (run_due q now k e t)
  then have "q = r" using assms(3) by simp
  then show ?thesis
    using run_due by (intro disjI1 run_due_abs [OF _ _ assms(4), of r now k t]) (simp_all add: cron_simps)
next
  case (due_end q now k)
  then have "q = r" using assms(3) by simp
  then show ?thesis using due_end due_end_abs [of s r now k] by (simp add: abs_state_other cron_simps)
next
  case (entry_added q e now es)
  then have "q = r" using assms(3) by simp
  then show ?thesis
    using entry_added scheduler_event.added [of now e "entries (cron s)" es "jobs s r"]
    by (simp add: abs_state_other cron_simps)
next
  case (entry_removed q k now)
  then have "q = r" using assms(3) by simp
  then show ?thesis using entry_removed scheduler_event.removed [of "entries (cron s)" "jobs s r" k]
    by (simp add: abs_state_other cron_simps)
next
  case (ctx_done q t)
  then have "q = r" using assms(3) by simp
  then show ?thesis using ctx_done by (simp add: abs_state_other)
next
  case (mark_store q)
  then have "q = r" using assms(3) by simp
  then show ?thesis using mark_store by (simp add: abs_state_other markStopped_store_def)
next
  case (mark_close q c)
  then have "q \<noteq> r" using assms(2) by auto
  moreover have "entries c = entries (cron s)"
    using mark_close by (auto simp: markStopped_close_def close_def split: if_splits)
  ultimately show ?thesis using mark_close by (intro disjI1 abs_state_frame) simp_all
next
  case (job_end q c)
  have e: "entries c = entries (cron s)" using job_end finishJob_entries by blast
  show ?thesis
  proof (cases "q = r")
    case True
    then show ?thesis using job_end e by (intro disjI2 job_end_abs) simp_all
  next
    case False
    then show ?thesis using job_end e by (intro disjI1 abs_state_frame) simp_all
  qed
qed

lemma rendezvous_seen:
  assumes "rendezvous s s'" "\<And>q. live (loops s q) \<Longrightarrow> q = r"
  shows "seen r s s'"
  using assms(1)
proof cases
  case (add q t i e chn)
  then have "q = r" using assms(2) by simp
  then show ?thesis using add by (simp add: abs_state_other)
next
  case (remove q t i k chn)
  then have "q = r" using assms(2) by simp
  then show ?thesis using remove by (simp add: abs_state_other)
next
  case (snapshot q t i chn)
  then show ?thesis by (intro disjI1 abs_state_frame) simp_all
qed

text \<open>
  C8: seen through the abstraction, every step of the goroutines of the loops and of the jobs, and
  every meeting of a loop with a client, is an event of the abstract scheduler or nothing: that due
  entries are started one by one, with other goroutines in between, cannot be observed.
\<close>

theorem loop_refines_scheduler:
  assumes "reachable ch s" "live (loops s r)" "total_entries (entries (cron s))"
    and "loop_step s s' \<or> rendezvous s s'"
  shows "abs_state r s' = abs_state r s \<or> scheduler_event (abs_state r s) (abs_state r s')"
proof -
  have ok: "runs_ok (cron s) (loops s)"
    using reachable_ok [OF assms(1)] by (simp add: system_ok_def)
  have one: "q = r" if "live (loops s q)" for q
    using runs_okD(2) [OF ok, of q] runs_okD(2) [OF ok, of r] that assms(2) by simp
  show ?thesis using assms(4) loop_step_seen [OF _ assms(2) one assms(3)] rendezvous_seen [OF _ one] by blast
qed

theorem loop_refines_scheduler_witness:
  "let s' = stale_add\<lparr>loops := (loops stale_add)(1 := Due noon 0)\<rparr>
   in loop_step stale_add s' \<and>
     (abs_state 1 s' = abs_state 1 stale_add \<or> scheduler_event (abs_state 1 stale_add) (abs_state 1 s'))"
proof -
  have l: "loops stale_add 1 = Select noon" and t: "total_entries (entries (cron stale_add))"
    by (simp_all add: stale_add_def total_entries_def append_entry_def cron4_def cron3_def cron2_def
        cron1_def late_entry_def secondly_def)
  have step: "loop_step stale_add (stale_add\<lparr>loops := (loops stale_add)(1 := Due noon 0)\<rparr>)"
    by (rule loop_step.timer [OF l])
  from loop_refines_scheduler [OF stale_add_reachable _ t disjI1 [OF step], of 1] step l show ?thesis
    by (simp add: Let_def)
qed

text \<open>
  The events of Cron_Late, in which the timer fires on time or later, are events of the abstract
  scheduler, too, once the loop has sorted its list: what holds after them holds of a schedule of the
  loop of Cron_System.
\<close>

fun jobs_started :: "'j happening list \<Rightarrow> nat" where
  "jobs_started [] = 0"
| "jobs_started (Ran t started # log) = jobs_started log + length started"
| "jobs_started (_ # log) = jobs_started log"

lemma late_scheduler_event:
  assumes "late lag L (now, es, log) (now', es', log')"
  shows "scheduler_event (sortEntriesByNext es, jobs_started log) (sortEntriesByNext es', jobs_started log')"
  using assms
proof cases
  case (fired t started)
  then have "runDueEntries now' (sortEntriesByNext es) = Ret (started, es')"
    by (auto simp: handleTimerFired_def Let_def and_then_eq_Ret)
  then show ?thesis using scheduler_event.tick fired by fastforce
next
  case (added t e)
  then show ?thesis using scheduler_event.added by fastforce
next
  case (removed t i)
  then show ?thesis using scheduler_event.removed by (fastforce simp: handleEntryRemoved_def)
qed

end
