(* ===== verification/Cron_Liveness.thy ===== *)
theory Cron_Liveness
  imports Cron_Refinement
begin

text \<open>
  No caller is stuck: from every reachable state there is a way in which only the goroutines of the
  run a caller waits for and the caller itself move, and on which a waiting \<open>Schedule\<close>, \<open>Remove\<close> or
  \<open>Entries\<close> returns; and a way on which only the runs a \<open>Stop\<close> has taken and the \<open>Stop\<close> itself move,
  and on which it returns nil. Nobody else has to cancel, start or receive anything. The schedules must
  return; nothing else can block the loop.
\<close>

subsection \<open>What every step keeps of the runs\<close>

definition keeps :: "'j system \<Rightarrow> 'j system \<Rightarrow> bool" where
  "keeps s s' \<longleftrightarrow> allocated (cron s) \<le> allocated (cron s') \<and>
     (\<forall>r < allocated (cron s).
        loopDone (lifecycles (cron s') r) = loopDone (lifecycles (cron s) r) \<and>
        (schedulerCancelled (lifecycles (cron s) r) \<longrightarrow> schedulerCancelled (lifecycles (cron s') r)))"

lemma keeps_refl: "keeps s s"
  by (simp add: keeps_def)

lemma keeps_trans: "keeps s s' \<Longrightarrow> keeps s' s'' \<Longrightarrow> keeps s s''"
  by (fastforce simp: keeps_def)

lemma close_lifecycles: "close x c = Ret c' \<Longrightarrow> lifecycles c' = lifecycles c \<and> allocated c' = allocated c"
  by (auto simp: close_def split: if_splits)

lemma finishJob_keeps:
  assumes "finishJob r c = Ret c'"
  shows "allocated c' = allocated c" "loopDone (lifecycles c' q) = loopDone (lifecycles c q)"
    "schedulerCancelled (lifecycles c' q) = schedulerCancelled (lifecycles c q)"
  using assms
  by (auto simp: finishJob_def and_then_eq_Ret Let_def cron_simps dest!: close_lifecycles
      split: if_splits option.splits)

lemma loop_step_keeps: "loop_step s s' \<Longrightarrow> keeps s s'"
proof (induction rule: loop_step.induct)
  case (mark_close s r c)
  then show ?case by (auto simp: keeps_def markStopped_close_def dest!: close_lifecycles)
next
  case (job_end s r c)
  then show ?case by (auto simp: keeps_def finishJob_keeps)
qed (auto simp: keeps_def cron_simps markStopped_store_def)

lemma rendezvous_keeps: "rendezvous s s' \<Longrightarrow> keeps s s'"
  by (induction rule: rendezvous.induct) (auto simp: keeps_def cron_simps)

lemma stopRuns_keeps:
  assumes "stopRuns b c = (rs, c')"
  shows "allocated c' = allocated c" "loopDone (lifecycles c' q) = loopDone (lifecycles c q)"
    "schedulerCancelled (lifecycles c' q) \<longleftrightarrow> q \<in> set rs \<or> schedulerCancelled (lifecycles c q)"
  using assms by (auto simp: stopRuns_def Let_def cron_simps cancel_runs_cancelled)

lemma client_step_keeps: "client_step s s' \<Longrightarrow> keeps s s'"
proof (induction rule: client_step.induct)
  case (start s r c)
  then have "enterRunning (cron s) = (r, c)" by (auto simp: start_run_def split: if_splits)
  from enterRunning_simps [OF this] show ?case by (simp add: keeps_def)
next
  case (run s i r c)
  then have "enterRunning (cron s) = (r, c)" by (auto simp: Run_def split: if_splits)
  from enterRunning_simps [OF this] show ?case by (simp add: keeps_def)
qed (auto simp: keeps_def cron_simps cancel_run_cancelled stopRuns_keeps append_entry_def remove_directly_def
    dest: scheduleEntry_same Remove_same waitForRunJobs_same)

lemma sys_step_keeps: "sys_step s s' \<Longrightarrow> keeps s s'"
  unfolding sys_step_def using loop_step_keeps rendezvous_keeps client_step_keeps by blast

subsection \<open>What a waiting client knows\<close>

definition started_channel :: "'j system \<Rightarrow> nat \<Rightarrow> bool" where
  "started_channel s ch \<longleftrightarrow> (\<exists>r < allocated (cron s). ch = loopDone (lifecycles (cron s) r))"

definition cancelled_run :: "'j system \<Rightarrow> nat \<Rightarrow> bool" where
  "cancelled_run s r \<longleftrightarrow> r < allocated (cron s) \<and> schedulerCancelled (lifecycles (cron s) r)"

text \<open>
  A client selects on the channel of a run that was started; a \<open>Stop\<close> waits for loops it has
  cancelled.
\<close>

fun waits_ok :: "'j system \<Rightarrow> 'j client \<Rightarrow> bool" where
  "waits_ok s (AddWait e ch) \<longleftrightarrow> started_channel s ch"
| "waits_ok s (RemoveWait k ch) \<longleftrightarrow> started_channel s ch"
| "waits_ok s (EntriesWait ch) \<longleftrightarrow> started_channel s ch"
| "waits_ok s (InRun r) \<longleftrightarrow> r < allocated (cron s)"
| "waits_ok s (LoopsWait rs cap n) \<longleftrightarrow> list_all (cancelled_run s) rs"
| "waits_ok s c \<longleftrightarrow> True"

lemma started_channel_keeps: "keeps s s' \<Longrightarrow> started_channel s ch \<Longrightarrow> started_channel s' ch"
  unfolding started_channel_def keeps_def by (metis order_less_le_trans)

lemma cancelled_run_keeps: "keeps s s' \<Longrightarrow> cancelled_run s r \<Longrightarrow> cancelled_run s' r"
  unfolding cancelled_run_def keeps_def by (metis order_less_le_trans)

lemma waits_ok_keeps: "keeps s s' \<Longrightarrow> waits_ok s c \<Longrightarrow> waits_ok s' c"
  by (cases c) (auto simp: list_all_iff keeps_def intro: started_channel_keeps cancelled_run_keeps)

lemma current_loopDone_started:
  assumes "system_ok s" "running (cron s)" "current_loopDone (cron s) = Ret ch"
  shows "started_channel s ch"
proof -
  have ok: "runs_ok (cron s) (loops s)" using assms(1) by (simp add: system_ok_def)
  obtain r where r: "currentRun (cron s) = Some r" "ch = loopDone (lifecycles (cron s) r)"
    using assms(3) by (auto simp: current_loopDone_def split: option.splits)
  then have "live (loops s r)" using runs_okD(2) [OF ok] assms(2) by blast
  then show ?thesis using live_allocated [OF ok] r(2) by (auto simp: started_channel_def)
qed

lemma scheduleEntry_wait:
  assumes "scheduleEntry name sched cmd c = Ret (e, Some ch, c')"
  shows "running c" "current_loopDone c = Ret ch"
  using assms
  by (auto simp: scheduleEntry_def Let_def and_then_eq_Ret current_loopDone_def split: if_splits option.splits)

lemma Remove_wait:
  assumes "Remove k c = Ret (Some ch, c')"
  shows "running c" "current_loopDone c = Ret ch"
  using assms by (auto simp: Remove_def and_then_eq_Ret split: if_splits)

lemma Entries_wait:
  assumes "Entries c = Ret (Inr ch)"
  shows "running c" "current_loopDone c = Ret ch"
  using assms by (auto simp: Entries_def and_then_eq_Ret split: if_splits)

lemmas wait_started = scheduleEntry_wait Remove_wait Entries_wait

text \<open>Every step keeps it: the client that moves establishes it, for the others nothing is lost.\<close>

definition all_waits_ok :: "'j system \<Rightarrow> bool" where
  "all_waits_ok s \<longleftrightarrow> (\<forall>i. waits_ok s (clients s i))"

lemma all_waits_ok_step:
  assumes "keeps s s'" "all_waits_ok s" "\<And>j. clients s' j = clients s j \<or> waits_ok s' (clients s' j)"
  shows "all_waits_ok s'"
  using assms waits_ok_keeps unfolding all_waits_ok_def by metis

lemma client_step_waits:
  assumes "client_step s s'" "system_ok s" "all_waits_ok s"
  shows "all_waits_ok s'"
proof (rule all_waits_ok_step [OF client_step_keeps [OF assms(1)] assms(3)])
  fix j
  have k: "keeps s s'" by (rule client_step_keeps [OF assms(1)])
  have start: "started_channel s' ch" if "running (cron s)" "current_loopDone (cron s) = Ret ch" for ch
    using started_channel_keeps [OF k current_loopDone_started [OF assms(2) that]] .
  have mine: "waits_ok s (clients s j)" using assms(3) by (simp add: all_waits_ok_def)
  from assms(1) show "clients s' j = clients s j \<or> waits_ok s' (clients s' j)"
  proof cases
    case (schedule i name sched cmd e w c)
    then show ?thesis using start scheduleEntry_wait by (cases w) fastforce+
  next
    case (remove i k w c)
    then show ?thesis using start Remove_wait by (cases w) fastforce+
  next
    case (entries i w)
    then show ?thesis using start Entries_wait by (cases w) fastforce+
  next
    case (stop i b rs c)
    have "r < allocated (cron s)" if "r \<in> set rs" for r
      using that stopRuns_same(6) [OF stop(3)] runs_okD(7) [of "cron s" "loops s" r] assms(2)
      by (simp add: system_ok_def)
    then show ?thesis using stop by (auto simp: list_all_iff cancelled_run_def stopRuns_keeps)
  next
    case (loop_gone i r rs cap n)
    then show ?thesis using mine waits_ok_keeps [OF k, of "LoopsWait (r # rs) cap n"] by auto
  next
    case (jobs_check i r rs cap n w c)
    then show ?thesis by (cases w) auto
  next
    case (run i r c)
    then show ?thesis using enterRunning_simps(1,2) [of "cron s" r c] by (auto simp: Run_def split: if_splits)
  qed auto
qed

lemma reachable_waits_ok: "reachable ch s \<Longrightarrow> all_waits_ok s"
proof (induction rule: reachable_induct)
  case initial
  then show ?case by (simp add: all_waits_ok_def initial_def)
next
  case (loop s s')
  show ?case
    by (rule all_waits_ok_step [OF loop_step_keeps [OF loop(2)] loop(3)])
      (simp add: loop_step_clients [OF loop(2)])
next
  case (meet s s')
  obtain i where i: "clients s' = (clients s)(i := Idle)" using rendezvous_clients [OF meet(2)] by blast
  show ?case by (rule all_waits_ok_step [OF rendezvous_keeps [OF meet(2)] meet(3)]) (simp add: i)
next
  case (client s s')
  show ?case by (rule client_step_waits [OF client(2) reachable_ok [OF client(1)] client(3)])
qed

subsection \<open>Ways of the loop\<close>

text \<open>The schedules of the entries in the list, and of the one a loop has received, return.\<close>

definition total_system :: "'j system \<Rightarrow> bool" where
  "total_system s \<longleftrightarrow>
     total_entries (entries (cron s)) \<and> (\<forall>r e. loops s r = Adding e \<longrightarrow> total_entries [e])"

text \<open>\<open>goes r s s'\<close>: a way on which, of all goroutines, only those of run \<open>r\<close> move.\<close>

definition run_step :: "nat \<Rightarrow> 'j system \<Rightarrow> 'j system \<Rightarrow> bool" where
  "run_step r s s' \<longleftrightarrow> loop_step s s' \<and>
     (\<forall>q. q \<noteq> r \<longrightarrow> loops s' q = loops s q \<and> jobs s' q = jobs s q)"

definition goes :: "nat \<Rightarrow> 'j system \<Rightarrow> 'j system \<Rightarrow> bool" where
  "goes r s s' \<longleftrightarrow>
     (run_step r)\<^sup>*\<^sup>* s s' \<and> clients s' = clients s \<and> (total_system s \<longrightarrow> total_system s')"

lemma goes_refl: "goes r s s"
  by (simp add: goes_def)

lemma goes_trans: "goes r s s' \<Longrightarrow> goes r s' s'' \<Longrightarrow> goes r s s''"
  by (auto simp: goes_def)

lemma goes_step:
  assumes "loop_step s s'" "\<And>q. q \<noteq> r \<Longrightarrow> loops s' q = loops s q \<and> jobs s' q = jobs s q"
    "total_system s \<Longrightarrow> total_system s'"
  shows "goes r s s'"
  using assms loop_step_clients [OF assms(1)] by (auto simp: goes_def run_step_def)

lemma run_steps_reachable: "(run_step r)\<^sup>*\<^sup>* s s' \<Longrightarrow> reachable ch s \<Longrightarrow> reachable ch s'"
  by (induction rule: rtranclp_induct) (auto intro: reachable_loop simp: run_step_def)

lemma run_steps_keeps: "(run_step r)\<^sup>*\<^sup>* s s' \<Longrightarrow> keeps s s'"
  by (induction rule: rtranclp_induct) (auto intro: keeps_refl keeps_trans loop_step_keeps simp: run_step_def)

lemma goesD:
  assumes "goes r s s'"
  shows "clients s' = clients s" "total_system s \<Longrightarrow> total_system s'"
    "reachable ch s \<Longrightarrow> reachable ch s'" "keeps s s'"
  using assms run_steps_reachable run_steps_keeps by (auto simp: goes_def)

text \<open>
  A step of client \<open>i\<close>, in the call it is in, or of one of the runs in \<open>R\<close>: no other goroutine moves, no
  new call is made, and no context is cancelled from outside.
\<close>

definition unaided :: "nat set \<Rightarrow> nat \<Rightarrow> 'j system \<Rightarrow> 'j system \<Rightarrow> bool" where
  "unaided R i s s' \<longleftrightarrow>
     (loop_step s s' \<or>
      (rendezvous s s' \<or> client_step s s') \<and> clients s i \<noteq> Idle \<and> clients s' i \<noteq> clients s i) \<and>
     (\<forall>q. q \<notin> R \<longrightarrow> loops s' q = loops s q \<and> jobs s' q = jobs s q)"

lemma run_step_unaided: "run_step r s s' \<Longrightarrow> r \<in> R \<Longrightarrow> unaided R i s s'"
  unfolding run_step_def unaided_def by metis

lemma goes_unaided:
  assumes "goes r s s'" "r \<in> R"
  shows "(unaided R i)\<^sup>*\<^sup>* s s'"
proof -
  have "(run_step r)\<^sup>*\<^sup>* s s'" using assms(1) by (simp add: goes_def)
  then show ?thesis by (rule rtranclp_mono [THEN predicate2D, rotated]) (auto intro: run_step_unaided [OF _ assms(2)])
qed

lemma unaided_client:
  assumes "client_step s s'" "clients s i \<noteq> Idle" "clients s' i \<noteq> clients s i" "loops s' = loops s" "jobs s' = jobs s"
  shows "(unaided R i)\<^sup>*\<^sup>* s s'"
  using assms by (auto simp: unaided_def)

lemma total_sorted [simp]: "total_entries (sortEntriesByNext es) \<longleftrightarrow> total_entries es"
  by (simp add: total_entries_def)

lemma total_initialized:
  "total_entries es \<Longrightarrow> \<exists>es'. initializeEntries now es = Ret es' \<and> total_entries es'"
proof (induction es)
  case (Cons e es)
  then obtain u es' where "eSchedule e now = Ret u" "initializeEntries now es = Ret es'" "total_entries es'"
    by (force simp: total_entries_def)
  with Cons.prems show ?case by (auto simp: total_entries_def)
qed (simp add: total_entries_def)

lemma total_update:
  assumes "total_entries es" "eSchedule e = eSchedule (es ! k)" "k < length es"
  shows "total_entries (es[k := e])"
  using assms set_update_subset_insert [of es k e] unfolding total_entries_def by fastforce

lemma due_goes:
  assumes "loops s r = Due now k" "total_system s"
  shows "\<exists>s' t. goes r s s' \<and> loops s' r = Select t"
  using assms
proof (induction "length (entries (cron s)) - k" arbitrary: s k rule: less_induct)
  case less
  let ?es = "entries (cron s)"
  show ?case
  proof (cases "k < length ?es \<and> due now (?es ! k)")
    case False
    show ?thesis
      by (intro exI conjI, rule goes_step, rule loop_step.due_end [OF less.prems(1) False])
        (use less.prems in \<open>auto simp: cron_simps total_system_def split: if_splits\<close>)
  next
    case True
    then obtain t where t: "eSchedule (?es ! k) now = Ret t"
      using less.prems(2) nth_mem [of k ?es] unfolding total_system_def total_entries_def by blast
    let ?e = "(?es ! k)\<lparr>Prev := Next (?es ! k), Next := t\<rparr>"
    let ?s = "s\<lparr>cron := startJob r (set_entries (?es[k := ?e]) (cron s)),
      loops := (loops s)(r := Due now (k + 1)), jobs := (jobs s)(r := jobs s r + 1)\<rparr>"
    have step: "loop_step s ?s"
      by (rule loop_step.run_due [OF less.prems(1) conjunct1 [OF True] refl conjunct2 [OF True] t])
    have tot: "total_system ?s"
      using less.prems(2) True by (auto simp: total_system_def cron_simps total_update split: if_splits)
    have go: "goes r s ?s" by (rule goes_step [OF step]) (use tot in simp_all)
    have "length (entries (cron ?s)) - (k + 1) < length ?es - k"
      using diff_less_mono2 [of k "Suc k" "length ?es"] True by (simp add: cron_simps)
    then obtain s' t' where "goes r ?s s'" "loops s' r = Select t'"
      using less.hyps [of ?s "k + 1"] tot by auto
    then show ?thesis using goes_trans [OF go] by blast
  qed
qed

lemma adding_goes:
  assumes "loops s r = Adding e" "total_system s"
  shows "\<exists>s' t. goes r s s' \<and> loops s' r = Select t \<and> ID e \<in> ids (entries (cron s'))"
proof -
  have tot: "total_entries [e]" using assms by (auto simp: total_system_def)
  then obtain u where u: "eSchedule e zero_time = Ret u" by (auto simp: total_entries_def)
  have add: "handleEntryAdded zero_time e (entries (cron s)) = Ret (entries (cron s) @ [e\<lparr>Next := u\<rparr>])"
    by (simp add: handleEntryAdded_def u)
  have new: "total_entries (entries (cron s) @ [e\<lparr>Next := u\<rparr>])"
    using tot assms(2) by (auto simp: total_entries_def total_system_def)
  show ?thesis
    by (intro exI conjI, rule goes_step, rule loop_step.entry_added [OF assms(1) add])
      (use assms(2) new in \<open>auto simp: cron_simps ids_def total_system_def split: if_splits\<close>)
qed

lemma removing_goes:
  assumes "loops s r = Removing k"
  shows "\<exists>s' t. goes r s s' \<and> loops s' r = Select t \<and> k \<notin> ids (entries (cron s'))"
  by (intro exI conjI, rule goes_step, rule loop_step.entry_removed [OF assms])
    (auto simp: cron_simps ids_def removeEntry_def total_system_def total_entries_def split: if_splits)

lemma select_goes:
  assumes "live (loops s r)" "loops s r \<noteq> Returned_loop" "total_system s"
  shows "\<exists>s' t. goes r s s' \<and> loops s' r = Select t"
proof (cases "loops s r")
  case Init
  obtain es' where es': "initializeEntries zero_time (entries (cron s)) = Ret es'" "total_entries es'"
    using total_initialized assms(3) unfolding total_system_def by blast
  show ?thesis
    by (intro exI conjI, rule goes_step, rule loop_step.init [OF Init es'(1)])
      (use es'(2) assms(3) in \<open>auto simp: cron_simps total_system_def split: if_splits\<close>)
next
  case (Select t)
  then show ?thesis using goes_refl by blast
next
  case (Due now k)
  then show ?thesis using due_goes assms(3) by blast
next
  case (Adding e)
  then show ?thesis using adding_goes assms(3) by blast
next
  case (Removing k)
  then show ?thesis using removing_goes by blast
qed (use assms in simp_all)

lemma stored_goes:
  assumes "system_ok s" "loops s r = Stored"
  shows "\<exists>s'. goes r s s' \<and> loops s' r = Exited"
proof -
  have "markStopped_close r (cron s) =
      Ret ((cron s)\<lparr>closed := insert (loopDone (lifecycles (cron s) r)) (closed (cron s))\<rparr>)"
    using markStopped_close_Ret [of "cron s" "loops s" r] assms by (simp add: system_ok_def)
  from loop_step.mark_close [OF assms(2) this] show ?thesis
    by (intro exI conjI, rule goes_step) (auto simp: total_system_def split: if_splits)
qed

lemma returned_goes:
  assumes "system_ok s" "loops s r = Returned_loop"
  shows "\<exists>s'. goes r s s' \<and> loops s' r = Exited"
proof -
  let ?s = "s\<lparr>cron := markStopped_store (cron s), loops := (loops s)(r := Stored)\<rparr>"
  have step: "loop_step s ?s" by (rule loop_step.mark_store [OF assms(2)])
  have go: "goes r s ?s" by (rule goes_step [OF step]) (auto simp: markStopped_store_def total_system_def split: if_splits)
  obtain s' where "goes r ?s s'" "loops s' r = Exited"
    using stored_goes [OF loop_step_ok [OF step assms(1)], of r] by auto
  then show ?thesis using goes_trans [OF go] by blast
qed

text \<open>A run that was started and cancelled comes to its end.\<close>

lemma cancelled_goes:
  assumes "reachable ch s" "cancelled_run s r" "total_system s"
  shows "\<exists>s'. goes r s s' \<and> loops s' r = Exited"
proof (cases "live (loops s r) \<and> loops s r \<noteq> Returned_loop")
  case True
  obtain s1 t where s1: "goes r s s1" "loops s1 r = Select t"
    using select_goes [OF conjunct1 [OF True] conjunct2 [OF True] assms(3)] by blast
  have "cancelled_run s1 r" using cancelled_run_keeps [OF goesD(4) [OF s1(1)] assms(2)] .
  then have "schedulerCancelled (lifecycles (cron s1) r)" by (simp add: cancelled_run_def)
  from loop_step.ctx_done [OF s1(2) this]
  have step: "loop_step s1 (s1\<lparr>loops := (loops s1)(r := Returned_loop)\<rparr>)" .
  let ?s2 = "s1\<lparr>loops := (loops s1)(r := Returned_loop)\<rparr>"
  have go: "goes r s1 ?s2" by (rule goes_step [OF step]) (auto simp: total_system_def split: if_splits)
  have "system_ok ?s2" using loop_step_ok [OF step reachable_ok [OF goesD(3) [OF s1(1) assms(1)]]] .
  then obtain s' where "goes r ?s2 s'" "loops s' r = Exited" using returned_goes [of ?s2 r] by auto
  then show ?thesis using goes_trans [OF goes_trans [OF s1(1) go]] by blast
next
  case False
  have ok: "system_ok s" by (rule reachable_ok [OF assms(1)])
  then have "loops s r \<noteq> NotStarted"
    using runs_okD(1) [of "cron s" "loops s" r] assms(2) by (simp add: system_ok_def cancelled_run_def not_le)
  then consider "loops s r = Returned_loop" | "loops s r = Stored" | "loops s r = Exited"
    using False by (cases "loops s r") simp_all
  then show ?thesis using returned_goes [OF ok] stored_goes [OF ok] goes_refl by cases blast+
qed

subsection \<open>No caller is stuck\<close>

text \<open>The call of the client is one that waits for something of run \<open>r\<close>.\<close>

definition waits_for :: "'j system \<Rightarrow> nat \<Rightarrow> 'j client \<Rightarrow> bool" where
  "waits_for s r c \<longleftrightarrow> r < allocated (cron s) \<and>
     (let x = loopDone (lifecycles (cron s) r) in
      (\<exists>e. c = AddWait e x) \<or> (\<exists>k. c = RemoveWait k x) \<or> c = EntriesWait x \<or> c = InRun r)"

text \<open>The loop of a started run gets to its select, or its channel is closed.\<close>

lemma loop_served:
  assumes "reachable ch s" "r < allocated (cron s)" "total_system s"
  shows "\<exists>s'. goes r s s' \<and>
    ((\<exists>t. loops s' r = Select t) \<or> isClosed (cron s') (loopDone (lifecycles (cron s) r)))"
proof -
  let ?x = "loopDone (lifecycles (cron s) r)"
  have ok: "system_ok s" by (rule reachable_ok [OF assms(1)])
  have closed: "isClosed (cron s') ?x" if "goes r s s'" "loops s' r = Exited" for s'
  proof -
    have "loopDone (lifecycles (cron s') r) = ?x" "r < allocated (cron s')"
      using goesD(4) [OF that(1)] assms(2) by (auto simp: keeps_def)
    then show ?thesis
      using exited_iff [OF reachable_ok [OF goesD(3) [OF that(1) assms(1)]], of r] that(2) by simp
  qed
  have "loops s r \<noteq> NotStarted"
    using runs_okD(1) [of "cron s" "loops s" r] ok assms(2) by (simp add: system_ok_def)
  then consider "live (loops s r)" "loops s r \<noteq> Returned_loop" | "loops s r = Returned_loop"
    | "loops s r = Stored" | "loops s r = Exited"
    by (cases "loops s r") simp_all
  then show ?thesis
  proof cases
    case 1
    then show ?thesis using select_goes [OF _ _ assms(3)] by blast
  next
    case 2
    then show ?thesis using returned_goes [OF ok] closed by blast
  next
    case 3
    then show ?thesis using stored_goes [OF ok] closed by blast
  next
    case 4
    then show ?thesis using closed goes_refl by blast
  qed
qed

text \<open>A client is served where the loop selects, and returns where its channel is closed.\<close>

definition served :: "'j system \<Rightarrow> nat \<Rightarrow> nat \<Rightarrow> bool" where
  "served s r x \<longleftrightarrow> (\<exists>t. loops s r = Select t) \<or> isClosed (cron s) x"

text \<open>What the call has done when it is over and the loop has handled what it received.\<close>

definition call_done :: "'j client \<Rightarrow> 'j system \<Rightarrow> bool" where
  "call_done c s \<longleftrightarrow>
     (\<forall>e x. c = AddWait e x \<longrightarrow> ID e \<in> ids (entries (cron s))) \<and>
     (\<forall>k x. c = RemoveWait k x \<longrightarrow> k \<notin> ids (entries (cron s)))"

lemma meet_unaided:
  assumes "rendezvous s s'" "clients s i \<noteq> Idle" "clients s' i = Idle"
    and "\<And>q. q \<noteq> r \<Longrightarrow> loops s' q = loops s q" "jobs s' = jobs s"
  shows "(unaided {r} i)\<^sup>*\<^sup>* s s'"
  using assms by (auto simp: unaided_def)

lemma served_add:
  assumes "served s r x" "clients s i = AddWait e x" "total_system s" "total_entries [e]"
  shows "\<exists>s'. (unaided {r} i)\<^sup>*\<^sup>* s s' \<and> clients s' i = Idle \<and> ID e \<in> ids (entries (cron s'))"
  using assms(1) unfolding served_def
proof (elim disjE exE)
  fix t
  assume t: "loops s r = Select t"
  let ?s = "s\<lparr>loops := (loops s)(r := Adding e), clients := (clients s)(i := Idle)\<rparr>"
  have meet: "(unaided {r} i)\<^sup>*\<^sup>* s ?s"
    by (rule meet_unaided [OF rendezvous.add [OF t assms(2)]]) (simp_all add: assms(2))
  have "total_system ?s" using assms(3,4) by (auto simp: total_system_def)
  then obtain s' where s': "goes r ?s s'" "ID e \<in> ids (entries (cron s'))"
    using adding_goes [of ?s r e] by auto
  then show ?thesis
    using rtranclp_trans [OF meet goes_unaided [OF s'(1)]] goesD(1) [OF s'(1)] by fastforce
next
  assume x: "isClosed (cron s) x"
  let ?s = "s\<lparr>cron := append_entry e (cron s), clients := (clients s)(i := Idle)\<rparr>"
  have "(unaided {r} i)\<^sup>*\<^sup>* s ?s"
    by (rule unaided_client [OF client_step.add_closed [OF assms(2) x]]) (simp_all add: assms(2))
  then show ?thesis by (intro exI [of _ ?s]) (simp add: ids_def append_entry_def)
qed

lemma served_remove:
  assumes "served s r x" "clients s i = RemoveWait k x"
  shows "\<exists>s'. (unaided {r} i)\<^sup>*\<^sup>* s s' \<and> clients s' i = Idle \<and> k \<notin> ids (entries (cron s'))"
  using assms(1) unfolding served_def
proof (elim disjE exE)
  fix t
  assume t: "loops s r = Select t"
  let ?s = "s\<lparr>loops := (loops s)(r := Removing k), clients := (clients s)(i := Idle)\<rparr>"
  have meet: "(unaided {r} i)\<^sup>*\<^sup>* s ?s"
    by (rule meet_unaided [OF rendezvous.remove [OF t assms(2)]]) (simp_all add: assms(2))
  obtain s' where s': "goes r ?s s'" "k \<notin> ids (entries (cron s'))"
    using removing_goes [of ?s r k] by auto
  then show ?thesis
    using rtranclp_trans [OF meet goes_unaided [OF s'(1)]] goesD(1) [OF s'(1)] by fastforce
next
  assume x: "isClosed (cron s) x"
  let ?s = "s\<lparr>cron := remove_directly k (cron s), clients := (clients s)(i := Idle)\<rparr>"
  have "(unaided {r} i)\<^sup>*\<^sup>* s ?s"
    by (rule unaided_client [OF client_step.remove_closed [OF assms(2) x]]) (simp_all add: assms(2))
  then show ?thesis by (intro exI [of _ ?s]) (simp add: removed_ids remove_directly_def)
qed

lemma served_entries:
  assumes "served s r x" "clients s i = EntriesWait x"
  shows "\<exists>s'. (unaided {r} i)\<^sup>*\<^sup>* s s' \<and> clients s' i = Idle"
  using assms(1) unfolding served_def
proof (elim disjE exE)
  fix t
  assume t: "loops s r = Select t"
  have "(unaided {r} i)\<^sup>*\<^sup>* s (s\<lparr>clients := (clients s)(i := Idle)\<rparr>)"
    by (rule meet_unaided [OF rendezvous.snapshot [OF t assms(2)]]) (simp_all add: assms(2))
  then show ?thesis by force
next
  assume x: "isClosed (cron s) x"
  have "(unaided {r} i)\<^sup>*\<^sup>* s (s\<lparr>clients := (clients s)(i := Idle)\<rparr>)"
    by (rule unaided_client [OF client_step.entries_closed [OF assms(2) x]]) (simp_all add: assms(2))
  then show ?thesis by force
qed

lemma run_returns:
  assumes "reachable ch s" "total_system s" "clients s i = InRun r" "cancelled_run s r"
  shows "\<exists>s'. (unaided {r} i)\<^sup>*\<^sup>* s s' \<and> clients s' i = Idle"
proof -
  obtain s1 where s1: "goes r s s1" "loops s1 r = Exited"
    using cancelled_goes [OF assms(1,4,2)] by blast
  have c: "clients s1 i = InRun r" using goesD(1) [OF s1(1)] assms(3) by simp
  have "(unaided {r} i)\<^sup>*\<^sup>* s1 (s1\<lparr>clients := (clients s1)(i := Idle)\<rparr>)"
    by (rule unaided_client [OF client_step.run_end [OF c s1(2)]]) (simp_all add: c)
  then have "(unaided {r} i)\<^sup>*\<^sup>* s (s1\<lparr>clients := (clients s1)(i := Idle)\<rparr>)"
    by (rule rtranclp_trans [OF goes_unaided [OF s1(1)], rotated]) simp
  then show ?thesis by force
qed

text \<open>
  C13: a client that waits in \<open>Schedule\<close>, \<open>Remove\<close> or \<open>Entries\<close> waits for the loop of one run, and
  that loop and the client alone bring the call to its end: from every reachable state there is a way
  on which no other goroutine moves, nothing is started or cancelled and no other call is made, and on
  which the loop comes to receive from the client, or has ended and the client sees it, so that the
  call returns; an entry it adds is in the list then, and one it removes is not. A client in \<open>Run\<close> whose
  run is cancelled comes back in the same way. The schedules must return.
\<close>

theorem waiting_client_returns:
  assumes "reachable ch s" "total_system s"
    and "case clients s i of
        AddWait e x \<Rightarrow> total_entries [e]
      | RemoveWait k x \<Rightarrow> True
      | EntriesWait x \<Rightarrow> True
      | InRun q \<Rightarrow> schedulerCancelled (lifecycles (cron s) q)
      | _ \<Rightarrow> False"
  shows "\<exists>r s'. waits_for s r (clients s i) \<and> (unaided {r} i)\<^sup>*\<^sup>* s s' \<and> clients s' i = Idle \<and>
    call_done (clients s i) s'"
proof -
  have w: "waits_ok s (clients s i)" using reachable_waits_ok [OF assms(1)] by (simp add: all_waits_ok_def)
  show ?thesis
  proof (cases "\<exists>q. clients s i = InRun q")
    case True
    then obtain q where q: "clients s i = InRun q" by blast
    then have "cancelled_run s q" using assms(3) w by (simp add: cancelled_run_def)
    with run_returns [OF assms(1,2) q] w q show ?thesis
      by (auto simp: waits_for_def call_done_def)
  next
    case False
    then obtain r where r: "r < allocated (cron s)" "waits_for s r (clients s i)"
      using w assms(3)
      by (cases "clients s i") (fastforce simp: started_channel_def waits_for_def Let_def)+
    let ?x = "loopDone (lifecycles (cron s) r)"
    obtain s1 where s1: "goes r s s1" "served s1 r ?x"
      using loop_served [OF assms(1) r(1) assms(2)] by (auto simp: served_def)
    have t1: "total_system s1" using goesD(2) [OF s1(1) assms(2)] .
    have c: "clients s1 i = clients s i" using goesD(1) [OF s1(1)] by simp
    have "\<exists>s'. (unaided {r} i)\<^sup>*\<^sup>* s1 s' \<and> clients s' i = Idle \<and> call_done (clients s i) s'"
    proof (cases "clients s i")
      case (AddWait e x)
      then show ?thesis
        using served_add [OF s1(2), of i e] r(2) assms(3) t1 c
        by (auto simp: waits_for_def call_done_def)
    next
      case (RemoveWait k x)
      then show ?thesis
        using served_remove [OF s1(2), of i k] r(2) c by (auto simp: waits_for_def call_done_def)
    next
      case (EntriesWait x)
      then show ?thesis
        using served_entries [OF s1(2), of i] r(2) c by (auto simp: waits_for_def call_done_def)
    qed (use assms(3) False in simp_all)
    then show ?thesis
      using rtranclp_trans [OF goes_unaided [OF s1(1), of "{r}" i]] r(2) by blast
  qed
qed

lemma demo_total: "total_system (sys cron2 (no_loops(0 := Select noon)) stopping)" "total_entries [late_entry]"
  by (simp_all add: total_system_def cron2_def cron1_def total_entries_def late_entry_def secondly_def)

theorem waiting_client_returns_witness:
  "\<exists>s'. (unaided {0} 0)\<^sup>*\<^sup>* (sys cron2 (no_loops(0 := Select noon)) stopping) s' \<and> clients s' 0 = Idle \<and>
     ID late_entry \<in> ids (entries (cron s'))"
  using waiting_client_returns [OF demo_stopping demo_total(1), of 0] demo_total(2)
  by (auto simp: waits_for_def call_done_def cron2_def cron1_def)

subsection \<open>Stop comes back\<close>

text \<open>The jobs of a run end one after the other.\<close>

lemma jobs_drain:
  assumes "reachable ch s"
  shows "\<exists>s'. goes r s s' \<and> jobs s' r = 0"
  using assms
proof (induction "jobs s r" arbitrary: s)
  case 0
  then show ?case using goes_refl by metis
next
  case (Suc n)
  have jok: "jobs_ok (cron s) (jobs s)" using reachable_ok [OF Suc.prems] by (simp add: system_ok_def)
  have a: "r < allocated (cron s)" "0 < activeJobs (lifecycles (cron s) r)"
    using Suc.hyps(2) jobs_okD(1) [OF jok, of r] by (simp_all split: if_splits)
  have "0 < jobs s r" using Suc.hyps(2) by simp
  from loop_step.job_end [OF this finishJob_eq [OF jok a]]
  have step: "loop_step s (s\<lparr>cron := cleanupCompletedRunsLocked (job_done r (cron s)),
      jobs := (jobs s)(r := jobs s r - 1)\<rparr>)" (is "loop_step s ?s") .
  have go: "goes r s ?s" by (rule goes_step [OF step]) (simp_all add: cron_simps total_system_def)
  have "n = jobs ?s r" using Suc.hyps(2) by simp
  from Suc.hyps(1) [OF this reachable_loop [OF Suc.prems step]]
  obtain s' where "goes r ?s s'" "jobs s' r = 0" by blast
  then show ?case using goes_trans [OF go] by blast
qed

text \<open>The waits of \<open>Stop\<close>, first for the loops, then for the jobs.\<close>

lemma jobs_wait_returns:
  assumes "reachable ch s" "clients s i = JobsWait rs cap n"
  shows "\<exists>s'. (unaided (set cap) i)\<^sup>*\<^sup>* s s' \<and> clients s' i = StopOk cap n"
  using assms
proof (induction rs arbitrary: s)
  case Nil
  have "(unaided (set cap) i)\<^sup>*\<^sup>* s (s\<lparr>clients := (clients s)(i := StopOk cap n)\<rparr>)"
    by (rule unaided_client [OF client_step.stop_ok [OF Nil.prems(2)]]) (simp_all add: Nil.prems)
  then show ?case by force
next
  case (Cons r rs)
  have r: "r \<in> set cap" "r < allocated (cron s)"
    using reachable_clients_ok [OF Cons.prems(1)] Cons.prems(2) unfolding clients_ok_def
    by (metis client_ok.simps(2) list.set_intros(1) within_def subsetD)+
  obtain s1 where s1: "goes r s s1" "jobs s1 r = 0" using jobs_drain [OF Cons.prems(1)] by blast
  have r1: "reachable ch s1" by (rule goesD(3) [OF s1(1) Cons.prems(1)])
  have jok: "jobs_ok (cron s1) (jobs s1)" using reachable_ok [OF r1] by (simp add: system_ok_def)
  have "r < allocated (cron s1)" using goesD(4) [OF s1(1)] r(2) by (simp add: keeps_def)
  then have "activeJobs (lifecycles (cron s1) r) = 0" using jobs_okD(1) [OF jok, of r] s1(2) by simp
  then have w: "waitForRunJobs r (cron s1) = (None, cleanupCompletedRunsLocked (cron s1))"
    by (simp add: waitForRunJobs_def)
  have c: "clients s1 i = JobsWait (r # rs) cap n" using goesD(1) [OF s1(1)] Cons.prems(2) by simp
  from client_step.jobs_check [OF this w]
  have step: "client_step s1 (s1\<lparr>cron := cleanupCompletedRunsLocked (cron s1),
      clients := (clients s1)(i := JobsWait rs cap n)\<rparr>)" (is "client_step s1 ?s") by simp
  have mine: "(unaided (set cap) i)\<^sup>*\<^sup>* s1 ?s" by (rule unaided_client [OF step]) (simp_all add: c)
  obtain s' where s': "(unaided (set cap) i)\<^sup>*\<^sup>* ?s s'" "clients s' i = StopOk cap n"
    using Cons.IH [OF reachable_client [OF r1 step]] by auto
  have "(unaided (set cap) i)\<^sup>*\<^sup>* s s'"
    using rtranclp_trans [OF goes_unaided [OF s1(1) r(1)] rtranclp_trans [OF mine s'(1)]] .
  then show ?case using s'(2) by blast
qed

lemma jobs_chan_returns:
  assumes "reachable ch s" "clients s i = JobsChan x r rs cap n"
  shows "\<exists>s'. (unaided (set cap) i)\<^sup>*\<^sup>* s s' \<and> clients s' i = StopOk cap n"
proof -
  obtain s1 where s1: "goes r s s1" "jobs s1 r = 0" using jobs_drain [OF assms(1)] by blast
  have r1: "reachable ch s1" by (rule goesD(3) [OF s1(1) assms(1)])
  have jok: "jobs_ok (cron s1) (jobs s1)" using reachable_ok [OF r1] by (simp add: system_ok_def)
  have c: "clients s1 i = JobsChan x r rs cap n" using goesD(1) [OF s1(1)] assms(2) by simp
  then have "client_ok s1 (JobsChan x r rs cap n)"
    using reachable_clients_ok [OF r1] unfolding clients_ok_def by metis
  then have r: "r \<in> set cap" "r < allocated (cron s1)" "awaits s1 x r" by (auto simp: within_def)
  then have "isClosed (cron s1) x"
    using jobs_okD(1,2) [OF jok, of r] s1(2) by (auto simp: awaits_def isClosed_def)
  from client_step.jobs_gone [OF c waitForRunChannel.channel_closed [OF this]]
  have step: "client_step s1 (s1\<lparr>clients := (clients s1)(i := JobsWait rs cap n)\<rparr>)" (is "client_step s1 ?s") .
  have mine: "(unaided (set cap) i)\<^sup>*\<^sup>* s1 ?s" by (rule unaided_client [OF step]) (simp_all add: c)
  obtain s' where s': "(unaided (set cap) i)\<^sup>*\<^sup>* ?s s'" "clients s' i = StopOk cap n"
    using jobs_wait_returns [OF reachable_client [OF r1 step], of i rs cap n] by auto
  have "(unaided (set cap) i)\<^sup>*\<^sup>* s s'"
    using rtranclp_trans [OF goes_unaided [OF s1(1) r(1)] rtranclp_trans [OF mine s'(1)]] .
  then show ?thesis using s'(2) by blast
qed

lemma loops_wait_returns:
  assumes "reachable ch s" "total_system s" "clients s i = LoopsWait rs cap n"
  shows "\<exists>s'. (unaided (set cap) i)\<^sup>*\<^sup>* s s' \<and> clients s' i = StopOk cap n"
  using assms
proof (induction rs arbitrary: s)
  case Nil
  from client_step.loops_gone [OF Nil.prems(3)]
  have step: "client_step s (s\<lparr>clients := (clients s)(i := JobsWait cap cap n)\<rparr>)" (is "client_step s ?s") .
  have mine: "(unaided (set cap) i)\<^sup>*\<^sup>* s ?s" by (rule unaided_client [OF step]) (simp_all add: Nil.prems)
  obtain s' where "(unaided (set cap) i)\<^sup>*\<^sup>* ?s s'" "clients s' i = StopOk cap n"
    using jobs_wait_returns [OF reachable_client [OF Nil.prems(1) step], of i cap cap n] by auto
  then show ?case using rtranclp_trans [OF mine] by blast
next
  case (Cons r rs)
  have "waits_ok s (clients s i)" using reachable_waits_ok [OF Cons.prems(1)] by (simp add: all_waits_ok_def)
  then have r: "cancelled_run s r" by (simp add: Cons.prems(3))
  have m: "r \<in> set cap"
    using reachable_clients_ok [OF Cons.prems(1)] Cons.prems(3) unfolding clients_ok_def
    by (metis client_ok.simps(1) list.set_intros(1) within_def subsetD)
  obtain s1 where s1: "goes r s s1" "loops s1 r = Exited"
    using cancelled_goes [OF Cons.prems(1) r Cons.prems(2)] by blast
  have r1: "reachable ch s1" by (rule goesD(3) [OF s1(1) Cons.prems(1)])
  have "r < allocated (cron s1)"
    using cancelled_run_keeps [OF goesD(4) [OF s1(1)] r] by (simp add: cancelled_run_def)
  then have x: "isClosed (cron s1) (loopDone (lifecycles (cron s1) r))"
    using exited_iff [OF reachable_ok [OF r1]] s1(2) by blast
  have c: "clients s1 i = LoopsWait (r # rs) cap n" using goesD(1) [OF s1(1)] Cons.prems(3) by simp
  from client_step.loop_gone [OF this waitForRunChannel.channel_closed [OF x]]
  have step: "client_step s1 (s1\<lparr>clients := (clients s1)(i := LoopsWait rs cap n)\<rparr>)" (is "client_step s1 ?s") .
  have mine: "(unaided (set cap) i)\<^sup>*\<^sup>* s1 ?s" by (rule unaided_client [OF step]) (simp_all add: c)
  have "total_system ?s" using goesD(2) [OF s1(1) Cons.prems(2)] by (simp add: total_system_def)
  then obtain s' where s': "(unaided (set cap) i)\<^sup>*\<^sup>* ?s s'" "clients s' i = StopOk cap n"
    using Cons.IH [OF reachable_client [OF r1 step]] by auto
  have "(unaided (set cap) i)\<^sup>*\<^sup>* s s'"
    using rtranclp_trans [OF goes_unaided [OF s1(1) m] rtranclp_trans [OF mine s'(1)]] .
  then show ?case using s'(2) by blast
qed

text \<open>
  C12: \<open>Stop\<close> and \<open>Shutdown\<close> need nobody's help to come back: from every reachable state in which one
  waits for its loops, between the two waits, or on the channel of a run's jobs, there is a way on which
  only the loops and the jobs of the runs it has taken and the call itself move, nothing is started,
  and nothing is cancelled beyond what the call has cancelled, and on which it returns nil. The
  schedules must return.
\<close>

theorem stop_can_return:
  assumes "reachable ch s" "total_system s"
    and "clients s i = LoopsWait rs cap n \<or> clients s i = JobsWait rs cap n \<or>
      clients s i = JobsChan x r rs cap n"
  shows "\<exists>s'. (unaided (set cap) i)\<^sup>*\<^sup>* s s' \<and> clients s' i = StopOk cap n"
  using assms(3) loops_wait_returns [OF assms(1,2)] jobs_wait_returns [OF assms(1)]
    jobs_chan_returns [OF assms(1)] by blast

theorem stop_can_return_witness:
  "\<exists>s'. (unaided {0} 1)\<^sup>*\<^sup>* (sys cron2 (no_loops(0 := Select noon)) stopping) s' \<and> clients s' 1 = StopOk [0] 1"
  using stop_can_return [OF demo_stopping demo_total(1), of 1 "[0]" "[0]" 1] by simp

end
