(* ===== verification/Cron_Exclusion.thy ===== *)
theory Cron_Exclusion
  imports Cron_Liveness
begin







end
