(* ===== verification/Cron_Jobs.thy ===== *)
theory Cron_Jobs
  imports Cron_State
begin

text \<open>
  What the goroutine of a job does: \<open>executeJob\<close> with the hooks of option.go, \<open>safeCallHook\<close>, and
  the deferred \<open>finishJob\<close> of \<open>startJob\<close>. A hook is a function on the world that may panic; the
  logger and the clock act on the same world.
\<close>

type_synonym ('w, 'b) hook = "'w \<Rightarrow> 'b recovered option \<times> 'w"

type_synonym ('w, 'b) ErrorFunc = "int \<Rightarrow> string \<Rightarrow> 'b error \<Rightarrow> ('w, 'b) hook"

record ('w, 'b) EventHooks =
  OnJobStart :: "(int \<Rightarrow> string \<Rightarrow> ('w, 'b) hook) option"
  OnJobComplete :: "(int \<Rightarrow> string \<Rightarrow> int \<Rightarrow> 'b error option \<Rightarrow> ('w, 'b) hook) option"

text \<open>The log calls of a job's goroutine and the clock \<open>time.Now\<close>, in nanoseconds.\<close>

record ('w, 'b) runtime =
  log_hook_panic :: "'b recovered \<Rightarrow> 'w \<Rightarrow> 'w"
  log_job_error :: "'b error \<Rightarrow> int \<Rightarrow> string \<Rightarrow> 'w \<Rightarrow> 'w"
  time_Now :: "'w \<Rightarrow> int"

definition safeCallHook :: "('w, 'b) runtime \<Rightarrow> ('w, 'b) hook \<Rightarrow> 'w \<Rightarrow> 'w" where
  "safeCallHook rt fn w =
     (case fn w of
        (None, w') \<Rightarrow> w'
      | (Some recovered, w') \<Rightarrow> log_hook_panic rt recovered w')"

text \<open>A function that may be nil, called if it is not.\<close>

definition call_if :: "'f option \<Rightarrow> ('f \<Rightarrow> ('w, 'b) hook) \<Rightarrow> ('w, 'b) hook" where
  "call_if f call w = (case f of None \<Rightarrow> (None, w) | Some fn \<Rightarrow> call fn w)"

text \<open>\<open>Some v\<close> is the panic of the job, which \<open>executeJob\<close> lets through.\<close>

definition executeJob ::
  "('w, 'b) runtime \<Rightarrow> ('w, 'b) EventHooks \<Rightarrow> ('w, 'b) ErrorFunc option \<Rightarrow> 'c \<Rightarrow>
    ('c, 'w, 'b) job Entry \<Rightarrow> 'w \<Rightarrow> 'b recovered option \<times> 'w" where
  "executeJob rt hooks onError ctx entry w =
     (let w1 = safeCallHook rt (call_if (OnJobStart hooks) (\<lambda>f. f (ID entry) (Name entry))) w;
          started = time_Now rt w1
      in case wrappedJob entry ctx w1 of
           (Panicked v, w2) \<Rightarrow> (Some v, w2)
         | (Returned err, w2) \<Rightarrow>
             let w3 = safeCallHook rt (\<lambda>w. call_if (OnJobComplete hooks)
                        (\<lambda>f. f (ID entry) (Name entry) (time_Now rt w - started) err) w) w2
             in (None,
                 case err of
                   None \<Rightarrow> w3
                 | Some e \<Rightarrow>
                     safeCallHook rt (call_if onError (\<lambda>f. f (ID entry) (Name entry) e))
                       (log_job_error rt e (ID entry) (Name entry) w3)))"

text \<open>The goroutine that \<open>startJob\<close> spawns: \<open>finishJob\<close> is deferred, so it runs after a panic, too.\<close>

definition job_goroutine ::
  "('w, 'b) runtime \<Rightarrow> ('w, 'b) EventHooks \<Rightarrow> ('w, 'b) ErrorFunc option \<Rightarrow> 'c \<Rightarrow>
    ('c, 'w, 'b) job Entry \<Rightarrow> nat \<Rightarrow> ('c, 'w, 'b) job Cron \<Rightarrow> 'w \<Rightarrow>
    'b recovered option \<times> ('c, 'w, 'b) job Cron call \<times> 'w" where
  "job_goroutine rt hooks onError ctx entry r c w =
     (let (p, w') = executeJob rt hooks onError ctx entry w in (p, finishJob r c, w'))"

subsection \<open>What the callbacks see\<close>

text \<open>The calls that go out of \<open>executeJob\<close>, as they are logged by the instrumented callbacks.\<close>

datatype 'b callback =
    JobStarted int string
  | JobRun
  | JobCompleted int string "'b error option"
  | JobFailed int string "'b error"

definition logs :: "'b callback \<Rightarrow> ('w, 'b) hook \<Rightarrow> ('w \<times> 'b callback list, 'b) hook" where
  "logs x h w = (let (p, w') = h (fst w) in (p, (w', snd w @ [x])))"

definition logged_job ::
  "('c, 'w, 'b) job \<Rightarrow> ('c, 'w \<times> 'b callback list, 'b) job" where
  "logged_job j ctx w = (let (r, w') = j ctx (fst w) in (r, (w', snd w @ [JobRun])))"

definition logged_runtime :: "('w, 'b) runtime \<Rightarrow> ('w \<times> 'b callback list, 'b) runtime" where
  "logged_runtime rt =
     \<lparr>log_hook_panic = (\<lambda>v w. (log_hook_panic rt v (fst w), snd w)),
      log_job_error = (\<lambda>e i n w. (log_job_error rt e i n (fst w), snd w)),
      time_Now = time_Now rt \<circ> fst\<rparr>"

definition logged_hooks ::
  "(int \<Rightarrow> string \<Rightarrow> ('w, 'b) hook) \<Rightarrow> (int \<Rightarrow> string \<Rightarrow> int \<Rightarrow> 'b error option \<Rightarrow> ('w, 'b) hook) \<Rightarrow>
    ('w \<times> 'b callback list, 'b) EventHooks" where
  "logged_hooks f g =
     \<lparr>OnJobStart = Some (\<lambda>i n. logs (JobStarted i n) (f i n)),
      OnJobComplete = Some (\<lambda>i n d e. logs (JobCompleted i n e) (g i n d e))\<rparr>"

text \<open>The calls that belong to an outcome of the job.\<close>

definition calls_for :: "('c, 'w, 'b) job Entry \<Rightarrow> 'b outcome \<Rightarrow> 'b callback list" where
  "calls_for entry out =
     [JobStarted (ID entry) (Name entry), JobRun] @
     (case out of
        Panicked v \<Rightarrow> []
      | Returned None \<Rightarrow> [JobCompleted (ID entry) (Name entry) None]
      | Returned (Some e) \<Rightarrow>
          [JobCompleted (ID entry) (Name entry) (Some e), JobFailed (ID entry) (Name entry) e])"

lemma safeCallHook_logs:
  obtains w' where "safeCallHook (logged_runtime rt) (\<lambda>w. logs x (h w) w) w = (w', snd w @ [x])"
proof -
  obtain p v where "h w (fst w) = (p, v)" by fastforce
  then show ?thesis
    using that by (cases p) (simp_all add: safeCallHook_def logs_def logged_runtime_def)
qed

lemma log_job_error_logged: "log_job_error (logged_runtime rt) e i n w = (log_job_error rt e i n (fst w), snd w)"
  by (simp add: logged_runtime_def)

text \<open>
  C16: whatever the callbacks do, panicking included, the job of an entry runs exactly once, after
  \<open>OnJobStart\<close>; if it returns, \<open>OnJobComplete\<close> sees its result, and then \<open>OnError\<close> its error if there is
  one; if it panics nothing more is called. Only the job's own panic gets out, and the run is told
  of the end of the job in every case.
\<close>

theorem executeJob_callbacks:
  "\<exists>v. let (p, finished, w') = job_goroutine (logged_runtime rt) (logged_hooks f g)
             (Some (\<lambda>i n e. logs (JobFailed i n e) (h i n e))) ctx
             (entry\<lparr>wrappedJob := logged_job j\<rparr>) r c (w, [])
       in finished = finishJob r c \<and>
          p = (case fst (j ctx v) of Panicked x \<Rightarrow> Some x | Returned e \<Rightarrow> None) \<and>
          snd w' = calls_for entry (fst (j ctx v))"
proof -
  let ?rt = "logged_runtime rt" and ?i = "ID entry" and ?n = "Name entry"
  obtain w1 where w1: "safeCallHook ?rt (logs (JobStarted ?i ?n) (f ?i ?n)) (w, []) = (w1, [JobStarted ?i ?n])"
    using safeCallHook_logs [of rt "JobStarted ?i ?n" "\<lambda>_. f ?i ?n" "(w, [])"] by auto
  obtain out w2 where j: "j ctx w1 = (out, w2)" by fastforce
  show ?thesis
  proof (cases out)
    case (Panicked x)
    then show ?thesis using w1 j
      by (intro exI [of _ w1]) (simp add: job_goroutine_def executeJob_def call_if_def [abs_def] logged_hooks_def logged_job_def calls_for_def)
  next
    case (Returned err)
    let ?g = "\<lambda>w. g ?i ?n (time_Now ?rt w - time_Now ?rt (w1, [JobStarted ?i ?n])) err"
    let ?l = "[JobStarted ?i ?n, JobRun]"
    obtain w3 where w3: "safeCallHook ?rt (\<lambda>w. logs (JobCompleted ?i ?n err) (?g w) w) (w2, ?l)
        = (w3, ?l @ [JobCompleted ?i ?n err])"
      using safeCallHook_logs [of rt "JobCompleted ?i ?n err" ?g "(w2, ?l)"] by auto
    show ?thesis
    proof (cases err)
      case None
      then show ?thesis using w1 j Returned w3
        by (intro exI [of _ w1]) (simp add: job_goroutine_def executeJob_def call_if_def [abs_def] logged_hooks_def logged_job_def calls_for_def)
    next
      case (Some e)
      obtain w4 where "safeCallHook ?rt (logs (JobFailed ?i ?n e) (h ?i ?n e))
          (log_job_error rt e ?i ?n w3, ?l @ [JobCompleted ?i ?n err]) =
          (w4, ?l @ [JobCompleted ?i ?n err, JobFailed ?i ?n e])"
        using safeCallHook_logs [of rt "JobFailed ?i ?n e" "\<lambda>_. h ?i ?n e"
            "(log_job_error rt e ?i ?n w3, ?l @ [JobCompleted ?i ?n err])"] by auto
      then show ?thesis using w1 j Returned w3 Some
        by (intro exI [of _ w1]) (simp add: job_goroutine_def executeJob_def call_if_def [abs_def] logged_hooks_def logged_job_def calls_for_def log_job_error_logged)
    qed
  qed
qed

subsection \<open>Recover keeps the scheduler alive\<close>

lemma job_goroutine_panic:
  assumes "\<And>w. \<exists>e. fst (wrappedJob entry ctx w) = Returned e"
  shows "fst (job_goroutine rt hooks onError ctx entry r c w) = None"
proof -
  let ?w = "safeCallHook rt (call_if (OnJobStart hooks) (\<lambda>f. f (ID entry) (Name entry))) w"
  obtain out w2 where j: "wrappedJob entry ctx ?w = (out, w2)" by fastforce
  moreover obtain e where "out = Returned e" using assms [of ?w] j by auto
  ultimately show ?thesis by (simp add: job_goroutine_def executeJob_def Let_def)
qed

lemma Recover_returns: "\<exists>e. fst (Recover log j ctx w) = Returned e"
  by (simp add: Recover_def split: prod.split outcome.split)

text \<open>
  C27: an entry of an instance whose chain begins with \<open>Recover\<close> cannot bring the program down:
  whatever its job, the other wrappers and the callbacks do, no panic leaves the goroutine. A panic
  of the rest of the chain becomes an error that \<open>errors.Is\<close> recognises as \<open>ErrPanic\<close>, and is logged; any
  other result is that of the rest of the chain.
\<close>

theorem recovered_entry_never_panics:
  assumes "scheduleEntry name sched j c = Ret (e, wch, c')" "chain c = NewChain (Recover log # ms)"
  shows "fst (job_goroutine rt hooks onError ctx e r c'' w) = None \<and>
    wrappedJob e ctx v =
      (case Then (NewChain ms) j ctx v of
         (Returned x, v') \<Rightarrow> (Returned x, v')
       | (Panicked x, v') \<Rightarrow> (Returned (Some (panic_error x)), log (panic_error x) v')) \<and>
    is_ErrPanic (panic_error x)"
proof -
  have e: "wrappedJob e = Recover log (Then ms j)"
    using assms by (auto simp: scheduleEntry_def Let_def and_then_eq_Ret Then_foldr NewChain_def split: if_splits)
  then have "fst (job_goroutine rt hooks onError ctx e r c'' w) = None"
    by (intro job_goroutine_panic) (simp add: Recover_returns)
  moreover have "is_ErrPanic (panic_error x)" by (cases x) simp_all
  ultimately show ?thesis by (simp add: e Recover_def NewChain_def)
qed

definition panicking_job :: "(unit, nat, string) job" where
  "panicking_job ctx w = (Panicked (PanicValue ''boom''), w + 1)"

definition silent :: "(nat, string) runtime" where
  "silent = \<lparr>log_hook_panic = (\<lambda>_ w. w), log_job_error = (\<lambda>_ _ _ w. w), time_Now = int\<rparr>"

theorem recovered_entry_never_panics_witness:
  "\<exists>e c'. scheduleEntry ''job'' (\<lambda>t. Ret t) panicking_job (new_cron (NewChain [Recover (\<lambda>_ w. w)])) = Ret (e, None, c') \<and>
     fst (job_goroutine silent \<lparr>OnJobStart = None, OnJobComplete = None\<rparr> None () e 0 c' 0) = None \<and>
     fst (job_goroutine silent \<lparr>OnJobStart = None, OnJobComplete = None\<rparr> None () (e\<lparr>wrappedJob := panicking_job\<rparr>) 0 c' 0) \<noteq> None"
proof -
  let ?h = "\<lparr>OnJobStart = None, OnJobComplete = None\<rparr> :: (nat, string) EventHooks"
  let ?c = "new_cron (NewChain [Recover (\<lambda>_ w. w)]) :: (unit, nat, string) job Cron"
  obtain e c' where e: "scheduleEntry ''job'' (\<lambda>t. Ret t) panicking_job ?c = Ret (e, None, c')"
    by (simp add: scheduleEntry_def new_cron_def Let_def)
  have "chain ?c = NewChain [Recover (\<lambda>_ w. w)]" by (simp add: new_cron_def)
  note safe = recovered_entry_never_panics [OF e this]
  have "fst (job_goroutine silent ?h None () (e\<lparr>wrappedJob := panicking_job\<rparr>) 0 c' 0) \<noteq> None"
    by (simp add: job_goroutine_def executeJob_def safeCallHook_def call_if_def panicking_job_def)
  with e safe show ?thesis by blast
qed

end
