(* ===== verification/Logging.thy ===== *)
theory Logging
  imports Cron_Jobs Cron_Late
begin

text \<open>
  logger.go and the log calls of cron.go and chain.go: what \<open>log/slog\<close> does with them, the operations of
  the scheduler loop with their log lines, and the log lines of a job's goroutine. A line is a record
  with its level, message and attributes; the bytes that the text handler makes of it are left out, as
  are its time and source position.
\<close>

subsection \<open>log/slog\<close>

definition LevelInfo :: int where "LevelInfo = 0"
definition LevelWarn :: int where "LevelWarn = 4"
definition LevelError :: int where "LevelError = 8"

lemmas level_defs = LevelInfo_def LevelWarn_def LevelError_def

datatype 'b attr_value =
    TimeAttr gotime
  | IntAttr int
  | StringAttr string
  | ErrorAttr "'b error"
  | RecoveredAttr "'b recovered"

record 'b log_line =
  level :: int
  message :: string
  attrs :: "(string \<times> 'b attr_value) list"

text \<open>
  A handler: that of \<open>NewTextHandler\<close> on the standard output, with its level and its open groups, that
  of \<open>DiscardHandler\<close>, or one of the client. The world is the lines on the standard output and the rest.
\<close>

datatype ('w, 'b) Handler =
    TextHandler int "string list"
  | DiscardHandler
  | ClientHandler "int \<Rightarrow> bool" "'b log_line \<Rightarrow> 'w \<Rightarrow> 'w"

record HandlerOptions =
  Level :: "int option"

definition NewTextHandler :: "HandlerOptions \<Rightarrow> ('w, 'b) Handler" where
  "NewTextHandler opts = TextHandler (case Level opts of None \<Rightarrow> LevelInfo | Some l \<Rightarrow> l) []"

primrec Enabled :: "('w, 'b) Handler \<Rightarrow> int \<Rightarrow> bool" where
  "Enabled (TextHandler l gs) lv \<longleftrightarrow> l \<le> lv"
| "Enabled DiscardHandler lv \<longleftrightarrow> False"
| "Enabled (ClientHandler en h) lv \<longleftrightarrow> en lv"

text \<open>The text handler writes a key in a group as \<open>group.key\<close>.\<close>

definition group_key :: "string list \<Rightarrow> string \<Rightarrow> string" where
  "group_key gs k = concat (map (\<lambda>g. g @ ''.'') gs) @ k"

primrec Handle :: "('w, 'b) Handler \<Rightarrow> 'b log_line \<Rightarrow> 'b log_line list \<times> 'w \<Rightarrow> 'b log_line list \<times> 'w" where
  "Handle (TextHandler l gs) r w = (fst w @ [r\<lparr>attrs := map (apfst (group_key gs)) (attrs r)\<rparr>], snd w)"
| "Handle DiscardHandler r w = w"
| "Handle (ClientHandler en h) r w = (fst w, h r (snd w))"

primrec handler_WithGroup :: "('w, 'b) Handler \<Rightarrow> string \<Rightarrow> ('w, 'b) Handler" where
  "handler_WithGroup (TextHandler l gs) g = TextHandler l (gs @ [g])"
| "handler_WithGroup DiscardHandler g = DiscardHandler"
| "handler_WithGroup (ClientHandler en h) g =
     ClientHandler en (\<lambda>r. h (r\<lparr>attrs := map (apfst (group_key [g])) (attrs r)\<rparr>))"

text \<open>A \<open>*slog.Logger\<close> is its handler.\<close>

definition WithGroup :: "string \<Rightarrow> ('w, 'b) Handler \<Rightarrow> ('w, 'b) Handler" where
  "WithGroup name lg = (if name = [] then lg else handler_WithGroup lg name)"

definition slog_log ::
  "int \<Rightarrow> string \<Rightarrow> (string \<times> 'b attr_value) list \<Rightarrow> ('w, 'b) Handler \<Rightarrow>
    'b log_line list \<times> 'w \<Rightarrow> 'b log_line list \<times> 'w" where
  "slog_log lv msg args lg w =
     (if Enabled lg lv then Handle lg \<lparr>level = lv, message = msg, attrs = args\<rparr> w else w)"

abbreviation "slog_Info \<equiv> slog_log LevelInfo"
abbreviation "slog_Warn \<equiv> slog_log LevelWarn"
abbreviation "slog_Error \<equiv> slog_log LevelError"

subsection \<open>logger.go\<close>

definition DefaultLogger :: "('w, 'b) Handler" where
  "DefaultLogger = WithGroup ''cron'' (NewTextHandler \<lparr>Level = Some LevelWarn\<rparr>)"

definition DiscardLogger :: "('w, 'b) Handler" where
  "DiscardLogger = DiscardHandler"

lemma DefaultLogger_eq: "DefaultLogger = TextHandler LevelWarn [''cron'']"
  by (simp add: DefaultLogger_def WithGroup_def NewTextHandler_def)

text \<open>The loggers that write nothing below Warn.\<close>

definition reticent :: "('w, 'b) Handler \<Rightarrow> bool" where
  "reticent lg \<longleftrightarrow> \<not> Enabled lg LevelInfo"

lemma reticent_loggers: "reticent DefaultLogger" "reticent DiscardLogger"
  by (simp_all add: reticent_def DefaultLogger_eq DiscardLogger_def level_defs)

lemma reticent_Info: "reticent lg \<Longrightarrow> slog_Info msg args lg w = w"
  by (simp add: reticent_def slog_log_def)

subsection \<open>The scheduler loop\<close>

text \<open>The operations of Cron_Entries and Cron_Late with the lines they log.\<close>

definition log_start :: "('w, 'b) Handler \<Rightarrow> 'b log_line list \<times> 'w \<Rightarrow> 'b log_line list \<times> 'w" where
  "log_start lg = slog_Info ''start'' [] lg"

definition log_stop :: "('w, 'b) Handler \<Rightarrow> 'b log_line list \<times> 'w \<Rightarrow> 'b log_line list \<times> 'w" where
  "log_stop lg = slog_Info ''stop'' [] lg"

primrec initializeEntries_logged ::
  "('w, 'b) Handler \<Rightarrow> gotime \<Rightarrow> 'j Entry list \<Rightarrow> 'b log_line list \<times> 'w \<Rightarrow>
    ('j Entry list \<times> 'b log_line list \<times> 'w) call" where
  "initializeEntries_logged lg now [] w = Ret ([], w)"
| "initializeEntries_logged lg now (e # es) w =
     and_then (eSchedule e now) (\<lambda>t.
     and_then (initializeEntries_logged lg now es
         (slog_Info ''schedule'' [(''now'', TimeAttr now), (''entry'', IntAttr (ID e)), (''next'', TimeAttr t)] lg w))
       (\<lambda>(es', w'). Ret (e\<lparr>Next := t\<rparr> # es', w')))"

primrec runDueEntries_logged ::
  "('w, 'b) Handler \<Rightarrow> gotime \<Rightarrow> 'j Entry list \<Rightarrow> 'b log_line list \<times> 'w \<Rightarrow>
    (('j Entry list \<times> 'j Entry list) \<times> 'b log_line list \<times> 'w) call" where
  "runDueEntries_logged lg now [] w = Ret (([], []), w)"
| "runDueEntries_logged lg now (e # es) w =
     (if After (Next e) now \<or> IsZero (Next e) then Ret (([], e # es), w)
      else and_then (eSchedule e now) (\<lambda>t.
           and_then (runDueEntries_logged lg now es
               (slog_Info ''run'' [(''now'', TimeAttr now), (''entry'', IntAttr (ID e)),
                  (''name'', StringAttr (Name e)), (''next'', TimeAttr t)] lg w))
             (\<lambda>((started, es'), w'). Ret ((e # started, e\<lparr>Prev := Next e, Next := t\<rparr> # es'), w'))))"

definition handleTimerFired_logged ::
  "('w, 'b) Handler \<Rightarrow> location \<Rightarrow> gotime \<Rightarrow> 'j Entry list \<Rightarrow> 'b log_line list \<times> 'w \<Rightarrow>
    ((gotime \<times> 'j Entry list \<times> 'j Entry list) \<times> 'b log_line list \<times> 'w) call" where
  "handleTimerFired_logged lg loc firedAt es w =
     (let now = go_In firedAt loc;
          w1 = slog_Info ''wake'' [(''now'', TimeAttr now)] lg w
      in and_then (runDueEntries_logged lg now es w1) (\<lambda>((started, es'), w2). Ret ((now, started, es'), w2)))"

definition handleEntryAdded_logged ::
  "('w, 'b) Handler \<Rightarrow> gotime \<Rightarrow> 'j Entry \<Rightarrow> 'j Entry list \<Rightarrow> 'b log_line list \<times> 'w \<Rightarrow>
    ('j Entry list \<times> 'b log_line list \<times> 'w) call" where
  "handleEntryAdded_logged lg now e es w =
     and_then (eSchedule e now) (\<lambda>t.
       Ret (es @ [e\<lparr>Next := t\<rparr>],
         slog_Info ''added'' [(''now'', TimeAttr now), (''entry'', IntAttr (ID e)),
           (''name'', StringAttr (Name e)), (''next'', TimeAttr t)] lg w))"

definition handleEntryRemoved_logged ::
  "('w, 'b) Handler \<Rightarrow> location \<Rightarrow> gotime \<Rightarrow> int \<Rightarrow> 'j Entry list \<Rightarrow> 'b log_line list \<times> 'w \<Rightarrow>
    (gotime \<times> 'j Entry list) \<times> 'b log_line list \<times> 'w" where
  "handleEntryRemoved_logged lg loc reading i es w =
     (let now = go_In reading loc
      in ((now, removeEntry i es), slog_Info ''removed'' [(''entry'', IntAttr i)] lg w))"

text \<open>What an operation does apart from its lines.\<close>

definition unlogged :: "('a \<times> 'x) call \<Rightarrow> 'a call" where
  "unlogged m = map_go id fst m"

lemma unlogged_simps [simp]:
  "unlogged (Ret p) = Ret (fst p)" "unlogged (Err u) = Err u" "unlogged (Panic q) = Panic q"
  "unlogged Diverge = Diverge"
  by (simp_all add: unlogged_def)

lemma unlogged_bind [simp]:
  "unlogged (and_then m k) = and_then m (\<lambda>a. unlogged (k a))" for m :: "'b call"
  by (cases m) simp_all

lemma and_then_fst: "and_then m (\<lambda>p. h (fst p)) = and_then (unlogged m) h" for m :: "('a \<times> 'x) call"
  by (cases m) (simp_all add: unlogged_def)

lemma initializeEntries_unlogged: "unlogged (initializeEntries_logged lg now es w) = initializeEntries now es"
proof (induction es arbitrary: w)
  case (Cons e es)
  then show ?case by (simp add: case_prod_unfold and_then_fst [of _ "\<lambda>es'. Ret (_ # es')"])
qed simp

lemma runDueEntries_unlogged: "unlogged (runDueEntries_logged lg now es w) = runDueEntries now es"
proof (induction es arbitrary: w)
  case (Cons e es)
  then show ?case
    by (simp add: case_prod_unfold and_then_fst [of _ "\<lambda>x. Ret (e # fst x, _ # snd x)"])
qed simp

lemma handleTimerFired_unlogged:
  "unlogged (handleTimerFired_logged lg loc firedAt es w) = handleTimerFired loc firedAt es"
  by (simp add: handleTimerFired_logged_def handleTimerFired_def Let_def runDueEntries_unlogged
      case_prod_unfold and_then_fst [of _ "\<lambda>x. Ret (_, x)"])

lemma handleEntryAdded_unlogged: "unlogged (handleEntryAdded_logged lg now e es w) = handleEntryAdded now e es"
  by (simp add: handleEntryAdded_logged_def handleEntryAdded_def)

lemma handleEntryRemoved_unlogged:
  "fst (handleEntryRemoved_logged lg loc reading i es w) = handleEntryRemoved loc reading i es"
  by (simp add: handleEntryRemoved_logged_def handleEntryRemoved_def Let_def)

text \<open>A logger that writes nothing at Info adds nothing.\<close>

lemma and_then_Ret: "and_then m (\<lambda>a. and_then (Ret (f a)) k) = and_then m (\<lambda>a. k (f a))" for m :: "'a call"
  by (cases m) simp_all

lemma initializeEntries_silent:
  "reticent lg \<Longrightarrow> initializeEntries_logged lg now es w = and_then (initializeEntries now es) (\<lambda>x. Ret (x, w))"
  by (induction es) (simp_all add: reticent_Info and_then_assoc)

lemma runDueEntries_silent:
  "reticent lg \<Longrightarrow> runDueEntries_logged lg now es w = and_then (runDueEntries now es) (\<lambda>x. Ret (x, w))"
  by (induction es) (simp_all add: reticent_Info and_then_assoc case_prod_unfold)

lemma handleTimerFired_silent:
  "reticent lg \<Longrightarrow>
   handleTimerFired_logged lg loc firedAt es w = and_then (handleTimerFired loc firedAt es) (\<lambda>x. Ret (x, w))"
  by (simp add: handleTimerFired_logged_def handleTimerFired_def Let_def runDueEntries_silent reticent_Info
      and_then_assoc case_prod_unfold)

lemma handleEntryAdded_silent:
  "reticent lg \<Longrightarrow> handleEntryAdded_logged lg now e es w = and_then (handleEntryAdded now e es) (\<lambda>x. Ret (x, w))"
  by (simp add: handleEntryAdded_logged_def handleEntryAdded_def reticent_Info and_then_assoc)

text \<open>A text handler at Info writes a line for each entry that is run.\<close>

definition verbose :: "('w, 'b) Handler" where
  "verbose = NewTextHandler \<lparr>Level = None\<rparr>"

definition line_entry :: "'b log_line \<Rightarrow> 'b attr_value option" where
  "line_entry l = map_of (attrs l) ''entry''"

lemma verbose_Info:
  "slog_Info msg args verbose w = (fst w @ [\<lparr>level = LevelInfo, message = msg, attrs = args\<rparr>], snd w)"
  by (simp add: slog_log_def verbose_def NewTextHandler_def group_key_def apfst_def map_prod_def)

definition run_lines :: "'j Entry list \<Rightarrow> 'b log_line list \<Rightarrow> bool" where
  "run_lines started ls \<longleftrightarrow>
     list_all2 (\<lambda>e l. message l = ''run'' \<and> line_entry l = Some (IntAttr (ID e))) started ls"

lemma runDueEntries_verbose:
  "runDueEntries now es = Ret (started, es') \<Longrightarrow>
   \<exists>ls. runDueEntries_logged verbose now es w = Ret ((started, es'), (fst w @ ls, snd w)) \<and> run_lines started ls"
proof (induction es arbitrary: started es' w)
  case (Cons e es)
  show ?case
  proof (cases "After (Next e) now \<or> IsZero (Next e)")
    case True
    then show ?thesis using Cons.prems by (auto simp: run_lines_def)
  next
    case False
    then obtain t st es1 where r: "eSchedule e now = Ret t" "runDueEntries now es = Ret (st, es1)"
      "started = e # st" "es' = e\<lparr>Prev := Next e, Next := t\<rparr> # es1"
      using Cons.prems by (auto simp: and_then_eq_Ret)
    let ?l = "\<lparr>level = LevelInfo, message = ''run'', attrs = [(''now'', TimeAttr now), (''entry'', IntAttr (ID e)),
      (''name'', StringAttr (Name e)), (''next'', TimeAttr t)]\<rparr>"
    obtain ls where ls: "runDueEntries_logged verbose now es (fst w @ [?l], snd w) = Ret ((st, es1), (fst w @ [?l]) @ ls, snd w)"
      "run_lines st ls"
      using Cons.IH [OF r(2), of "(fst w @ [?l], snd w)"] by auto
    then show ?thesis using False r(1)
      by (intro exI [of _ "?l # ls"]) (simp add: verbose_Info r(3,4) run_lines_def line_entry_def)
  qed
qed (simp add: run_lines_def)

lemma handleTimerFired_verbose:
  assumes "handleTimerFired loc t es = Ret (now, started, es')"
  shows "\<exists>l ls. handleTimerFired_logged verbose loc t es w = Ret ((now, started, es'), (fst w @ l # ls, snd w)) \<and>
    message l = ''wake'' \<and> run_lines started ls"
proof -
  let ?l = "\<lparr>level = LevelInfo, message = ''wake'', attrs = [(''now'', TimeAttr now)]\<rparr>"
  have r: "now = go_In t loc" "runDueEntries now es = Ret (started, es')"
    using assms by (auto simp: handleTimerFired_def Let_def and_then_eq_Ret)
  from runDueEntries_verbose [OF r(2), of "(fst w @ [?l], snd w)"]
  obtain ls where "runDueEntries_logged verbose now es (fst w @ [?l], snd w) =
      Ret ((started, es'), (fst w @ [?l]) @ ls, snd w)" "run_lines started ls" by auto
  then show ?thesis
    by (intro exI [of _ ?l] exI [of _ ls]) (simp add: handleTimerFired_logged_def verbose_Info r(1) [symmetric] Let_def)
qed

text \<open>
  C34: what the scheduler loop logs does not change what it does, whatever the logger. With the loggers
  of the package, as with any that writes nothing at Info, the loop writes nothing at all, when it
  starts, initialises, fires, adds, removes and stops; with a text handler at Info a firing of the timer
  writes that it wakes, and one line for each entry it runs.
\<close>

theorem loop_log_lines:
  assumes "lg = DefaultLogger \<or> lg = DiscardLogger \<or> reticent lg"
    and "handleTimerFired loc t es = Ret (now', started, es')"
  shows "unlogged (handleTimerFired_logged lg' loc t es w) = handleTimerFired loc t es \<and>
    unlogged (initializeEntries_logged lg' now es w) = initializeEntries now es \<and>
    unlogged (handleEntryAdded_logged lg' now e es w) = handleEntryAdded now e es \<and>
    fst (handleEntryRemoved_logged lg' loc t i es w) = handleEntryRemoved loc t i es \<and>
    handleTimerFired_logged lg loc t es w = Ret ((now', started, es'), w) \<and>
    initializeEntries_logged lg now es w = and_then (initializeEntries now es) (\<lambda>x. Ret (x, w)) \<and>
    handleEntryAdded_logged lg now e es w = and_then (handleEntryAdded now e es) (\<lambda>x. Ret (x, w)) \<and>
    handleEntryRemoved_logged lg loc t i es w = (handleEntryRemoved loc t i es, w) \<and>
    log_start lg w = w \<and> log_stop lg w = w \<and>
    (\<exists>l ls. handleTimerFired_logged verbose loc t es w = Ret ((now', started, es'), (fst w @ l # ls, snd w)) \<and>
       message l = ''wake'' \<and> run_lines started ls)"
proof -
  have r: "reticent lg" using assms(1) reticent_loggers by blast
  have "handleTimerFired_logged lg loc t es w = Ret ((now', started, es'), w)"
    by (simp add: handleTimerFired_silent [OF r] assms(2))
  then show ?thesis using handleTimerFired_verbose [OF assms(2), of w]
    by (simp add: handleTimerFired_unlogged initializeEntries_unlogged handleEntryAdded_unlogged
        handleEntryRemoved_unlogged initializeEntries_silent [OF r] handleEntryAdded_silent [OF r]
        handleEntryRemoved_logged_def handleEntryRemoved_def log_start_def log_stop_def reticent_Info [OF r])
qed

text \<open>The late entry of Cron_Late.\<close>

theorem loop_log_lines_witness:
  "handleTimerFired_logged DefaultLogger UTC (second 37) [ten 15 zero_time] ([], ()) =
     Ret ((second 37, [ten 15 zero_time], [ten 47 (second 15)]), ([] :: unit log_line list, ())) \<and>
   (\<exists>l l' :: unit log_line. handleTimerFired_logged verbose UTC (second 37) [ten 15 zero_time] ([], ()) =
      Ret ((second 37, [ten 15 zero_time], [ten 47 (second 15)]), ([l, l'], ())) \<and>
      message l = ''wake'' \<and> line_entry l' = Some (IntAttr 1))"
proof -
  have fired: "handleTimerFired UTC (second 37) [ten 15 zero_time] = Ret (second 37, [ten 15 zero_time], [ten 47 (second 15)])"
    by (simp add: handleTimerFired_def Let_def second_In ten_sel ten_update)
  note t = loop_log_lines [OF disjI1 [OF refl] fired, where w = "([] :: unit log_line list, ())" and now = "second 0"
      and e = "ten 0 zero_time" and i = 0 and lg' = DefaultLogger]
  from t obtain l ls where l: "handleTimerFired_logged verbose UTC (second 37) [ten 15 zero_time] ([] :: unit log_line list, ()) =
      Ret ((second 37, [ten 15 zero_time], [ten 47 (second 15)]), ([] @ l # ls, ()))"
    "message l = ''wake''" "run_lines [ten 15 zero_time] ls"
    unfolding fst_conv snd_conv by (elim conjE exE) (rule that)
  moreover from l(3) obtain l' where "ls = [l']" "line_entry l' = Some (IntAttr 1)"
    by (auto simp: run_lines_def list_all2_Cons1 ten_sel)
  ultimately show ?thesis using t by (intro conjI exI [of _ l] exI [of _ l']) simp_all
qed

subsection \<open>A job's goroutine\<close>

text \<open>The log calls of \<open>executeJob\<close> and \<open>safeCallHook\<close>, and that of \<open>Recover\<close>.\<close>

definition slog_runtime ::
  "('w \<Rightarrow> int) \<Rightarrow> ('w, 'b) Handler \<Rightarrow> ('b log_line list \<times> 'w, 'b) runtime" where
  "slog_runtime clk lg =
     \<lparr>log_hook_panic = (\<lambda>v. slog_Error ''hook panic'' [(''recovered'', RecoveredAttr v)] lg),
      log_job_error = (\<lambda>e i n. slog_Warn ''job error''
        [(''err'', ErrorAttr e), (''entry'', IntAttr i), (''name'', StringAttr n)] lg),
      time_Now = clk \<circ> snd\<rparr>"

definition slog_panic ::
  "string \<Rightarrow> ('w, 'b) Handler \<Rightarrow> 'b error \<Rightarrow> 'b log_line list \<times> 'w \<Rightarrow> 'b log_line list \<times> 'w" where
  "slog_panic stack lg e = slog_Error ''panic'' [(''err'', ErrorAttr e), (''stack'', StringAttr (''...'' @ [CHR 0x0A] @ stack))] lg"

text \<open>A callback or a job that does not write to the standard output.\<close>

definition quietly :: "('w, 'b) hook \<Rightarrow> ('b log_line list \<times> 'w, 'b) hook" where
  "quietly h w = (let (p, v) = h (snd w) in (p, (fst w, v)))"

definition quiet_job :: "('c, 'w, 'b) job \<Rightarrow> ('c, 'b log_line list \<times> 'w, 'b) job" where
  "quiet_job j ctx w = (let (r, v) = j ctx (snd w) in (r, (fst w, v)))"

text \<open>The lines that the default logger writes.\<close>

definition panic_line :: "'b recovered option \<Rightarrow> 'b log_line list" where
  "panic_line p =
     (case p of
        None \<Rightarrow> []
      | Some v \<Rightarrow> [\<lparr>level = LevelError, message = ''hook panic'', attrs = [(''cron.recovered'', RecoveredAttr v)]\<rparr>])"

definition error_line :: "'j Entry \<Rightarrow> 'b error \<Rightarrow> 'b log_line" where
  "error_line entry e =
     \<lparr>level = LevelWarn, message = ''job error'',
      attrs = [(''cron.err'', ErrorAttr e), (''cron.entry'', IntAttr (ID entry)), (''cron.name'', StringAttr (Name entry))]\<rparr>"

lemma default_lines:
  "log_hook_panic (slog_runtime clk DefaultLogger) v w = (fst w @ panic_line (Some v), snd w)"
  "log_job_error (slog_runtime clk DefaultLogger) e (ID entry) (Name entry) w = (fst w @ [error_line entry e], snd w)"
  "time_Now (slog_runtime clk DefaultLogger) w = clk (snd w)"
  by (simp_all add: slog_runtime_def slog_log_def DefaultLogger_eq level_defs panic_line_def error_line_def group_key_def)

lemma safeCallHook_quietly:
  "safeCallHook (slog_runtime clk DefaultLogger) (\<lambda>w. quietly (h w) w) w =
     (fst w @ panic_line (fst (h w (snd w))), snd (h w (snd w)))"
  by (cases "fst (h w (snd w))")
    (simp_all add: safeCallHook_def quietly_def default_lines case_prod_unfold panic_line_def [of None])

text \<open>The lines from the end of the job on, when it has taken \<open>d\<close> and ended with \<open>err\<close>.\<close>

definition completion_lines ::
  "(int \<Rightarrow> string \<Rightarrow> int \<Rightarrow> 'b error option \<Rightarrow> ('w, 'b) hook) \<Rightarrow> ('w, 'b) ErrorFunc \<Rightarrow> 'j Entry \<Rightarrow> int \<Rightarrow>
    'b error option \<Rightarrow> 'w \<Rightarrow> 'b log_line list" where
  "completion_lines g h entry d err v =
     (let (p2, v3) = g (ID entry) (Name entry) d err v
      in panic_line p2 @
         (case err of
            None \<Rightarrow> []
          | Some e \<Rightarrow> error_line entry e # panic_line (fst (h (ID entry) (Name entry) e v3))))"

definition quiet_hooks ::
  "(int \<Rightarrow> string \<Rightarrow> ('w, 'b) hook) \<Rightarrow> (int \<Rightarrow> string \<Rightarrow> int \<Rightarrow> 'b error option \<Rightarrow> ('w, 'b) hook) \<Rightarrow>
    ('b log_line list \<times> 'w, 'b) EventHooks" where
  "quiet_hooks f g =
     \<lparr>OnJobStart = Some (\<lambda>i n. quietly (f i n)), OnJobComplete = Some (\<lambda>i n d e. quietly (g i n d e))\<rparr>"

lemma wrapped_lines [simp]:
  "error_line (entry\<lparr>wrappedJob := x\<rparr>) = error_line entry"
  "completion_lines g h (entry\<lparr>wrappedJob := x\<rparr>) = completion_lines g h entry"
  by (intro ext; simp add: error_line_def completion_lines_def split: prod.split option.split)+

lemma executeJob_lines:
  assumes "f (ID entry) (Name entry) w = (p1, v1)"
    and "wrappedJob entry ctx (out @ panic_line p1, v1) = (r, out', v2)"
  shows "fst (snd (executeJob (slog_runtime clk DefaultLogger) (quiet_hooks f g)
      (Some (\<lambda>i n e. quietly (h i n e))) ctx entry (out, w))) =
    (case r of
       Panicked x \<Rightarrow> out'
     | Returned err \<Rightarrow> out' @ completion_lines g h entry (clk v2 - clk v1) err v2)"
proof -
  let ?rt = "slog_runtime clk DefaultLogger"
  have s: "safeCallHook ?rt (call_if (Some k) c) w = safeCallHook ?rt (\<lambda>w. c k w) w" for k c w
    by (simp add: safeCallHook_def call_if_def)
  have start: "safeCallHook ?rt (call_if (OnJobStart (quiet_hooks f g)) (\<lambda>f. f (ID entry) (Name entry))) (out, w) =
      (out @ panic_line p1, v1)"
    using safeCallHook_quietly [of clk "\<lambda>_. f (ID entry) (Name entry)" "(out, w)"] assms(1)
    by (simp add: quiet_hooks_def s)
  show ?thesis
  proof (cases r)
    case (Panicked x)
    then show ?thesis using start assms(2) by (simp add: executeJob_def)
  next
    case (Returned err)
    obtain p2 v3 where g: "g (ID entry) (Name entry) (clk v2 - clk v1) err v2 = (p2, v3)" by fastforce
    have complete: "safeCallHook ?rt (\<lambda>w. call_if (OnJobComplete (quiet_hooks f g))
        (\<lambda>f. f (ID entry) (Name entry) (time_Now ?rt w - time_Now ?rt (out @ panic_line p1, v1)) err) w) (out', v2) =
        (out' @ panic_line p2, v3)"
      using safeCallHook_quietly [of clk "\<lambda>w. g (ID entry) (Name entry) (clk (snd w) - clk v1) err" "(out', v2)"] g
      by (simp add: quiet_hooks_def call_if_def default_lines)
    show ?thesis
    proof (cases err)
      case None
      then show ?thesis using start complete assms(2) Returned g
        by (simp add: executeJob_def completion_lines_def)
    next
      case (Some e)
      have "safeCallHook ?rt (call_if (Some (\<lambda>i n e. quietly (h i n e))) (\<lambda>f. f (ID entry) (Name entry) e))
          (out' @ panic_line p2 @ [error_line entry e], v3) =
          (out' @ panic_line p2 @ error_line entry e # panic_line (fst (h (ID entry) (Name entry) e v3)),
           snd (h (ID entry) (Name entry) e v3))"
        using safeCallHook_quietly [of clk "\<lambda>_. h (ID entry) (Name entry) e"
            "(out' @ panic_line p2 @ [error_line entry e], v3)"] by (simp add: s)
      then show ?thesis using start complete assms(2) Returned g Some
        by (simp add: executeJob_def completion_lines_def default_lines)
    qed
  qed
qed

definition recover_line :: "string \<Rightarrow> 'b error \<Rightarrow> 'b log_line" where
  "recover_line stack e =
     \<lparr>level = LevelError, message = ''panic'',
      attrs = [(''cron.err'', ErrorAttr e), (''cron.stack'', StringAttr (''...'' @ [CHR 0x0A] @ stack))]\<rparr>"

lemma slog_panic_default: "slog_panic stack DefaultLogger e w = (fst w @ [recover_line stack e], snd w)"
  by (simp add: slog_panic_def slog_log_def DefaultLogger_eq level_defs recover_line_def group_key_def)

text \<open>
  C17: with the default logger, and callbacks and a job that do not print themselves, the goroutine of a
  job writes one line at Warn for an error of the job and one at Error for each callback that panics,
  in the order in which they happen, and nothing else. Under \<open>Recover\<close> a panic of the job is such an
  error, after a line of its own at Error; without, the goroutine panics and writes no more.
\<close>

theorem job_lines:
  "let (p1, v1) = f (ID entry) (Name entry) w;
       (r, v2) = j ctx v1;
       ended = (\<lambda>err. completion_lines g h entry (clk v2 - clk v1) err v2);
       wrapped = (if recovers then Recover (slog_panic stack DefaultLogger) (quiet_job j) else quiet_job j);
       (p, finished, w') = job_goroutine (slog_runtime clk DefaultLogger) (quiet_hooks f g)
          (Some (\<lambda>i n e. quietly (h i n e))) ctx (entry\<lparr>wrappedJob := wrapped\<rparr>) k c (out, w)
   in fst w' = out @ panic_line p1 @
     (case r of
        Returned err \<Rightarrow> ended err
      | Panicked x \<Rightarrow>
          if recovers then recover_line stack (panic_error x) # ended (Some (panic_error x)) else [])"
proof -
  obtain p1 v1 where f: "f (ID entry) (Name entry) w = (p1, v1)" by fastforce
  obtain r v2 where j: "j ctx v1 = (r, v2)" by fastforce
  let ?job = "if recovers then Recover (slog_panic stack DefaultLogger) (quiet_job j) else quiet_job j"
  let ?entry = "entry\<lparr>wrappedJob := ?job\<rparr>"
  have job: "wrappedJob ?entry ctx (out @ panic_line p1, v1) =
      (case r of
         Returned err \<Rightarrow> (Returned err, out @ panic_line p1, v2)
       | Panicked x \<Rightarrow>
           if recovers then (Returned (Some (panic_error x)), out @ panic_line p1 @ [recover_line stack (panic_error x)], v2)
           else (Panicked x, out @ panic_line p1, v2))"
    by (simp add: Recover_def quiet_job_def j slog_panic_default split: outcome.split)
  have start: "f (ID ?entry) (Name ?entry) w = (p1, v1)" by (simp add: f)
  note run = executeJob_lines [where f = f and entry = ?entry and w = w and ctx = ctx and out = out
      and clk = clk and g = g and h = h, OF start]
  show ?thesis
  proof (cases r)
    case (Returned err)
    with job have "wrappedJob ?entry ctx (out @ panic_line p1, v1) = (Returned err, out @ panic_line p1, v2)" by simp
    from run [OF this] show ?thesis using f j Returned
      by (cases recovers) (simp_all add: job_goroutine_def case_prod_unfold Let_def)
  next
    case (Panicked x)
    show ?thesis
    proof (cases recovers)
      case True
      with job Panicked have "wrappedJob ?entry ctx (out @ panic_line p1, v1) =
          (Returned (Some (panic_error x)), out @ panic_line p1 @ [recover_line stack (panic_error x)], v2)" by simp
      from run [OF this] show ?thesis using f j Panicked True
        by (simp add: job_goroutine_def case_prod_unfold Let_def)
    next
      case False
      with job Panicked have "wrappedJob ?entry ctx (out @ panic_line p1, v1) = (Panicked x, out @ panic_line p1, v2)" by simp
      from run [OF this] show ?thesis using f j Panicked False
        by (simp add: job_goroutine_def case_prod_unfold Let_def)
    qed
  qed
qed

end
