(* ===== verification/Go_Strings.thy ===== *)
theory Go_Strings
  imports Cron_Prelude
begin

text \<open>
  The part of Go's packages \<open>strings\<close> and \<open>strconv\<close> the parser uses, on strings as
  sequences of bytes: \<open>Fields\<close>, \<open>FieldsFunc\<close> with a comma, \<open>Split\<close>, \<open>Join\<close>, \<open>HasPrefix\<close>,
  \<open>Index\<close>, \<open>ToLower\<close>, \<open>Atoi\<close> and \<open>FormatUint\<close> in base ten; with the lemmas on
  splitting what was joined and reading what was formatted.
\<close>

subsection \<open>Splitting and joining\<close>

text \<open>
  The white space of \<open>unicode.IsSpace\<close> in UTF-8. No other encoding contains one of these
  sequences, so a scan byte by byte finds the same spaces as one rune by rune.
\<close>

definition white_spaces :: "string list" where
  "white_spaces =
     [[CHR 0x20], [CHR 0x09], [CHR 0x0A], [CHR 0x0B], [CHR 0x0C], [CHR 0x0D],
      [CHR 0xC2, CHR 0x85], [CHR 0xC2, CHR 0xA0], [CHR 0xE1, CHR 0x9A, CHR 0x80],
      [CHR 0xE2, CHR 0x80, CHR 0x80], [CHR 0xE2, CHR 0x80, CHR 0x81], [CHR 0xE2, CHR 0x80, CHR 0x82],
      [CHR 0xE2, CHR 0x80, CHR 0x83], [CHR 0xE2, CHR 0x80, CHR 0x84], [CHR 0xE2, CHR 0x80, CHR 0x85],
      [CHR 0xE2, CHR 0x80, CHR 0x86], [CHR 0xE2, CHR 0x80, CHR 0x87], [CHR 0xE2, CHR 0x80, CHR 0x88],
      [CHR 0xE2, CHR 0x80, CHR 0x89], [CHR 0xE2, CHR 0x80, CHR 0x8A], [CHR 0xE2, CHR 0x80, CHR 0xA8],
      [CHR 0xE2, CHR 0x80, CHR 0xA9], [CHR 0xE2, CHR 0x80, CHR 0xAF], [CHR 0xE2, CHR 0x81, CHR 0x9F],
      [CHR 0xE3, CHR 0x80, CHR 0x80]]"

definition HasPrefix :: "string \<Rightarrow> string \<Rightarrow> bool" where
  "HasPrefix s p \<longleftrightarrow> take (length p) s = p"

definition space_width :: "string \<Rightarrow> nat" where
  "space_width s = (case List.find (HasPrefix s) white_spaces of None \<Rightarrow> 0 | Some p \<Rightarrow> length p)"

definition flush :: "string \<Rightarrow> string list" where
  "flush cur = (if cur = [] then [] else [cur])"

function Fields_loop :: "string \<Rightarrow> string \<Rightarrow> string list" where
  "Fields_loop cur [] = flush cur"
| "Fields_loop cur (c # s) =
     (if space_width (c # s) = 0 then Fields_loop (cur @ [c]) s
      else flush cur @ Fields_loop [] (drop (space_width (c # s)) (c # s)))"
  by pat_completeness auto
termination by (relation "measure (\<lambda>(cur, s). length s)") auto

definition Fields :: "string \<Rightarrow> string list" where
  "Fields s = Fields_loop [] s"

fun split_on :: "char \<Rightarrow> string \<Rightarrow> string list" where
  "split_on sep [] = [[]]"
| "split_on sep (c # s) =
     (if c = sep then [] # split_on sep s
      else (case split_on sep s of [] \<Rightarrow> [[c]] | x # xs \<Rightarrow> (c # x) # xs))"

definition FieldsFunc_comma :: "string \<Rightarrow> string list" where
  "FieldsFunc_comma s = filter (\<lambda>x. x \<noteq> []) (split_on (CHR '','') s)"

fun Join :: "string list \<Rightarrow> string \<Rightarrow> string" where
  "Join [] sep = []"
| "Join [x] sep = x"
| "Join (x # y # xs) sep = x @ sep @ Join (y # xs) sep"

text \<open>\<open>Index s c\<close> is \<open>- 1\<close> where \<open>c\<close> does not occur.\<close>

primrec Index :: "string \<Rightarrow> char \<Rightarrow> int" where
  "Index [] c = - 1"
| "Index (x # xs) c = (if x = c then 0 else let i = Index xs c in if i < 0 then - 1 else i + 1)"

text \<open>
  Only two runes outside ASCII have an ASCII lower case: \<open>U+0130\<close> (\<open>i\<close>) and \<open>U+212A\<close> (\<open>k\<close>).
  The others are left as they are: the parser compares the result with ASCII names only.
\<close>

definition lower_char :: "char \<Rightarrow> char" where
  "lower_char c =
     (if 65 \<le> (of_char c :: int) \<and> (of_char c :: int) \<le> 90 then char_of (of_char c + 32 :: int) else c)"

fun ToLower :: "string \<Rightarrow> string" where
  "ToLower [] = []"
| "ToLower (c # s) =
     (if HasPrefix (c # s) [CHR 0xC4, CHR 0xB0] then CHR ''i'' # ToLower (drop 1 s)
      else if HasPrefix (c # s) [CHR 0xE2, CHR 0x84, CHR 0xAA] then CHR ''k'' # ToLower (drop 2 s)
      else lower_char c # ToLower s)"

subsection \<open>Numbers\<close>

datatype num_error = ErrSyntax | ErrRange

definition is_digit :: "char \<Rightarrow> bool" where
  "is_digit c \<longleftrightarrow> 48 \<le> (of_char c :: int) \<and> (of_char c :: int) \<le> 57"

definition digit_value :: "char \<Rightarrow> int" where
  "digit_value c = of_char c - 48"

primrec ParseUint_loop :: "int \<Rightarrow> string \<Rightarrow> (num_error, int) go" where
  "ParseUint_loop n [] = Ret n"
| "ParseUint_loop n (c # s) =
     (if \<not> is_digit c then Err ErrSyntax
      else let n' = n * 10 + digit_value c
           in if 2 ^ 64 \<le> n' then Err ErrRange else ParseUint_loop n' s)"

definition sign_of :: "string \<Rightarrow> bool \<times> string" where
  "sign_of s =
     (case s of
        [] \<Rightarrow> (False, [])
      | c # r \<Rightarrow> if c = CHR ''-'' then (True, r) else if c = CHR ''+'' then (False, r) else (False, s))"

definition Atoi :: "string \<Rightarrow> (num_error, int) go" where
  "Atoi s =
     (let (neg, digits) = sign_of s
      in if digits = [] then Err ErrSyntax
         else and_then (ParseUint_loop 0 digits) (\<lambda>n.
           if neg then (if 2 ^ 63 < n then Err ErrRange else Ret (- n))
           else (if 2 ^ 63 \<le> n then Err ErrRange else Ret n)))"

definition digit_char :: "int \<Rightarrow> char" where
  "digit_char d = char_of (48 + d)"

function FormatUint :: "int \<Rightarrow> string" where
  "FormatUint n =
     (if n < 10 then [digit_char n] else FormatUint (n div 10) @ [digit_char (n mod 10)])"
  by pat_completeness auto
termination by (relation "measure nat") auto

declare FormatUint.simps [simp del]

subsection \<open>Splitting what was joined\<close>

lemma split_on_neq_Nil [simp]: "split_on sep s \<noteq> []"
  by (induction sep s rule: split_on.induct) (auto split: list.splits)

lemma split_on_plain [simp]: "sep \<notin> set s \<Longrightarrow> split_on sep s = [s]"
  by (induction sep s rule: split_on.induct) auto

lemma split_on_append [simp]:
  "sep \<notin> set x \<Longrightarrow> split_on sep (x @ sep # s) = x # split_on sep s"
  by (induction x) auto

lemma split_on_sound: "x \<in> set (split_on sep s) \<Longrightarrow> sep \<notin> set x"
  by (induction sep s arbitrary: x rule: split_on.induct) (auto split: list.splits if_splits)

lemma split_on_Join:
  "xs \<noteq> [] \<Longrightarrow> (\<And>x. x \<in> set xs \<Longrightarrow> sep \<notin> set x) \<Longrightarrow> split_on sep (Join xs [sep]) = xs"
  by (induction xs "[sep]" rule: Join.induct) auto

lemma FieldsFunc_comma_Join:
  assumes "\<And>x. x \<in> set xs \<Longrightarrow> CHR '','' \<notin> set x \<and> x \<noteq> []"
  shows "FieldsFunc_comma (Join xs '','') = xs"
proof (cases "xs = []")
  case False
  with assms show ?thesis
    by (simp add: FieldsFunc_comma_def split_on_Join filter_id_conv)
qed (simp add: FieldsFunc_comma_def)

lemma set_Join: "set (Join xs sep) \<subseteq> (\<Union>x \<in> set xs. set x) \<union> set sep"
  by (induction xs sep rule: Join.induct) auto

lemma Join_neq_Nil: "xs \<noteq> [] \<Longrightarrow> (\<And>x. x \<in> set xs \<Longrightarrow> x \<noteq> []) \<Longrightarrow> Join xs sep \<noteq> []"
  by (cases "(xs, sep)" rule: Join.cases) auto

subsection \<open>Fields of a joined line\<close>

text \<open>A plain byte begins no white space.\<close>

definition plain_char :: "char \<Rightarrow> bool" where
  "plain_char c \<longleftrightarrow> c \<notin> set (map hd white_spaces)"

lemma space_width_plain: "plain_char c \<Longrightarrow> space_width (c # s) = 0"
  by (auto simp: plain_char_def space_width_def find_None_iff HasPrefix_def white_spaces_def
      split: option.splits)

lemma space_width_blank: "space_width (CHR '' '' # s) = 1"
  by (simp add: space_width_def HasPrefix_def white_spaces_def)

lemma Fields_loop_plain:
  "(\<And>c. c \<in> set x \<Longrightarrow> plain_char c) \<Longrightarrow> Fields_loop cur (x @ s) = Fields_loop (cur @ x) s"
  by (induction x arbitrary: cur) (auto simp: space_width_plain)

lemma Fields_Join:
  assumes "\<And>x. x \<in> set xs \<Longrightarrow> x \<noteq> [] \<and> (\<forall>c \<in> set x. plain_char c)"
  shows "Fields (Join xs '' '') = xs"
  using assms unfolding Fields_def
proof (induction xs "'' ''" rule: Join.induct)
  case (2 x)
  then show ?case using Fields_loop_plain [of x "[]" "[]"] by (simp add: flush_def)
next
  case (3 x y xs)
  have "Fields_loop [] (Join (x # y # xs) '' '') = Fields_loop x (CHR '' '' # Join (y # xs) '' '')"
    using 3(2) [of x] Fields_loop_plain [of x "[]" "CHR '' '' # Join (y # xs) '' ''"] by simp
  also have "\<dots> = x # Fields_loop [] (Join (y # xs) '' '')"
    using 3(2) [of x] by (simp add: space_width_blank flush_def)
  also have "Fields_loop [] (Join (y # xs) '' '') = y # xs" using 3 by force
  finally show ?case .
qed (simp add: flush_def)

subsection \<open>Reading what was formatted\<close>

lemma digit_char_values:
  assumes "0 \<le> d" "d < 10"
  shows "(of_char (digit_char d) :: int) = 48 + d"
  using assms by (simp add: digit_char_def)

lemma digit_char_digit:
  "0 \<le> d \<Longrightarrow> d < 10 \<Longrightarrow> is_digit (digit_char d) \<and> digit_value (digit_char d) = d"
  by (simp add: is_digit_def digit_value_def digit_char_values)

lemma FormatUint_neq_Nil [simp]: "FormatUint n \<noteq> []"
  by (subst FormatUint.simps) simp

lemma FormatUint_digits: "0 \<le> n \<Longrightarrow> c \<in> set (FormatUint n) \<Longrightarrow> is_digit c"
proof (induction n rule: FormatUint.induct)
  case (1 n)
  from 1(3) show ?case
    using 1(1,2) by (subst (asm) FormatUint.simps) (auto simp: digit_char_digit split: if_splits)
qed

lemma ParseUint_loop_append:
  "ParseUint_loop n (s @ r) = and_then (ParseUint_loop n s) (\<lambda>m. ParseUint_loop m r)"
  by (induction s arbitrary: n) (simp_all add: Let_def)

lemma ParseUint_loop_FormatUint:
  "0 \<le> n \<Longrightarrow> n < 2 ^ 64 \<Longrightarrow> ParseUint_loop 0 (FormatUint n) = Ret n"
proof (induction n rule: FormatUint.induct)
  case (1 n)
  show ?case
  proof (cases "n < 10")
    case True
    with 1(2) show ?thesis by (subst FormatUint.simps) (simp add: digit_char_digit)
  next
    case False
    have "0 \<le> n div 10" "n div 10 < 2 ^ 64" using 1(2,3) by (simp_all add: pos_imp_zdiv_nonneg_iff)
    moreover have "n div 10 * 10 + n mod 10 = n" by simp
    ultimately show ?thesis
      using 1(1) [OF False] 1(3) False
      by (subst FormatUint.simps) (simp add: ParseUint_loop_append digit_char_digit)
  qed
qed

lemma digit_not_sign: "is_digit c \<Longrightarrow> c \<noteq> CHR ''-'' \<and> c \<noteq> CHR ''+''"
  by (auto simp: is_digit_def)

lemma Atoi_FormatUint:
  assumes "0 \<le> n" "n < 2 ^ 63"
  shows "Atoi (FormatUint n) = Ret n"
proof -
  obtain c s where cs: "FormatUint n = c # s" by (cases "FormatUint n") auto
  then have "c \<noteq> CHR ''-'' \<and> c \<noteq> CHR ''+''"
    using FormatUint_digits [OF assms(1), of c] digit_not_sign by simp
  then have "sign_of (FormatUint n) = (False, FormatUint n)" by (simp add: sign_of_def cs)
  then show ?thesis
    using assms ParseUint_loop_FormatUint [of n] by (simp add: Atoi_def)
qed

lemma digit_value_nonneg: "is_digit c \<Longrightarrow> 0 \<le> digit_value c"
  by (simp add: is_digit_def digit_value_def)

lemma ParseUint_loop_nonneg: "0 \<le> n \<Longrightarrow> ParseUint_loop n s = Ret m \<Longrightarrow> 0 \<le> m"
proof (induction s arbitrary: n)
  case (Cons c s)
  then have "is_digit c" "ParseUint_loop (n * 10 + digit_value c) s = Ret m"
    by (auto simp: Let_def split: if_splits)
  then show ?case using Cons.IH [of "n * 10 + digit_value c"] Cons.prems(1) digit_value_nonneg by simp
qed simp

lemma ParseUint_loop_completes: "completes (ParseUint_loop n s)"
  by (induction s arbitrary: n) (simp_all add: Let_def)

lemma Atoi_completes: "completes (Atoi s)"
  by (simp add: Atoi_def completes_and_then_iff ParseUint_loop_completes split: prod.splits)

lemma Atoi_range: "Atoi s = Ret n \<Longrightarrow> - (2 ^ 63) \<le> n \<and> n < 2 ^ 63"
  using ParseUint_loop_nonneg [of 0 "snd (sign_of s)"]
  by (auto simp: Atoi_def and_then_eq_Ret split: prod.splits if_splits)

lemma lower_char_digit: "is_digit c \<Longrightarrow> lower_char c = c"
  by (simp add: lower_char_def is_digit_def)

lemma ToLower_digits: "(\<And>c. c \<in> set s \<Longrightarrow> is_digit c) \<Longrightarrow> ToLower s = s"
proof (induction s rule: ToLower.induct)
  case (2 c s)
  then have "is_digit c" by simp
  then have "c \<noteq> CHR 0xC4" "c \<noteq> CHR 0xE2" by (auto simp: is_digit_def)
  with 2 show ?case by (simp add: HasPrefix_def lower_char_digit)
qed simp

end
