(* ===== verification/Go_Duration.thy ===== *)
theory Go_Duration
  imports Go_Strings
begin

text \<open>
  \<open>time.ParseDuration\<close>, which \<open>@every\<close> descriptors use. Integers before and after the decimal
  point are kept exactly; a fraction is scaled to nanoseconds in double precision, which
  \<open>round_float\<close> computes on fractions of integers (round to nearest, ties to even). The lemmas
  say that it comes back for every string and that it reads a whole number of a unit exactly.
\<close>

datatype duration_error = InvalidDuration | MissingUnit | UnknownUnit string

subsection \<open>Double precision\<close>

function bit_length :: "int \<Rightarrow> nat" where
  "bit_length n = (if n \<le> 0 then 0 else Suc (bit_length (n div 2)))"
  by pat_completeness auto
termination by (relation "measure nat") auto

declare bit_length.simps [simp del]

definition round_half_even :: "int \<Rightarrow> int \<Rightarrow> int" where
  "round_half_even p q =
     (let k = p div q; r = p mod q in if 2 * r < q \<or> (2 * r = q \<and> even k) then k else k + 1)"

text \<open>\<open>round_float (p, q)\<close> is the double nearest to \<open>p / q\<close>, as a fraction; \<open>p\<close> and \<open>q\<close> are positive.\<close>

definition round_float :: "int \<times> int \<Rightarrow> int \<times> int" where
  "round_float f =
     (let (p, q) = f;
          e = 53 - int (bit_length p) + int (bit_length q);
          scaled = (\<lambda>e. if 0 \<le> e then (p * 2 ^ nat e, q) else (p, q * 2 ^ nat (- e)));
          (p0, q0) = scaled e;
          e' = (if q0 * 2 ^ 53 \<le> p0 then e - 1 else e);
          (p1, q1) = scaled e';
          m = round_half_even p1 q1
      in if 0 \<le> e' then (m, 2 ^ nat e') else (m * 2 ^ nat (- e'), 1))"

definition float_mul :: "int \<times> int \<Rightarrow> int \<times> int \<Rightarrow> int \<times> int" where
  "float_mul x y = round_float (fst x * fst y, snd x * snd y)"

text \<open>\<open>uint64(float64(f) * (float64(unit) / scale))\<close>\<close>

definition fraction_nanos :: "int \<Rightarrow> int \<Rightarrow> int \<Rightarrow> int" where
  "fraction_nanos f unit scale =
     (let x = float_mul (round_float (f, 1)) (round_float (unit, scale)) in fst x div snd x)"

subsection \<open>Scanning\<close>

primrec leadingInt :: "int \<Rightarrow> string \<Rightarrow> (int \<times> string) option" where
  "leadingInt x [] = Some (x, [])"
| "leadingInt x (c # s) =
     (if \<not> is_digit c then Some (x, c # s)
      else if 2 ^ 63 div 10 < x then None
      else let x' = x * 10 + digit_value c in if 2 ^ 63 < x' then None else leadingInt x' s)"

primrec leadingFraction :: "int \<Rightarrow> int \<Rightarrow> bool \<Rightarrow> string \<Rightarrow> int \<times> int \<times> string" where
  "leadingFraction x scale overflow [] = (x, scale, [])"
| "leadingFraction x scale overflow (c # s) =
     (if \<not> is_digit c then (x, scale, c # s)
      else if overflow \<or> (2 ^ 63 - 1) div 10 < x then leadingFraction x scale True s
      else let y = x * 10 + digit_value c
           in if 2 ^ 63 < y then leadingFraction x scale True s
              else leadingFraction y (scale * 10) False s)"

definition unit_nanos :: "string \<Rightarrow> int option" where
  "unit_nanos = map_of
     [(''ns'', 1), (''us'', 1000), ([CHR 0xC2, CHR 0xB5, CHR ''s''], 1000),
      ([CHR 0xCE, CHR 0xBC, CHR ''s''], 1000), (''ms'', 1000000), (''s'', 1000000000),
      (''m'', 60000000000), (''h'', 3600000000000)]"

definition unit_char :: "char \<Rightarrow> bool" where
  "unit_char c \<longleftrightarrow> c \<noteq> CHR ''.'' \<and> \<not> is_digit c"

text \<open>The fraction after a decimal point: its digits, its scale, whether there were any.\<close>

definition read_fraction :: "string \<Rightarrow> int \<times> int \<times> bool \<times> string" where
  "read_fraction s =
     (case s of
        [] \<Rightarrow> (0, 1, False, s)
      | c # r \<Rightarrow>
          if c = CHR ''.'' then
            (let (f, scale, r') = leadingFraction 0 1 False r in (f, scale, length r' \<noteq> length r, r'))
          else (0, 1, False, s))"

text \<open>One number with its unit, in nanoseconds, and what follows it.\<close>

definition duration_part :: "string \<Rightarrow> (duration_error, int \<times> string) go" where
  "duration_part s =
     (if s = [] \<or> unit_char (hd s) then Err InvalidDuration
      else case leadingInt 0 s of
        None \<Rightarrow> Err InvalidDuration
      | Some (v, r) \<Rightarrow>
          let pre = (length r \<noteq> length s);
              (f, scale, post, r') = read_fraction r
          in if \<not> pre \<and> \<not> post then Err InvalidDuration
             else let u = takeWhile unit_char r'; rest = dropWhile unit_char r'
                  in if u = [] then Err MissingUnit
                     else case unit_nanos u of
                       None \<Rightarrow> Err (UnknownUnit u)
                     | Some unit \<Rightarrow>
                         if 2 ^ 63 div unit < v then Err InvalidDuration
                         else let v' = v * unit + (if 0 < f then fraction_nanos f unit scale else 0)
                              in if 0 < f \<and> 2 ^ 63 < v' then Err InvalidDuration
                                 else Ret (v', rest))"

lemma leadingInt_length: "leadingInt x s = Some (v, r) \<Longrightarrow> length r \<le> length s"
  by (induction s arbitrary: x) (auto simp: Let_def le_Suc_eq split: if_splits)

lemma leadingFraction_length: "leadingFraction x c b s = (y, d, r) \<Longrightarrow> length r \<le> length s"
  by (induction s arbitrary: x c b) (auto simp: Let_def le_Suc_eq split: if_splits)

lemma read_fraction_length: "read_fraction s = (f, c, b, r) \<Longrightarrow> length r \<le> length s"
  by (auto simp: read_fraction_def le_Suc_eq dest: leadingFraction_length
      split: list.splits if_splits prod.splits)

lemma dropWhile_shorter: "takeWhile P r \<noteq> [] \<Longrightarrow> length (dropWhile P r) < length r"
  by (cases r) (auto simp: length_dropWhile_le le_imp_less_Suc split: if_splits)

lemma duration_part_shorter: "duration_part s = Ret (v, r) \<Longrightarrow> length r < length s"
  by (auto simp: duration_part_def Let_def split: if_splits option.splits prod.splits
      dest!: leadingInt_length read_fraction_length dropWhile_shorter)

function ParseDuration_loop :: "int \<Rightarrow> string \<Rightarrow> (duration_error, int) go" where
  "ParseDuration_loop d s =
     (if s = [] then Ret d
      else case duration_part s of
        Ret (v, r) \<Rightarrow>
          let d' = (d + v) mod 2 ^ 64
          in if 2 ^ 63 < d' then Err InvalidDuration else ParseDuration_loop d' r
      | Err e \<Rightarrow> Err e
      | Panic p \<Rightarrow> Panic p
      | Diverge \<Rightarrow> Diverge)"
  by pat_completeness auto
termination
  by (relation "measure (\<lambda>(d, s). length s)") (auto dest: duration_part_shorter)

declare ParseDuration_loop.simps [simp del]

definition ParseDuration :: "string \<Rightarrow> (duration_error, int) go" where
  "ParseDuration s =
     (let (neg, r) = sign_of s
      in if r = ''0'' then Ret 0
         else if r = [] then Err InvalidDuration
         else and_then (ParseDuration_loop 0 r) (\<lambda>d.
           if neg then Ret (i64 (- d))
           else if 2 ^ 63 - 1 < d then Err InvalidDuration else Ret d))"

subsection \<open>It comes back\<close>

lemma duration_part_completes: "completes (duration_part s)"
  by (auto simp: duration_part_def Let_def split: option.splits prod.splits)

lemma ParseDuration_loop_completes: "completes (ParseDuration_loop d s)"
proof (induction d s rule: ParseDuration_loop.induct)
  case (1 d s)
  have "completes (duration_part s)" by (rule duration_part_completes)
  with 1 show ?case
    by (subst ParseDuration_loop.simps) (auto simp: Let_def split: go.splits)
qed

lemma ParseDuration_completes: "completes (ParseDuration s)"
  by (auto simp: ParseDuration_def Let_def completes_and_then_iff ParseDuration_loop_completes
      split: prod.splits)

subsection \<open>Whole numbers of a unit\<close>

lemma leadingInt_append:
  "(\<And>c. c \<in> set s \<Longrightarrow> is_digit c) \<Longrightarrow>
   leadingInt x (s @ r) =
     (case leadingInt x s of None \<Rightarrow> None | Some (y, z) \<Rightarrow> leadingInt y r)"
  by (induction s arbitrary: x) (simp_all add: Let_def)

lemma leadingInt_stop: "r = [] \<or> \<not> is_digit (hd r) \<Longrightarrow> leadingInt x r = Some (x, r)"
  by (cases r) auto

lemma leadingInt_FormatUint:
  "0 \<le> n \<Longrightarrow> n \<le> 2 ^ 63 \<Longrightarrow> leadingInt 0 (FormatUint n) = Some (n, [])"
proof (induction n rule: FormatUint.induct)
  case (1 n)
  show ?case
  proof (cases "n < 10")
    case True
    with 1(2) show ?thesis by (subst FormatUint.simps) (simp add: digit_char_digit)
  next
    case False
    have d: "0 \<le> n div 10" "n div 10 \<le> 2 ^ 63 div 10" "n div 10 \<le> 2 ^ 63"
      using 1(2,3) zdiv_mono1 [of n "2 ^ 63" 10] by (simp_all add: pos_imp_zdiv_nonneg_iff)
    have "n div 10 * 10 + n mod 10 = n" by simp
    then show ?thesis
      using 1(1) [OF False] 1(3) False d FormatUint_digits [OF d(1)]
      by (subst FormatUint.simps) (simp add: leadingInt_append digit_char_digit)
  qed
qed

lemma leadingInt_number:
  assumes "0 \<le> n" "n \<le> 2 ^ 63" "r = [] \<or> \<not> is_digit (hd r)"
  shows "leadingInt 0 (FormatUint n @ r) = Some (n, r)"
  using FormatUint_digits [OF assms(1)]
  by (simp add: leadingInt_append leadingInt_FormatUint [OF assms(1,2)] leadingInt_stop [OF assms(3)])

lemma is_digit_hd_FormatUint: "0 \<le> n \<Longrightarrow> is_digit (hd (FormatUint n @ s))"
  using FormatUint_digits [of n "hd (FormatUint n)"] by simp

lemma duration_part_number:
  assumes n: "0 \<le> n" "n * k < 2 ^ 63" and u: "unit_nanos u = Some k" "0 < k"
    "u \<noteq> []" "\<And>c. c \<in> set u \<Longrightarrow> unit_char c"
  shows "duration_part (FormatUint n @ u) = Ret (n * k, [])"
proof -
  have k: "n \<le> 2 ^ 63 div k"
    using zdiv_mono1 [of "n * k" "2 ^ 63" k] n u(2) by simp
  also have "2 ^ 63 div k \<le> (2 ^ 63 :: int) div 1"
    using u(2) by (intro zdiv_mono2) simp_all
  finally have b: "n \<le> 2 ^ 63" by simp
  have hd: "unit_char (hd u)" using u(3,4) by (cases u) auto
  then have "leadingInt 0 (FormatUint n @ u) = Some (n, u)"
    by (intro leadingInt_number n(1) b) (simp add: unit_char_def)
  moreover have "read_fraction u = (0, 1, False, u)"
    using hd u(3) by (cases u) (auto simp: read_fraction_def unit_char_def)
  moreover have tw: "takeWhile unit_char u = u" "dropWhile unit_char u = []"
    using u(4) by (simp_all add: takeWhile_eq_all_conv)
  moreover have "\<not> unit_char (hd (FormatUint n @ u))"
    using is_digit_hd_FormatUint [OF n(1)] by (simp add: unit_char_def)
  ultimately show ?thesis
    using k u(1,3) by (simp add: duration_part_def Let_def not_less tw del: takeWhile_eq_all_conv)
qed

lemma ParseDuration_number:
  assumes n: "0 \<le> n" "n * k < 2 ^ 63" and u: "unit_nanos u = Some k" "0 < k"
    "u \<noteq> []" "\<And>c. c \<in> set u \<Longrightarrow> unit_char c"
  shows "ParseDuration (FormatUint n @ u) = Ret (n * k)"
proof -
  obtain c s where cs: "FormatUint n = c # s" by (cases "FormatUint n") auto
  then have "c \<noteq> CHR ''-''" "c \<noteq> CHR ''+''"
    using FormatUint_digits [OF n(1), of c] digit_not_sign by simp_all
  then have sign: "sign_of (FormatUint n @ u) = (False, FormatUint n @ u)"
    by (simp add: sign_of_def cs)
  have "FormatUint n @ u \<noteq> ''0''" using u(3) by (cases u) (auto simp: cs)
  moreover have "0 \<le> n * k" using n(1) u(2) by simp
  moreover have "duration_part (FormatUint n @ u) = Ret (n * k, [])"
    by (rule duration_part_number [OF n u])
  ultimately show ?thesis
    using n(2) by (simp add: ParseDuration_def sign ParseDuration_loop.simps [of 0 "FormatUint n @ u"]
        ParseDuration_loop.simps [of _ "[]"])
qed

end
