(* ===== verification/Parser.thy ===== *)
theory Parser
  imports Schedules Go_Duration
begin

text \<open>
  parser.go: \<open>ParseOption\<close> and \<open>NewSpecParser\<close>, the field parser (\<open>getField\<close>, \<open>getRange\<close> and
  their helpers), the normalisation of the field list, descriptors, and \<open>Parse\<close>. Errors are the
  constructors of \<open>cron_error\<close>, with the values the message shows. A slice that is indexed out
  of range panics, as in Go.
\<close>

datatype cron_error =
    EmptySpec
  | DescriptorNotAllowed string
  | MultipleOptionalFields
  | FieldCountNot nat nat "string list"
  | FieldCountOutside int nat nat "string list"
  | UnknownOptional
  | TooManySlashes string
  | TooManyHyphens string
  | RangeBelowMinimum u64 u64 string
  | RangeAboveMaximum u64 u64 string
  | RangeStartBeyondEnd u64 u64 string
  | RangeStepNotPositive string
  | NegativeNumber int string
  | BadInt string num_error
  | UnrecognizedDescriptor string
  | MissingLocationName string
  | MissingLocationSpec string
  | BadLocation string
  | BadDuration string duration_error
  | NonPositiveInterval string

type_synonym 'a parsed = "(cron_error, 'a) go"

subsection \<open>Options\<close>

type_synonym ParseOption = int

definition Second :: ParseOption where "Second = 1"
definition SecondOptional :: ParseOption where "SecondOptional = 2"
definition Minute :: ParseOption where "Minute = 4"
definition Hour :: ParseOption where "Hour = 8"
definition Dom :: ParseOption where "Dom = 16"
definition Month :: ParseOption where "Month = 32"
definition Dow :: ParseOption where "Dow = 64"
definition DowOptional :: ParseOption where "DowOptional = 128"
definition Descriptor :: ParseOption where "Descriptor = 256"

lemmas option_defs = Second_def SecondOptional_def Minute_def Hour_def Dom_def Month_def Dow_def
  DowOptional_def Descriptor_def

definition places :: "ParseOption list" where
  "places = [Second, Minute, Hour, Dom, Month, Dow]"

definition defaults :: "string list" where
  "defaults = [''0'', ''0'', ''0'', ''*'', ''*'', ''*'']"

record SpecParser =
  p_options :: ParseOption

definition NewSpecParser :: "ParseOption \<Rightarrow> SpecParser call" where
  "NewSpecParser options =
     (let optionals = (if options AND DowOptional > 0 then 1 else 0) +
                      (if options AND SecondOptional > 0 then 1 else (0 :: nat))
      in if optionals > 1 then Panic MultipleOptionals else Ret \<lparr>p_options = options\<rparr>)"

definition NewStandardParser :: "SpecParser call" where
  "NewStandardParser = NewSpecParser (Minute OR Hour OR Dom OR Month OR Dow OR Descriptor)"

subsection \<open>One range\<close>

record stepParseResult =
  rangeExpr :: string
  step :: u64
  hasStep :: bool

record rangeBits =
  start :: u64
  end_of :: u64
  extra :: u64

definition mustParseInt :: "string \<Rightarrow> u64 parsed" where
  "mustParseInt expr =
     (case Atoi expr of
        Ret num \<Rightarrow> if num < 0 then Err (NegativeNumber num expr) else Ret (word_of_int num)
      | Err e \<Rightarrow> Err (BadInt expr e)
      | Panic p \<Rightarrow> Panic p
      | Diverge \<Rightarrow> Diverge)"

definition parseIntOrName :: "string \<Rightarrow> (string \<times> u64) list option \<Rightarrow> u64 parsed" where
  "parseIntOrName expr names =
     (case names of
        None \<Rightarrow> mustParseInt expr
      | Some m \<Rightarrow>
          (case map_of m (ToLower expr) of
             Some namedInt \<Rightarrow> Ret namedInt
           | None \<Rightarrow> mustParseInt expr))"

definition parseStep :: "string \<Rightarrow> stepParseResult parsed" where
  "parseStep expr =
     (case split_on (CHR ''/'') expr of
        [e] \<Rightarrow> Ret \<lparr>rangeExpr = e, step = 1, hasStep = False\<rparr>
      | [e, s] \<Rightarrow>
          and_then (mustParseInt s) (\<lambda>n. Ret \<lparr>rangeExpr = e, step = n, hasStep = True\<rparr>)
      | _ \<Rightarrow> Err (TooManySlashes expr))"

definition parseRangeExpr :: "string \<Rightarrow> bounds \<Rightarrow> string \<Rightarrow> (rangeBits \<times> bool) parsed" where
  "parseRangeExpr rexpr r originalExpr =
     (let lowAndHigh = split_on (CHR ''-'') rexpr;
          singleValue = (length lowAndHigh = 1)
      in if hd lowAndHigh = ''*'' \<or> hd lowAndHigh = ''?'' then
           Ret (\<lparr>start = bmin r, end_of = bmax r, extra = starBit\<rparr>, singleValue)
         else and_then (parseIntOrName (hd lowAndHigh) (bnames r)) (\<lambda>low.
           case lowAndHigh of
             [_] \<Rightarrow> Ret (\<lparr>start = low, end_of = low, extra = 0\<rparr>, True)
           | [_, h] \<Rightarrow>
               and_then (parseIntOrName h (bnames r)) (\<lambda>high.
                 Ret (\<lparr>start = low, end_of = high, extra = 0\<rparr>, False))
           | _ \<Rightarrow> Err (TooManyHyphens originalExpr)))"

definition validateRange :: "rangeBits \<Rightarrow> u64 \<Rightarrow> bounds \<Rightarrow> string \<Rightarrow> unit parsed" where
  "validateRange p n r expr =
     (if start p < bmin r then Err (RangeBelowMinimum (start p) (bmin r) expr)
      else if end_of p > bmax r then Err (RangeAboveMaximum (end_of p) (bmax r) expr)
      else if start p > end_of p then Err (RangeStartBeyondEnd (start p) (end_of p) expr)
      else if n = 0 then Err (RangeStepNotPositive expr)
      else Ret ())"

definition getRange :: "string \<Rightarrow> bounds \<Rightarrow> u64 parsed" where
  "getRange expr r =
     and_then (parseStep expr) (\<lambda>stepResult.
     and_then (parseRangeExpr (rangeExpr stepResult) r expr) (\<lambda>(p, singleValue).
       let p1 = (if hasStep stepResult \<and> singleValue then p\<lparr>end_of := bmax r\<rparr> else p);
           p2 = (if hasStep stepResult \<and> step stepResult > 1 then p1\<lparr>extra := 0\<rparr> else p1)
       in and_then (validateRange p2 (step stepResult) r expr) (\<lambda>_.
          and_then (loop_result (getBits (start p2) (end_of p2) (step stepResult))) (\<lambda>bits.
            Ret (bits OR extra p2)))))"

text \<open>The loop of \<open>getField\<close> over the comma-separated ranges.\<close>

primrec getField_loop :: "bounds \<Rightarrow> string list \<Rightarrow> u64 \<Rightarrow> u64 parsed" where
  "getField_loop r [] bits = Ret bits"
| "getField_loop r (expr # ranges) bits =
     and_then (getRange expr r) (\<lambda>b. getField_loop r ranges (bits OR b))"

definition getField :: "string \<Rightarrow> bounds \<Rightarrow> u64 parsed" where
  "getField field r = getField_loop r (FieldsFunc_comma field) 0"

subsection \<open>The list of fields\<close>

definition normalizeOptions :: "ParseOption \<Rightarrow> (ParseOption \<times> nat) parsed" where
  "normalizeOptions options =
     (let (o1, n1) = (if options AND SecondOptional > 0 then (options OR Second, 1) else (options, 0));
          (o2, n2) = (if o1 AND DowOptional > 0 then (o1 OR Dow, n1 + 1) else (o1, n1))
      in if n2 > 1 then Err MultipleOptionalFields else Ret (o2, n2))"

text \<open>The bounds are a Go \<open>struct\<close> of two \<open>int\<close>s, here the pair of \<open>min\<close> and \<open>max\<close>.\<close>

definition fieldCountBounds :: "ParseOption \<Rightarrow> nat \<Rightarrow> int \<times> nat" where
  "fieldCountBounds options optionalCount =
     (let maxFields = length (filter (\<lambda>place. options AND place > 0) places)
      in (int maxFields - int optionalCount, maxFields))"

definition validateFieldCount :: "string list \<Rightarrow> int \<Rightarrow> nat \<Rightarrow> unit parsed" where
  "validateFieldCount flds minFields maxFields =
     (let count = length flds
      in if minFields \<le> int count \<and> count \<le> maxFields then Ret ()
         else if minFields = int maxFields then Err (FieldCountNot maxFields count flds)
         else Err (FieldCountOutside minFields maxFields count flds))"

definition populateOptionalField ::
  "string list \<Rightarrow> ParseOption \<Rightarrow> int \<Rightarrow> nat \<Rightarrow> string list parsed" where
  "populateOptionalField flds options minFields maxFields =
     (if minFields = int maxFields \<or> int (length flds) \<noteq> minFields then Ret flds
      else if options AND DowOptional > 0 then Ret (flds @ [defaults ! 5])
      else if options AND SecondOptional > 0 then Ret ([defaults ! 0] @ flds)
      else Err UnknownOptional)"

definition index :: "'a list \<Rightarrow> nat \<Rightarrow> ('e, 'a) go" where
  "index xs i = (if i < length xs then Ret (xs ! i) else Panic IndexOutOfRange)"

primrec expand_loop ::
  "ParseOption \<Rightarrow> string list \<Rightarrow> (ParseOption \<times> string) list \<Rightarrow> nat \<Rightarrow> string list parsed" where
  "expand_loop options flds [] fieldIndex = Ret []"
| "expand_loop options flds (pd # ps) fieldIndex =
     (if options AND fst pd > 0 then
        and_then (index flds fieldIndex) (\<lambda>f.
        and_then (expand_loop options flds ps (fieldIndex + 1)) (\<lambda>fs. Ret (f # fs)))
      else and_then (expand_loop options flds ps fieldIndex) (\<lambda>fs. Ret (snd pd # fs)))"

definition expandFields :: "string list \<Rightarrow> ParseOption \<Rightarrow> string list parsed" where
  "expandFields flds options = expand_loop options flds (zip places defaults) 0"

definition normalizeFields :: "string list \<Rightarrow> ParseOption \<Rightarrow> string list parsed" where
  "normalizeFields flds options =
     and_then (normalizeOptions options) (\<lambda>(normalizedOptions, optionalCount).
       let (minFields, maxFields) = fieldCountBounds normalizedOptions optionalCount
       in and_then (validateFieldCount flds minFields maxFields) (\<lambda>_.
          and_then (populateOptionalField flds normalizedOptions minFields maxFields) (\<lambda>flds'.
            expandFields flds' normalizedOptions)))"

definition parseScheduleFields :: "string list \<Rightarrow> location \<Rightarrow> SpecSchedule parsed" where
  "parseScheduleFields flds loc =
     and_then (index flds 0) (\<lambda>f0. and_then (getField f0 secondBounds) (\<lambda>second.
     and_then (index flds 1) (\<lambda>f1. and_then (getField f1 minuteBounds) (\<lambda>minute.
     and_then (index flds 2) (\<lambda>f2. and_then (getField f2 hourBounds) (\<lambda>hour.
     and_then (index flds 3) (\<lambda>f3. and_then (getField f3 dayOfMonthBounds) (\<lambda>dayofmonth.
     and_then (index flds 4) (\<lambda>f4. and_then (getField f4 monthBounds) (\<lambda>month.
     and_then (index flds 5) (\<lambda>f5. and_then (getField f5 dayOfWeekBounds) (\<lambda>dayofweek.
       Ret \<lparr>sSecond = second, sMinute = minute, sHour = hour, sDom = dayofmonth,
            sMonth = month, sDow = dayofweek, sLocation = Some loc\<rparr>))))))))))))"

subsection \<open>Locations and descriptors\<close>

definition extractLocation :: "(string \<Rightarrow> bool) \<Rightarrow> string \<Rightarrow> (string \<times> location) parsed" where
  "extractLocation known spec =
     (if \<not> HasPrefix spec ''TZ='' \<and> \<not> HasPrefix spec ''CRON_TZ='' then Ret (spec, Local)
      else let flds = Fields spec
           in if flds = [] then Err EmptySpec
              else let eq = Index (hd flds) (CHR ''='');
                       locationName = drop (nat (eq + 1)) (hd flds)
                   in if locationName = [] then Err (MissingLocationName spec)
                      else if length flds = 1 then Err (MissingLocationSpec spec)
                      else case LoadLocation known locationName of
                             None \<Rightarrow> Err (BadLocation locationName)
                           | Some loc \<Rightarrow> Ret (Join (tl flds) '' '', loc))"

text \<open>\<open>@every\<close> and its duration.\<close>

definition parseEveryDescriptor :: "string \<Rightarrow> schedule parsed" where
  "parseEveryDescriptor descriptor =
     (case ParseDuration (drop (length ''@every '') descriptor) of
        Err e \<Rightarrow> Err (BadDuration descriptor e)
      | Ret duration \<Rightarrow>
          if duration \<le> 0 then Err (NonPositiveInterval descriptor)
          else Ret (Constant (Every duration))
      | Panic p \<Rightarrow> Panic p
      | Diverge \<Rightarrow> Diverge)"

text \<open>
  \<open>all\<close> of the two or three ranges a descriptor leaves open; \<open>1 << min\<close> for the others.
\<close>

definition only_min :: "bounds \<Rightarrow> u64" where
  "only_min r = push_bit (unat (bmin r)) 1"

definition parseDescriptor :: "string \<Rightarrow> location \<Rightarrow> schedule parsed" where
  "parseDescriptor descriptor loc =
     (if descriptor = ''@yearly'' \<or> descriptor = ''@annually'' then
        and_then (loop_result (all_bits dayOfWeekBounds)) (\<lambda>dow.
        Ret (Spec \<lparr>sSecond = only_min secondBounds, sMinute = only_min minuteBounds,
          sHour = only_min hourBounds, sDom = only_min dayOfMonthBounds,
          sMonth = only_min monthBounds, sDow = dow, sLocation = Some loc\<rparr>))
      else if descriptor = ''@monthly'' then
        and_then (loop_result (all_bits monthBounds)) (\<lambda>month.
        and_then (loop_result (all_bits dayOfWeekBounds)) (\<lambda>dow.
        Ret (Spec \<lparr>sSecond = only_min secondBounds, sMinute = only_min minuteBounds,
          sHour = only_min hourBounds, sDom = only_min dayOfMonthBounds,
          sMonth = month, sDow = dow, sLocation = Some loc\<rparr>)))
      else if descriptor = ''@weekly'' then
        and_then (loop_result (all_bits dayOfMonthBounds)) (\<lambda>dom.
        and_then (loop_result (all_bits monthBounds)) (\<lambda>month.
        Ret (Spec \<lparr>sSecond = only_min secondBounds, sMinute = only_min minuteBounds,
          sHour = only_min hourBounds, sDom = dom,
          sMonth = month, sDow = only_min dayOfWeekBounds, sLocation = Some loc\<rparr>)))
      else if descriptor = ''@daily'' \<or> descriptor = ''@midnight'' then
        and_then (loop_result (all_bits dayOfMonthBounds)) (\<lambda>dom.
        and_then (loop_result (all_bits monthBounds)) (\<lambda>month.
        and_then (loop_result (all_bits dayOfWeekBounds)) (\<lambda>dow.
        Ret (Spec \<lparr>sSecond = only_min secondBounds, sMinute = only_min minuteBounds,
          sHour = only_min hourBounds, sDom = dom,
          sMonth = month, sDow = dow, sLocation = Some loc\<rparr>))))
      else if descriptor = ''@hourly'' then
        and_then (loop_result (all_bits hourBounds)) (\<lambda>hour.
        and_then (loop_result (all_bits dayOfMonthBounds)) (\<lambda>dom.
        and_then (loop_result (all_bits monthBounds)) (\<lambda>month.
        and_then (loop_result (all_bits dayOfWeekBounds)) (\<lambda>dow.
        Ret (Spec \<lparr>sSecond = only_min secondBounds, sMinute = only_min minuteBounds,
          sHour = hour, sDom = dom,
          sMonth = month, sDow = dow, sLocation = Some loc\<rparr>)))))
      else if HasPrefix descriptor ''@every '' then parseEveryDescriptor descriptor
      else Err (UnrecognizedDescriptor descriptor))"

subsection \<open>Parse\<close>

definition Parse :: "(string \<Rightarrow> bool) \<Rightarrow> SpecParser \<Rightarrow> string \<Rightarrow> schedule parsed" where
  "Parse known p spec =
     (if length spec = 0 then Err EmptySpec
      else and_then (extractLocation known spec) (\<lambda>(spec', loc).
        if HasPrefix spec' ''@'' then
          (if p_options p AND Descriptor = 0 then Err (DescriptorNotAllowed spec')
           else parseDescriptor spec' loc)
        else and_then (normalizeFields (Fields spec') (p_options p)) (\<lambda>flds.
             and_then (parseScheduleFields flds loc) (\<lambda>schedule. Ret (Spec schedule)))))"

definition standard_parser :: SpecParser where
  "standard_parser = \<lparr>p_options = Minute OR Hour OR Dom OR Month OR Dow OR Descriptor\<rparr>"

lemma NewStandardParser_eq: "NewStandardParser = Ret standard_parser"
  by (simp add: NewStandardParser_def NewSpecParser_def standard_parser_def option_defs)

definition ParseStandard :: "(string \<Rightarrow> bool) \<Rightarrow> string \<Rightarrow> schedule parsed" where
  "ParseStandard known standardSpec =
     (case NewStandardParser of
        Ret p \<Rightarrow> Parse known p standardSpec
      | Panic c \<Rightarrow> Panic c
      | _ \<Rightarrow> Diverge)"

end
