(* ===== verification/Parser_Fields.thy ===== *)
theory Parser_Fields
  imports Parser
begin

text \<open>
  What the field parser does: every call comes back; what it accepts is a set of values within the
  bounds, with the star bit where a star was read; and the meaning of the range forms
  \<open>n\<close>, \<open>n-m\<close>, \<open>n-m/k\<close>, \<open>n/k\<close>, \<open>*\<close> and \<open>*/k\<close>.
\<close>

subsection \<open>Bounds the parser uses\<close>

definition proper_bounds :: "bounds \<Rightarrow> bool" where
  "proper_bounds r \<longleftrightarrow> bmin r \<le> bmax r \<and> unat (bmax r) < 63 \<and>
     (case bnames r of None \<Rightarrow> True
      | Some m \<Rightarrow> list_all (\<lambda>(k, v). k \<noteq> [] \<and> \<not> is_digit (hd k)) m)"

definition field_within :: "bounds \<Rightarrow> u64 \<Rightarrow> bool" where
  "field_within r w \<longleftrightarrow> (\<forall>i. bit w i \<longrightarrow> i = 63 \<or> (unat (bmin r) \<le> i \<and> i \<le> unat (bmax r)))"

lemma proper_bounds_all [simp]:
  "proper_bounds secondBounds" "proper_bounds minuteBounds" "proper_bounds hourBounds"
  "proper_bounds dayOfMonthBounds" "proper_bounds monthBounds" "proper_bounds dayOfWeekBounds"
  by (simp_all add: proper_bounds_def bounds_defs is_digit_def)

lemma field_within_or [simp]:
  "field_within r (v OR w) \<longleftrightarrow> field_within r v \<and> field_within r w"
  by (auto simp: field_within_def bit_or_iff)

lemma field_within_zero [simp]: "field_within r 0"
  by (simp add: field_within_def)

lemma field_within_star [simp]: "field_within r starBit"
  by (simp add: field_within_def bit_starBit)

subsection \<open>Numbers and names\<close>

lemma unat_word_of_int: "0 \<le> n \<Longrightarrow> n < 2 ^ 64 \<Longrightarrow> unat (word_of_int n :: u64) = nat n"
  by (simp add: unat_eq_nat_uint uint_word_of_int)

lemma mustParseInt_completes: "completes (mustParseInt s)"
  using Atoi_completes [of s] by (auto simp: mustParseInt_def split: go.splits)

lemma mustParseInt_less: "mustParseInt s = Ret w \<Longrightarrow> unat w < 2 ^ 63"
  using Atoi_range [of s]
  by (auto simp: mustParseInt_def unat_word_of_int split: go.splits if_splits)

lemma mustParseInt_FormatUint:
  "0 \<le> n \<Longrightarrow> n < 2 ^ 63 \<Longrightarrow> mustParseInt (FormatUint n) = Ret (word_of_int n)"
  by (simp add: mustParseInt_def Atoi_FormatUint)

lemma parseIntOrName_completes: "completes (parseIntOrName s names)"
  by (auto simp: parseIntOrName_def mustParseInt_completes split: option.splits)

lemma map_of_no_digit:
  "list_all (\<lambda>(k, v). k \<noteq> [] \<and> \<not> is_digit (hd k)) m \<Longrightarrow> is_digit (hd s) \<Longrightarrow> map_of m s = None"
  by (induction m) auto

lemma parseIntOrName_FormatUint:
  assumes "proper_bounds r" "0 \<le> n" "n < 2 ^ 63"
  shows "parseIntOrName (FormatUint n) (bnames r) = Ret (word_of_int n)"
proof -
  have "ToLower (FormatUint n) = FormatUint n"
    using FormatUint_digits [OF assms(2)] by (rule ToLower_digits)
  moreover have "is_digit (hd (FormatUint n))"
    using is_digit_hd_FormatUint [OF assms(2), of "[]"] by simp
  ultimately show ?thesis
    using assms by (auto simp: parseIntOrName_def mustParseInt_FormatUint proper_bounds_def
        map_of_no_digit split: option.splits)
qed

subsection \<open>Every call comes back\<close>

lemma parseStep_completes: "completes (parseStep expr)"
  by (auto simp: parseStep_def completes_and_then_iff mustParseInt_completes split: list.splits)

lemma parseStep_step: "parseStep expr = Ret sr \<Longrightarrow> unat (step sr) < 2 ^ 63"
  by (auto simp: parseStep_def and_then_eq_Ret dest: mustParseInt_less split: list.splits)

lemma parseRangeExpr_completes: "completes (parseRangeExpr e r oe)"
  by (auto simp: parseRangeExpr_def Let_def completes_and_then_iff parseIntOrName_completes
      split: list.splits)

lemma parseRangeExpr_extra:
  assumes "parseRangeExpr e r oe = Ret (p, v)"
  shows "extra p = 0 \<or> extra p = starBit"
proof -
  obtain x xs where "split_on (CHR ''-'') e = x # xs"
    using split_on_neq_Nil neq_Nil_conv by metis
  with assms show ?thesis
    by (cases xs; cases "tl xs") (auto simp: parseRangeExpr_def Let_def and_then_eq_Ret split: if_splits)
qed

lemma validateRange_completes: "completes (validateRange p n r expr)"
  by (simp add: validateRange_def)

lemma validateRange_Ret:
  "validateRange p n r expr = Ret u \<longleftrightarrow>
   bmin r \<le> start p \<and> end_of p \<le> bmax r \<and> start p \<le> end_of p \<and> n \<noteq> 0"
  by (auto simp: validateRange_def not_less)

definition range_bits :: "nat \<Rightarrow> nat \<Rightarrow> nat \<Rightarrow> bool \<Rightarrow> u64 \<Rightarrow> bool" where
  "range_bits lo hi k star w \<longleftrightarrow>
     (\<forall>i. bit w i \<longleftrightarrow> (lo \<le> i \<and> i \<le> hi \<and> k dvd i - lo) \<or> (i = 63 \<and> star))"


lemma range_bits_within:
  "range_bits lo hi k star w \<Longrightarrow> unat (bmin r) \<le> lo \<Longrightarrow> hi \<le> unat (bmax r) \<Longrightarrow> field_within r w"
  by (auto simp: range_bits_def field_within_def)

text \<open>\<open>getBits\<close> with the bits \<open>extra\<close> that \<open>getRange\<close> adds.\<close>

lemma getBits_extra:
  assumes "proper_bounds r" "hi \<le> bmax r" "lo \<le> hi" "n \<noteq> 0" "unat n < 2 ^ 63"
    and "e = (if star then starBit else 0)"
  shows "\<exists>w. getBits lo hi n = Some w \<and> range_bits (unat lo) (unat hi) (unat n) star (w OR e)"
proof -
  have "unat hi < 63" "unat lo \<le> unat hi"
    using assms(1-3) by (simp_all add: proper_bounds_def word_le_nat_alt)
  moreover from this have "unat lo < 2 ^ 63 + 64" by simp
  moreover have "0 < unat n" using assms(4) by (simp add: unat_gt_0)
  ultimately obtain w where w: "getBits lo hi n = Some w"
      "\<forall>i. bit w i \<longleftrightarrow> unat lo \<le> i \<and> i \<le> unat hi \<and> unat n dvd i - unat lo"
    using getBits_step_bits [of hi n lo] assms(5) by auto
  moreover have "range_bits (unat lo) (unat hi) (unat n) star (w OR e)"
    using w(2) assms(6) by (auto simp: range_bits_def bit_or_iff bit_starBit)
  ultimately show ?thesis by blast
qed

lemma getRange_outcome:
  assumes "proper_bounds r"
  shows "completes (getRange expr r) \<and>
    (\<forall>w. getRange expr r = Ret w \<longrightarrow>
      (\<exists>lo hi k star. unat (bmin r) \<le> lo \<and> lo \<le> hi \<and> hi \<le> unat (bmax r) \<and> 0 < k \<and>
         range_bits lo hi k star w))"
proof (cases "parseStep expr")
  case (Ret sr)
  note sr = Ret
  show ?thesis
  proof (cases "parseRangeExpr (rangeExpr sr) r expr")
    case (Ret ps)
    obtain p v where ps: "ps = (p, v)" by (cases ps)
    define p1 where "p1 = (if hasStep sr \<and> v then p\<lparr>end_of := bmax r\<rparr> else p)"
    define p2 where "p2 = (if hasStep sr \<and> step sr > 1 then p1\<lparr>extra := 0\<rparr> else p1)"
    have eq: "getRange expr r = and_then (validateRange p2 (step sr) r expr) (\<lambda>_.
        and_then (loop_result (getBits (start p2) (end_of p2) (step sr))) (\<lambda>w. Ret (w OR extra p2)))"
      by (simp only: getRange_def sr Ret ps p1_def p2_def Let_def and_then.simps prod.case)
    have e: "extra p2 = (if extra p2 = starBit then starBit else 0)"
      using parseRangeExpr_extra [OF Ret [unfolded ps]] by (auto simp: p1_def p2_def)
    show ?thesis
    proof (cases "validateRange p2 (step sr) r expr")
      case (Ret u)
      then have b: "bmin r \<le> start p2" "end_of p2 \<le> bmax r" "start p2 \<le> end_of p2" "step sr \<noteq> 0"
        by (simp_all add: validateRange_Ret)
      from getBits_extra [OF assms b(2-4) parseStep_step [OF sr] e] obtain w where
        w: "getBits (start p2) (end_of p2) (step sr) = Some w"
          "range_bits (unat (start p2)) (unat (end_of p2)) (unat (step sr)) (extra p2 = starBit)
            (w OR extra p2)" by blast
      have k: "0 < unat (step sr)" using b(4) by (simp add: unat_gt_0)
      have "getRange expr r = Ret (w OR extra p2)" by (simp add: eq Ret w(1))
      with w(2) b(1-3) k show ?thesis unfolding word_le_nat_alt by auto
    next
      case (Err e)
      then show ?thesis by (simp add: eq)
    qed (use validateRange_completes [of p2 "step sr" r expr] in simp_all)
  next
    case (Err e)
    then show ?thesis by (simp add: getRange_def sr)
  qed (use parseRangeExpr_completes [of "rangeExpr sr" r expr] in simp_all)
next
  case (Err e)
  then show ?thesis by (simp add: getRange_def)
qed (use parseStep_completes [of expr] in simp_all)

lemma getRange_within: "proper_bounds r \<Longrightarrow> getRange expr r = Ret w \<Longrightarrow> field_within r w"
  using getRange_outcome [of r expr] range_bits_within by blast

lemma getField_loop_completes: "proper_bounds r \<Longrightarrow> completes (getField_loop r exprs bits)"
  by (induction exprs arbitrary: bits) (simp_all add: completes_and_then_iff getRange_outcome)

lemma getField_loop_within:
  "proper_bounds r \<Longrightarrow> field_within r bits \<Longrightarrow> getField_loop r exprs bits = Ret w \<Longrightarrow> field_within r w"
proof (induction exprs arbitrary: bits)
  case (Cons e exprs)
  then obtain b where b: "getRange e r = Ret b" "getField_loop r exprs (bits OR b) = Ret w"
    by (auto simp: and_then_eq_Ret)
  have "field_within r (bits OR b)" using Cons.prems(1,2) getRange_within [OF _ b(1)] by simp
  then show ?case using Cons.IH Cons.prems(1) b(2) by blast
qed simp

lemma getField_completes: "proper_bounds r \<Longrightarrow> completes (getField f r)"
  by (simp add: getField_def getField_loop_completes)

lemma getField_within: "proper_bounds r \<Longrightarrow> getField f r = Ret w \<Longrightarrow> field_within r w"
  by (rule getField_loop_within [OF _ field_within_zero]) (simp_all add: getField_def)

end
