(* ===== verification/Parser_Ranges.thy ===== *)
theory Parser_Ranges
  imports Parser_Fields
begin

text \<open>
  The meaning of a field: an abstract syntax of the range forms with a printer, the set of values
  each form denotes, and the lemmas that \<open>getRange\<close> and \<open>getField\<close> read exactly that, or report
  the documented error.
\<close>

subsection \<open>Abstract ranges\<close>

datatype base = AnyValue | Value int | Between int int

type_synonym range_form = "base \<times> int option"

primrec show_base :: "base \<Rightarrow> string" where
  "show_base AnyValue = ''*''"
| "show_base (Value a) = FormatUint a"
| "show_base (Between a b) = FormatUint a @ ''-'' @ FormatUint b"

fun show_range :: "range_form \<Rightarrow> string" where
  "show_range (b, None) = show_base b"
| "show_range (b, Some k) = show_base b @ ''/'' @ FormatUint k"

definition nat63 :: "int \<Rightarrow> bool" where
  "nat63 n \<longleftrightarrow> 0 \<le> n \<and> n < 2 ^ 63"

text \<open>Every number of the form is written in decimal and fits \<open>int\<close>.\<close>

fun readable :: "range_form \<Rightarrow> bool" where
  "readable (b, st) \<longleftrightarrow>
     (case b of AnyValue \<Rightarrow> True | Value a \<Rightarrow> nat63 a | Between a c \<Rightarrow> nat63 a \<and> nat63 c) \<and>
     (case st of None \<Rightarrow> True | Some k \<Rightarrow> nat63 k)"

fun form_low :: "bounds \<Rightarrow> range_form \<Rightarrow> u64" where
  "form_low r (AnyValue, st) = bmin r"
| "form_low r (Value a, st) = word_of_int a"
| "form_low r (Between a b, st) = word_of_int a"

fun form_high :: "bounds \<Rightarrow> range_form \<Rightarrow> u64" where
  "form_high r (AnyValue, st) = bmax r"
| "form_high r (Value a, None) = word_of_int a"
| "form_high r (Value a, Some k) = bmax r"
| "form_high r (Between a b, st) = word_of_int b"

fun form_step :: "range_form \<Rightarrow> u64" where
  "form_step (b, None) = 1"
| "form_step (b, Some k) = word_of_int k"

fun form_star :: "range_form \<Rightarrow> bool" where
  "form_star (AnyValue, st) \<longleftrightarrow> st = None \<or> st = Some 0 \<or> st = Some 1"
| "form_star (b, st) \<longleftrightarrow> False"

subsection \<open>Reading the printed form\<close>

lemma digit_separators:
  "is_digit c \<Longrightarrow> c \<noteq> CHR ''/'' \<and> c \<noteq> CHR ''-'' \<and> c \<noteq> CHR '','' \<and> c \<noteq> CHR ''*'' \<and> c \<noteq> CHR ''?''"
  by (auto simp: is_digit_def)

lemma FormatUint_separators:
  assumes "nat63 n"
  shows "CHR ''/'' \<notin> set (FormatUint n)" "CHR ''-'' \<notin> set (FormatUint n)"
    "CHR '','' \<notin> set (FormatUint n)" "FormatUint n \<noteq> ''*''" "FormatUint n \<noteq> ''?''"
  using FormatUint_digits [of n "CHR ''/''"] FormatUint_digits [of n "CHR ''-''"]
    FormatUint_digits [of n "CHR '',''"] FormatUint_digits [of n "CHR ''*''"]
    FormatUint_digits [of n "CHR ''?''"] assms by (auto simp: nat63_def is_digit_def)

lemma show_base_separators:
  assumes "readable (b, st)"
  shows "CHR ''/'' \<notin> set (show_base b)" "CHR '','' \<notin> set (show_base b)" "show_base b \<noteq> []"
  using assms by (cases b; simp add: FormatUint_separators)+

lemma show_range_separators:
  assumes "readable f"
  shows "CHR '','' \<notin> set (show_range f)" "show_range f \<noteq> []"
  using assms show_base_separators [of "fst f" "snd f"]
  by (cases f; cases "snd f"; simp add: FormatUint_separators)+

lemma parseStep_show:
  assumes "readable f"
  shows "parseStep (show_range f) =
    Ret \<lparr>rangeExpr = show_base (fst f), step = form_step f, hasStep = (snd f \<noteq> None)\<rparr>"
proof (cases f)
  case (Pair b st)
  have s: "CHR ''/'' \<notin> set (show_base b)" using assms Pair show_base_separators by blast
  show ?thesis
  proof (cases st)
    case (Some k)
    then have "nat63 k" using assms Pair by simp
    then show ?thesis
      using s by (simp add: Pair Some parseStep_def FormatUint_separators mustParseInt_FormatUint nat63_def)
  qed (simp add: Pair parseStep_def s)
qed

lemma parseRangeExpr_show:
  assumes "proper_bounds r" "readable (b, st)"
  shows "parseRangeExpr (show_base b) r oe =
    Ret (\<lparr>start = form_low r (b, None), end_of = form_high r (b, None),
          extra = (if b = AnyValue then starBit else 0)\<rparr>, b \<noteq> AnyValue \<longrightarrow> (\<exists>a. b = Value a))"
  using assms
  by (cases b) (simp_all add: parseRangeExpr_def FormatUint_separators Let_def nat63_def
      parseIntOrName_FormatUint)

lemma word_of_int_gt_1: "nat63 k \<Longrightarrow> (1 :: u64) < word_of_int k \<longleftrightarrow> k \<noteq> 0 \<and> k \<noteq> 1"
  by (auto simp: nat63_def word_less_nat_alt unat_word_of_int)

lemma getRange_show:
  assumes "proper_bounds r" "readable f"
  shows "getRange (show_range f) r =
    (let lo = form_low r f; hi = form_high r f; n = form_step f;
         e = (if form_star f then starBit else 0)
     in and_then (validateRange \<lparr>start = lo, end_of = hi, extra = e\<rparr> n r (show_range f)) (\<lambda>_.
        and_then (loop_result (getBits lo hi n)) (\<lambda>w. Ret (w OR e))))"
proof (cases f)
  case (Pair b st)
  have f: "readable (b, st)" using assms Pair by simp
  then have k: "nat63 k" if "st = Some k" for k using that by simp
  show ?thesis
    unfolding getRange_def Pair parseStep_show [OF f] and_then.simps stepParseResult.select_convs
      fst_conv snd_conv parseRangeExpr_show [OF assms(1) f] prod.case
    by (cases b; cases st) (simp_all add: Let_def k word_of_int_gt_1)
qed

definition range_error :: "bounds \<Rightarrow> range_form \<Rightarrow> cron_error option" where
  "range_error r f =
     (if form_low r f < bmin r then Some (RangeBelowMinimum (form_low r f) (bmin r) (show_range f))
      else if bmax r < form_high r f then Some (RangeAboveMaximum (form_high r f) (bmax r) (show_range f))
      else if form_high r f < form_low r f
        then Some (RangeStartBeyondEnd (form_low r f) (form_high r f) (show_range f))
      else if form_step f = 0 then Some (RangeStepNotPositive (show_range f))
      else None)"

lemma validateRange_form:
  "validateRange \<lparr>start = form_low r f, end_of = form_high r f, extra = e\<rparr> (form_step f) r (show_range f) =
     (case range_error r f of None \<Rightarrow> Ret () | Some err \<Rightarrow> Err err)"
  by (simp add: validateRange_def range_error_def)

lemma form_step_less: "readable f \<Longrightarrow> unat (form_step f) < 2 ^ 63"
  by (cases f; cases "snd f") (auto simp: nat63_def unat_word_of_int)

lemma getRange_form:
  assumes "proper_bounds r" "readable f"
  shows "case range_error r f of
      Some err \<Rightarrow> getRange (show_range f) r = Err err
    | None \<Rightarrow> \<exists>w. getRange (show_range f) r = Ret w \<and>
        range_bits (unat (form_low r f)) (unat (form_high r f)) (unat (form_step f)) (form_star f) w"
proof (cases "range_error r f")
  case None
  then have "form_high r f \<le> bmax r" "form_low r f \<le> form_high r f" "form_step f \<noteq> 0"
    by (simp_all add: range_error_def not_less split: if_splits)
  from getBits_extra [OF assms(1) this form_step_less [OF assms(2)] refl]
  obtain w where "getBits (form_low r f) (form_high r f) (form_step f) = Some w"
      "range_bits (unat (form_low r f)) (unat (form_high r f)) (unat (form_step f)) (form_star f)
        (w OR (if form_star f then starBit else 0))"
    by blast
  then show ?thesis
    by (simp add: getRange_show [OF assms] validateRange_form None Let_def del: ex_simps)
next
  case (Some err)
  then show ?thesis by (simp add: getRange_show [OF assms] validateRange_form Let_def)
qed

text \<open>
  C15: a range form whose ends lie within the bounds, in order, and whose step is positive is read
  as exactly the values \<open>lo, lo + k, ...\<close> up to \<open>hi\<close>, with the star bit for \<open>*\<close> and \<open>*/1\<close> only.
  Every other form is refused, with the error of the first check that fails: below minimum, above
  maximum, reversed, step.
\<close>

theorem getRange_spec:
  assumes "proper_bounds r" "readable f"
  shows "case range_error r f of
      Some err \<Rightarrow> getRange (show_range f) r = Err err
    | None \<Rightarrow> \<exists>w. getRange (show_range f) r = Ret w \<and>
        range_bits (unat (form_low r f)) (unat (form_high r f)) (unat (form_step f)) (form_star f) w"
  by (rule getRange_form [OF assms])

theorem getRange_spec_witness:
  "(\<exists>w. getRange (show_range (Between 10 40, Some 15)) minuteBounds = Ret w \<and> range_bits 10 40 15 False w) \<and>
   getRange (show_range (Between 10 60, None)) minuteBounds =
     Err (RangeAboveMaximum 60 59 (show_range (Between 10 60, None)))"
  using getRange_spec [of minuteBounds "(Between 10 40, Some 15)"]
    getRange_spec [of minuteBounds "(Between 10 60, None)"]
  by (simp add: range_error_def nat63_def minuteBounds_def value_defs proper_bounds_all(2) [unfolded minuteBounds_def value_defs])

subsection \<open>Lists of ranges\<close>

lemma getField_loop_bits:
  "list_all2 (\<lambda>e w. getRange e r = Ret w) es ws \<Longrightarrow>
   getField_loop r es b = Ret (foldr (OR) ws b)"
proof (induction es ws arbitrary: b rule: list_all2_induct)
  case (Cons e es w ws)
  have "foldr (OR) ws (b OR w) = w OR foldr (OR) ws b" for ws
    by (induction ws) (simp_all add: or.commute or.left_commute)
  with Cons show ?case by simp
qed simp

lemma getField_loop_err:
  "list_all2 (\<lambda>e w. getRange e r = Ret w) es ws \<Longrightarrow> getRange e r = Err x \<Longrightarrow>
   getField_loop r (es @ e # es') b = Err x"
  by (induction es ws arbitrary: b rule: list_all2_induct) simp_all

lemma bit_foldr_or: "bit (foldr (OR) ws (b :: u64)) i \<longleftrightarrow> bit b i \<or> (\<exists>w \<in> set ws. bit w i)"
  by (induction ws) (auto simp: bit_or_iff)

text \<open>What a form denotes, and the values of the forms up to the first that is refused.\<close>

definition form_bits :: "bounds \<Rightarrow> range_form \<Rightarrow> u64 \<Rightarrow> bool" where
  "form_bits r f w \<longleftrightarrow>
     range_bits (unat (form_low r f)) (unat (form_high r f)) (unat (form_step f)) (form_star f) w"

lemma getRange_all:
  assumes "proper_bounds r" "list_all readable fs" "list_all (\<lambda>f. range_error r f = None) fs"
  shows "\<exists>ws. list_all2 (\<lambda>e w. getRange e r = Ret w) (map show_range fs) ws \<and> list_all2 (form_bits r) fs ws"
  using assms(2,3)
proof (induction fs)
  case (Cons f fs)
  then obtain ws where "list_all2 (\<lambda>e w. getRange e r = Ret w) (map show_range fs) ws" "list_all2 (form_bits r) fs ws"
    by auto
  moreover obtain w where "getRange (show_range f) r = Ret w" "form_bits r f w"
    using getRange_form [OF assms(1), of f] Cons.prems by (auto simp: form_bits_def)
  ultimately show ?case by (intro exI [of _ "w # ws"]) simp
qed simp

text \<open>
  C29: a field that lists several ranges denotes the union of what they denote; if one is refused,
  the field is, with the error of the first such range.
\<close>

theorem getField_spec:
  assumes "proper_bounds r" "list_all readable fs"
  shows "case List.find (\<lambda>f. range_error r f \<noteq> None) fs of
      Some f \<Rightarrow> getField (Join (map show_range fs) '','') r = Err (the (range_error r f))
    | None \<Rightarrow> \<exists>w ws. getField (Join (map show_range fs) '','') r = Ret w \<and> list_all2 (form_bits r) fs ws \<and>
        (\<forall>i. bit w i \<longleftrightarrow> (\<exists>v \<in> set ws. bit v i))"
proof -
  have split: "FieldsFunc_comma (Join (map show_range fs) '','') = map show_range fs"
    using assms(2) by (intro FieldsFunc_comma_Join) (auto simp: list_all_iff show_range_separators)
  show ?thesis
  proof (cases "List.find (\<lambda>f. range_error r f \<noteq> None) fs")
    case None
    then have "list_all (\<lambda>f. range_error r f = None) fs" by (auto simp: find_None_iff list_all_iff)
    then obtain ws where "list_all2 (\<lambda>e w. getRange e r = Ret w) (map show_range fs) ws" "list_all2 (form_bits r) fs ws"
      using getRange_all [OF assms] by blast
    then show ?thesis using None
      by (auto simp: getField_def split getField_loop_bits bit_foldr_or)
  next
    case (Some f)
    then obtain n where n: "n < length fs" "f = fs ! n" "range_error r f \<noteq> None"
      "\<And>k. k < n \<Longrightarrow> range_error r (fs ! k) = None"
      by (auto simp: find_Some_iff)
    have "list_all (\<lambda>f. range_error r f = None) (take n fs)" "list_all readable (take n fs)"
      using n(1,4) assms(2) by (auto simp: list_all_length)
    then obtain ws where ok: "list_all2 (\<lambda>e w. getRange e r = Ret w) (map show_range (take n fs)) ws"
      using getRange_all [OF assms(1)] by blast
    obtain err where err: "range_error r f = Some err" using n(3) by blast
    have "readable f" using assms(2) n(1,2) by (simp add: list_all_length)
    then have "getRange (show_range f) r = Err err" using getRange_form [OF assms(1), of f] err by simp
    then have "getField_loop r (map show_range (take n fs) @ show_range f # map show_range (drop (Suc n) fs)) 0 = Err err"
      by (rule getField_loop_err [OF ok])
    moreover have "map show_range (take n fs) @ show_range f # map show_range (drop (Suc n) fs) = map show_range fs"
      using n(1,2) id_take_nth_drop [OF n(1)] by (metis list.simps(9) map_append)
    ultimately show ?thesis unfolding Some by (simp add: getField_def split err)
  qed
qed

text \<open>\<open>5,10-12\<close> and \<open>5,70,8-3\<close> as minutes.\<close>

theorem getField_spec_witness:
  "(\<exists>w. getField (Join (map show_range [(Value 5, None), (Between 10 12, None)]) '','') minuteBounds = Ret w) \<and>
   getField (Join (map show_range [(Value 5, None), (Value 70, None), (Between 8 3, None)]) '','') minuteBounds =
     Err (RangeAboveMaximum 70 59 (show_range (Value 70, None)))"
  using getField_spec [OF proper_bounds_all(2), of "[(Value 5, None), (Between 10 12, None)]"]
    getField_spec [OF proper_bounds_all(2), of "[(Value 5, None), (Value 70, None), (Between 8 3, None)]"]
  by (auto simp: range_error_def nat63_def minuteBounds_def value_defs simp del: show_range.simps)

end
