(* ===== verification/Parser_Properties.thy ===== *)
theory Parser_Properties
  imports Parser_Ranges
begin

text \<open>
  The parser as a whole: option handling, the normalised list of six fields, that \<open>Parse\<close> comes
  back on every input, and what it returns.
\<close>

subsection \<open>Options\<close>

text \<open>
  \<open>NewSpecParser\<close> panics exactly when both optional fields are asked for.
\<close>

lemma NewSpecParser_panics:
  "NewSpecParser options =
     (if options AND SecondOptional > 0 \<and> options AND DowOptional > 0 then Panic MultipleOptionals
      else Ret \<lparr>p_options = options\<rparr>)"
  by (simp add: NewSpecParser_def Let_def)

text \<open>Which fields an option word turns on, and how many.\<close>

definition enabled :: "ParseOption \<Rightarrow> ParseOption \<Rightarrow> bool" where
  "enabled options place \<longleftrightarrow> options AND place > 0"

definition selected :: "ParseOption \<Rightarrow> ParseOption" where
  "selected options =
     (let o1 = (if enabled options SecondOptional then options OR Second else options)
      in if enabled o1 DowOptional then o1 OR Dow else o1)"

text \<open>
  The six fields that a list of values for the selected places stands for: the values in order at
  the selected places, the defaults elsewhere.
\<close>

primrec spread :: "ParseOption \<Rightarrow> (ParseOption \<times> string) list \<Rightarrow> string list \<Rightarrow> string list" where
  "spread options [] xs = []"
| "spread options (pd # ps) xs =
     (if enabled options (fst pd) then hd xs # spread options ps (tl xs)
      else snd pd # spread options ps xs)"

lemma expand_loop_spread:
  "i + length (filter (\<lambda>pd. enabled options (fst pd)) ps) \<le> length xs \<Longrightarrow>
   expand_loop options xs ps i = Ret (spread options ps (drop i xs))"
proof (induction ps arbitrary: i)
  case (Cons pd ps)
  show ?case
  proof (cases "enabled options (fst pd)")
    case True
    then have i: "i < length xs" using Cons.prems by simp
    have "expand_loop options xs ps (i + 1) = Ret (spread options ps (drop (i + 1) xs))"
      using Cons True by simp
    then show ?thesis
      using True i by (simp add: enabled_def index_def hd_drop_conv_nth tl_drop drop_Suc)
  qed (use Cons in \<open>simp add: enabled_def\<close>)
qed simp

lemma length_spread [simp]: "length (spread options ps xs) = length ps"
  by (induction ps arbitrary: xs) simp_all

definition selected_count :: "ParseOption \<Rightarrow> nat" where
  "selected_count options = length (filter (\<lambda>place. enabled (selected options) place) places)"

lemma places_with_defaults:
  "length (filter (\<lambda>pd. enabled options (fst pd)) (zip places defaults)) =
     length (filter (enabled options) places)"
  by (simp add: places_def defaults_def)

lemma expandFields_spread:
  "length (filter (enabled options) places) \<le> length xs \<Longrightarrow>
   expandFields xs options = Ret (spread options (zip places defaults) xs)"
  using expand_loop_spread [of 0 options "zip places defaults" xs]
  by (simp add: expandFields_def places_with_defaults)

lemma and_exp_pos_iff: "0 < (x :: int) AND 2 ^ k \<longleftrightarrow> bit x k"
proof -
  have "0 \<le> x AND 2 ^ k" by simp
  moreover have "x AND 2 ^ k = 0 \<longleftrightarrow> \<not> bit x k" by (simp add: and_exp_eq_0_iff_not_bit)
  ultimately show ?thesis by linarith
qed

lemma enabled_bit:
  "enabled options Second = bit options 0" "enabled options SecondOptional = bit options 1"
  "enabled options Minute = bit options 2" "enabled options Hour = bit options 3"
  "enabled options Dom = bit options 4" "enabled options Month = bit options 5"
  "enabled options Dow = bit options 6" "enabled options DowOptional = bit options 7"
  "enabled options Descriptor = bit options 8"
  using and_exp_pos_iff [of options 0] and_exp_pos_iff [of options 1] and_exp_pos_iff [of options 2]
    and_exp_pos_iff [of options 3] and_exp_pos_iff [of options 4] and_exp_pos_iff [of options 5]
    and_exp_pos_iff [of options 6] and_exp_pos_iff [of options 7] and_exp_pos_iff [of options 8]
  by (simp_all add: enabled_def option_defs)

lemma bit_option:
  "bit Second i \<longleftrightarrow> i = 0" "bit Dow i \<longleftrightarrow> i = 6"
  using bit_exp_iff [where 'a = int, of 0 i] bit_exp_iff [where 'a = int, of 6 i]
  by (auto simp: option_defs)

lemma enabled_selected:
  "enabled (selected options) DowOptional = enabled options DowOptional"
  "enabled (selected options) SecondOptional = enabled options SecondOptional"
  by (auto simp: selected_def enabled_bit Let_def bit_or_iff bit_option)

lemma normalizeOptions_eq:
  "normalizeOptions options =
     (if enabled options SecondOptional \<and> enabled options DowOptional then Err MultipleOptionalFields
      else Ret (selected options, of_bool (enabled options SecondOptional) + of_bool (enabled options DowOptional)))"
proof -
  have "enabled (options OR Second) DowOptional = enabled options DowOptional"
    by (auto simp: enabled_bit bit_or_iff bit_option)
  then show ?thesis
    by (simp add: normalizeOptions_def selected_def enabled_def [symmetric] Let_def)
qed

lemma fieldCountBounds_eq:
  "fieldCountBounds (selected options) n = (int (selected_count options) - int n, selected_count options)"
  by (simp add: fieldCountBounds_def selected_count_def enabled_def Let_def)

lemma selected_count_pos:
  "enabled options SecondOptional \<or> enabled options DowOptional \<Longrightarrow> 0 < selected_count options"
  by (auto simp: selected_count_def places_def enabled_bit selected_def Let_def bit_or_iff bit_option)

abbreviation place_fields :: "ParseOption \<Rightarrow> string list \<Rightarrow> string list" where
  "place_fields options xs \<equiv> spread (selected options) (zip places defaults) xs"

lemma expandFields_selected:
  "length xs = selected_count options \<Longrightarrow>
   expandFields xs (selected options) = Ret (place_fields options xs)"
  by (rule expandFields_spread) (simp add: selected_count_def)

text \<open>The reference for the field list.\<close>

definition reference_fields :: "string list \<Rightarrow> ParseOption \<Rightarrow> string list parsed" where
  "reference_fields xs options =
     (let m = selected_count options;
          second = enabled options SecondOptional;
          dow = enabled options DowOptional
      in if second \<and> dow then Err MultipleOptionalFields
         else if length xs = m then Ret (place_fields options xs)
         else if length xs + 1 = m \<and> dow then Ret (place_fields options (xs @ [''*'']))
         else if length xs + 1 = m \<and> second then Ret (place_fields options (''0'' # xs))
         else Err (if second \<or> dow then FieldCountOutside (int m - 1) m (length xs) xs
                   else FieldCountNot m (length xs) xs))"

lemma normalizeFields_eq: "normalizeFields xs options = reference_fields xs options"
proof -
  have pop: "populateOptionalField xs (selected options) a b =
      (if a = int b \<or> int (length xs) \<noteq> a then Ret xs
       else if enabled options DowOptional then Ret (xs @ [''*''])
       else if enabled options SecondOptional then Ret (''0'' # xs)
       else Err UnknownOptional)" for a b
    using enabled_selected [of options]
    by (simp add: populateOptionalField_def enabled_def defaults_def)
  show ?thesis
    using selected_count_pos [of options]
    by (auto simp: normalizeFields_def normalizeOptions_eq fieldCountBounds_eq validateFieldCount_def
        pop expandFields_selected reference_fields_def Let_def)
qed

text \<open>
  C14: \<open>normalizeFields\<close> returns the six fields: the given values in order at the places that the
  options select and the defaults elsewhere; with one field missing it fills in the optional one,
  Dow at the end or Second in front; any other number of fields is refused.
\<close>

theorem normalizeFields_spec: "normalizeFields = reference_fields"
  by (intro ext) (rule normalizeFields_eq)

lemmas field_list = normalizeFields_eq reference_fields_def selected_count_def enabled_def selected_def
  places_def defaults_def option_defs

lemma normalize_five:
  assumes "length xs = 5"
  shows "normalizeFields xs 382 = Ret (''0'' # xs)" "normalizeFields xs 380 = Ret (''0'' # xs)"
    "normalizeFields xs 381 = Err (FieldCountNot 6 5 xs)"
  using assms by (auto simp: field_list length_Suc_conv numeral_eq_Suc)

lemma normalizeFields_length: "normalizeFields xs options = Ret ys \<Longrightarrow> length ys = 6"
  by (auto simp: normalizeFields_eq reference_fields_def Let_def places_def defaults_def split: if_splits)

lemma normalizeFields_completes: "completes (normalizeFields xs options)"
  by (simp add: normalizeFields_eq reference_fields_def Let_def)

subsection \<open>What Parse returns\<close>

definition well_formed_spec :: "SpecSchedule \<Rightarrow> bool" where
  "well_formed_spec s \<longleftrightarrow>
     field_within secondBounds (sSecond s) \<and> field_within minuteBounds (sMinute s) \<and>
     field_within hourBounds (sHour s) \<and> field_within dayOfMonthBounds (sDom s) \<and>
     field_within monthBounds (sMonth s) \<and> field_within dayOfWeekBounds (sDow s) \<and>
     sLocation s \<noteq> None"

primrec well_formed :: "schedule \<Rightarrow> bool" where
  "well_formed (Spec s) \<longleftrightarrow> well_formed_spec s"
| "well_formed (Constant s) \<longleftrightarrow> (\<exists>k. 1 \<le> k \<and> Delay s = k * go_Second \<and> Delay s < 2 ^ 63)"

lemma parseScheduleFields_completes: "length xs = 6 \<Longrightarrow> completes (parseScheduleFields xs loc)"
  by (simp add: parseScheduleFields_def completes_and_then_iff index_def getField_completes)

lemma parseScheduleFields_well_formed:
  "parseScheduleFields xs loc = Ret s \<Longrightarrow> well_formed_spec s \<and> sLocation s = Some loc"
  by (auto simp: parseScheduleFields_def and_then_eq_Ret well_formed_spec_def getField_within)

lemma getBits_one: "\<exists>w. getBits lo hi 1 = Some w"
  by (simp add: getBits_def)

lemma all_bits_Some:
  assumes "proper_bounds r"
  shows "\<exists>w. all_bits r = Some w \<and> field_within r w"
proof -
  have "unat (bmax r) < 64" using assms by (simp add: proper_bounds_def)
  from getBits_step1 [OF this, of "bmin r"] show ?thesis
    by (auto simp: all_bits_def field_within_def bit_or_iff bit_starBit)
qed

lemma only_min_within: "proper_bounds r \<Longrightarrow> field_within r (only_min r)"
  by (auto simp: proper_bounds_def field_within_def only_min_def bit_exp_iff word_le_nat_alt)

lemma parseEveryDescriptor_completes: "completes (parseEveryDescriptor d)"
  using ParseDuration_completes [of "drop (length ''@every '') d"]
  by (auto simp: parseEveryDescriptor_def split: go.splits)

lemma parseDescriptor_completes: "completes (parseDescriptor d loc)"
proof -
  obtain h dm mo dw where "all_bits hourBounds = Some h" "all_bits dayOfMonthBounds = Some dm"
      "all_bits monthBounds = Some mo" "all_bits dayOfWeekBounds = Some dw"
    using all_bits_Some proper_bounds_all by meson
  then show ?thesis by (simp add: parseDescriptor_def parseEveryDescriptor_completes)
qed

lemma extractLocation_completes: "completes (extractLocation known spec)"
  by (simp add: extractLocation_def Let_def split: option.splits)

text \<open>
  C22: \<open>Parse\<close> comes back with a schedule or an error on every string, whatever the parser's
  options and the time-zone data base: it never panics (no index out of range) and never hangs.
\<close>

theorem Parse_completes: "completes (Parse known p spec)"
  by (simp add: Parse_def completes_and_then_iff extractLocation_completes parseDescriptor_completes
      normalizeFields_completes parseScheduleFields_completes normalizeFields_length split: prod.split)

lemma ParseDuration_less: "ParseDuration s = Ret d \<Longrightarrow> d < 2 ^ 63"
  using i64_range(2) by (auto simp: ParseDuration_def and_then_eq_Ret split: prod.splits if_splits)

lemma parseEveryDescriptor_well_formed:
  assumes "parseEveryDescriptor d = Ret sch"
  shows "well_formed sch"
proof -
  obtain n where n: "ParseDuration (drop (length ''@every '') d) = Ret n" "sch = Constant (Every n)"
    using assms by (auto simp: parseEveryDescriptor_def split: go.splits if_splits)
  show ?thesis
    using Every_Delay [of n] Every_Delay_less [OF ParseDuration_less [OF n(1)]]
    by (auto simp: n(2) intro!: exI [of _ "max 1 (n div go_Second)"])
qed

lemma all_bits_yields: "proper_bounds r \<Longrightarrow> yields (field_within r) (loop_result (all_bits r))"
  using all_bits_Some [of r] by auto

lemma well_formed_Spec:
  "well_formed (Spec \<lparr>sSecond = sec, sMinute = mi, sHour = h, sDom = dm, sMonth = mo, sDow = dw,
     sLocation = Some loc\<rparr>) \<longleftrightarrow>
   field_within secondBounds sec \<and> field_within minuteBounds mi \<and> field_within hourBounds h \<and>
   field_within dayOfMonthBounds dm \<and> field_within monthBounds mo \<and> field_within dayOfWeekBounds dw"
  by (simp add: well_formed_spec_def)

lemma parseDescriptor_well_formed: "yields well_formed (parseDescriptor d loc)"
proof -
  obtain h dm mo dw where
    w: "all_bits hourBounds = Some h" "all_bits dayOfMonthBounds = Some dm"
      "all_bits monthBounds = Some mo" "all_bits dayOfWeekBounds = Some dw" and
    f: "field_within hourBounds h" "field_within dayOfMonthBounds dm"
      "field_within monthBounds mo" "field_within dayOfWeekBounds dw"
    using all_bits_Some proper_bounds_all by meson
  have e: "yields well_formed (parseEveryDescriptor d)"
    by (simp add: yields_iff parseEveryDescriptor_well_formed)
  show ?thesis
    unfolding parseDescriptor_def w loop_result_simps and_then.simps
    by (intro yields_if e) (simp_all only: yields.simps well_formed_Spec only_min_within f
        proper_bounds_all conj_absorb)
qed

lemma Parse_well_formed_lemma:
  assumes "Parse known p spec = Ret sch"
  shows "well_formed sch"
proof -
  obtain spec' loc where e: "extractLocation known spec = Ret (spec', loc)"
    using assms by (auto simp: Parse_def and_then_eq_Ret split: if_splits)
  show ?thesis
  proof (cases "HasPrefix spec' ''@''")
    case True
    with assms e show ?thesis
      using parseDescriptor_well_formed [of spec' loc] by (auto simp: Parse_def yields_iff split: if_splits)
  next
    case False
    with assms e show ?thesis
      by (auto simp: Parse_def and_then_eq_Ret parseScheduleFields_well_formed split: if_splits)
  qed
qed

definition office_hours :: SpecSchedule where
  "office_hours = \<lparr>sSecond = 1, sMinute = 1125934267629600, sHour = 261632,
     sDom = 9223372041149743102, sMonth = 14, sDow = 9223372036854775935, sLocation = Some UTC\<rparr>"

lemma office_hours_parse:
  "Parse (\<lambda>_. False) standard_parser ''CRON_TZ=UTC 5/15 9-17 * JAN-Mar ?'' = Ret (Spec office_hours)"
  by code_simp

text \<open>
  C23: what \<open>Parse\<close> accepts is well formed: every bit of every field lies within the field's
  bounds or is the star bit, the location is not nil, and a constant delay is a positive whole
  number of seconds.
\<close>

theorem Parse_well_formed:
  assumes "Parse known p spec = Ret sch"
  shows "well_formed sch"
  using assms by (rule Parse_well_formed_lemma)

theorem Parse_well_formed_witness:
  "\<exists>sch. Parse (\<lambda>_. False) standard_parser ''CRON_TZ=UTC 5/15 9-17 * JAN-Mar ?'' = Ret sch \<and> well_formed sch"
  using Parse_well_formed [OF office_hours_parse] office_hours_parse by blast

text \<open>
  In regular zones every schedule that \<open>Parse\<close> returns can be asked for its next
  time at any time: \<open>Next\<close> returns, and a time that is not the zero time is later.
\<close>

lemma parsed_schedule_Next:
  assumes "Parse known p spec = Ret sch" "\<And>l. regular_zone tz l (k l)" "valid_time t"
  shows "\<exists>u. schedule_Next tz sch t = Ret u \<and> (IsZero u \<or> After u t)"
proof (cases sch)
  case (Spec s)
  then obtain l where l: "sLocation s = Some l"
    using Parse_well_formed_lemma [OF assms(1)] by (auto simp: well_formed_spec_def)
  have "IsZero zero_time" by (simp add: IsZero_def zero_time_def)
  then show ?thesis
    using spec_Next_regular [OF l refl assms(2)] by (auto simp: Spec)
next
  case (Constant c)
  then obtain k where "1 \<le> k" "Delay c = k * go_Second" "Delay c < 2 ^ 63"
    using Parse_well_formed_lemma [OF assms(1)] by auto
  from schedule_law.later [OF delay_schedule_law [OF this, of tz] assms(3) refl] show ?thesis
    by (auto simp: Constant)
qed

definition utc_tz :: tzdata where
  "utc_tz l u = \<lparr>zone_offset = 0, zone_start = - (2 ^ 63), zone_end = 2 ^ 63 - 1\<rparr>"

lemma regular_utc_tz: "regular_zone utc_tz l 0"
  by (rule fixed_offset_regular) (simp add: fixed_offset_def lookup_zone_def utc_tz_def)

end
