(* ===== verification/Parser_Inputs.thy ===== *)
theory Parser_Inputs
  imports Parser_Properties
begin

text \<open>
  \<open>Parse\<close> on families of inputs: the descriptors and the lines they abbreviate, \<open>@every\<close> with a
  whole number of a unit, a time-zone prefix; and inputs that are accepted although the grammar of
  the comments has no room for them.
\<close>

subsection \<open>Descriptors\<close>

definition descriptor_table :: "(string \<times> string) list" where
  "descriptor_table =
     [(''@yearly'', ''0 0 1 1 *''), (''@annually'', ''0 0 1 1 *''), (''@monthly'', ''0 0 1 * *''),
      (''@weekly'', ''0 0 * * 0''), (''@daily'', ''0 0 * * *''), (''@midnight'', ''0 0 * * *''),
      (''@hourly'', ''0 * * * *'')]"

lemma ParseStandard_eq: "ParseStandard known s = Parse known standard_parser s"
  by (simp add: ParseStandard_def NewStandardParser_eq)

lemma Parse_at_sign:
  "Parse known standard_parser (CHR ''@'' # s) = parseDescriptor (CHR ''@'' # s) Local"
  by (simp add: Parse_def extractLocation_def HasPrefix_def standard_parser_def option_defs)

lemma yearly_line: "ParseStandard known ''@yearly'' = ParseStandard known ''0 0 1 1 *''"
  by code_simp

lemma annually_line: "ParseStandard known ''@annually'' = ParseStandard known ''0 0 1 1 *''"
  by code_simp

lemma monthly_line: "ParseStandard known ''@monthly'' = ParseStandard known ''0 0 1 * *''"
  by code_simp

lemma weekly_line: "ParseStandard known ''@weekly'' = ParseStandard known ''0 0 * * 0''"
  by code_simp

lemma daily_line: "ParseStandard known ''@daily'' = ParseStandard known ''0 0 * * *''"
  by code_simp

lemma midnight_line: "ParseStandard known ''@midnight'' = ParseStandard known ''0 0 * * *''"
  by code_simp

lemma hourly_line: "ParseStandard known ''@hourly'' = ParseStandard known ''0 * * * *''"
  by code_simp

text \<open>
  Every descriptor parses to the schedule of the line it abbreviates in the documentation.
\<close>

lemma descriptors_abbreviate:
  "list_all (\<lambda>(d, line). ParseStandard known d = ParseStandard known line) descriptor_table"
  by (simp add: descriptor_table_def yearly_line annually_line monthly_line weekly_line daily_line midnight_line hourly_line)

lemma unit_nanos_known:
  assumes "unit_nanos u = Some k"
  shows "0 < k \<and> u \<noteq> [] \<and> (\<forall>c \<in> set u. unit_char c)"
proof -
  have "(u, k) \<in> set [(''ns'', 1), (''us'', 1000), ([CHR 0xC2, CHR 0xB5, CHR ''s''], 1000),
      ([CHR 0xCE, CHR 0xBC, CHR ''s''], 1000), (''ms'', 1000000), (''s'', 1000000000),
      (''m'', 60000000000), (''h'', 3600000000000)]"
    using assms unfolding unit_nanos_def by (rule map_of_SomeD)
  then show ?thesis by (auto simp: unit_char_def is_digit_def)
qed

lemma every_unit:
  assumes "unit_nanos u = Some k" "0 < n" "n * k < 2 ^ 63"
  shows "\<exists>sch. ParseStandard known (''@every '' @ FormatUint n @ u) = Ret (Constant sch) \<and>
    (valid_time t \<longrightarrow> delay_Next sch t = t\<lparr>tsec := tsec t + max 1 (n * k div go_Second), tnsec := 0\<rparr>)"
proof -
  have u: "0 < k" "u \<noteq> []" "\<And>c. c \<in> set u \<Longrightarrow> unit_char c"
    using unit_nanos_known [OF assms(1)] by blast+
  have d: "ParseDuration (FormatUint n @ u) = Ret (n * k)"
    using assms u by (intro ParseDuration_number) simp_all
  have "0 < n * k" using assms(2) u(1) by simp
  then have e: "parseEveryDescriptor (''@every '' @ FormatUint n @ u) = Ret (Constant (Every (n * k)))"
    using d by (simp add: parseEveryDescriptor_def)
  show ?thesis
    using e Every_Next [OF _ assms(3)]
    by (simp add: ParseStandard_eq Parse_at_sign parseDescriptor_def HasPrefix_def)
qed

text \<open>
  C35: a descriptor parses to the same schedule as the line it abbreviates, and \<open>@every\<close> with a
  positive whole number of a unit to the constant delay of that many units, rounded down to whole
  seconds, but to one second at least; \<open>Next\<close> of that schedule is the whole second that many seconds
  after the one its argument lies in.
\<close>

theorem descriptors_denote:
  assumes "unit_nanos u = Some k" "0 < n" "n * k < 2 ^ 63"
  shows "list_all (\<lambda>(d, line). ParseStandard known d = ParseStandard known line) descriptor_table \<and>
    (\<exists>sch. ParseStandard known (''@every '' @ FormatUint n @ u) = Ret (Constant sch) \<and>
      (valid_time t \<longrightarrow> delay_Next sch t = t\<lparr>tsec := tsec t + max 1 (n * k div go_Second), tnsec := 0\<rparr>))"
  by (rule conjI [OF descriptors_abbreviate every_unit [OF assms]])

theorem descriptors_denote_witness:
  "\<exists>sch. ParseStandard (\<lambda>_. False) (''@every '' @ FormatUint 90 @ ''m'') = Ret (Constant sch) \<and>
     delay_Next sch zero_time = zero_time\<lparr>tsec := 5400, tnsec := 0\<rparr>"
  using descriptors_denote [of "''m''" 60000000000 90 "\<lambda>_. False" zero_time]
  by (simp add: unit_nanos_def valid_time_def) (simp add: zero_time_def)

subsection \<open>Time-zone prefix\<close>

primrec relocate :: "location \<Rightarrow> schedule \<Rightarrow> schedule" where
  "relocate loc (Spec s) = Spec (s\<lparr>sLocation := Some loc\<rparr>)"
| "relocate loc (Constant s) = Constant s"

lemma map_go_and_then: "map_go f g (and_then m k) = and_then (map_go f id m) (\<lambda>a. map_go f g (k a))"
  by (cases m) auto

lemma map_go_id: "map_go id id m = m"
  by (rule go.map_id)

lemma parseScheduleFields_relocate:
  "map_go id (\<lambda>s. s\<lparr>sLocation := Some loc\<rparr>) (parseScheduleFields xs Local) = parseScheduleFields xs loc"
  by (simp add: parseScheduleFields_def map_go_and_then map_go_id)

lemma parseEveryDescriptor_relocate:
  "map_go id (relocate loc) (parseEveryDescriptor d) = parseEveryDescriptor d"
  by (simp add: parseEveryDescriptor_def split: go.split)

lemma parseDescriptor_relocate:
  "map_go id (relocate loc) (parseDescriptor d Local) = parseDescriptor d loc"
proof -
  obtain h dm mo dw where
    w: "all_bits hourBounds = Some h" "all_bits dayOfMonthBounds = Some dm"
      "all_bits monthBounds = Some mo" "all_bits dayOfWeekBounds = Some dw"
    using all_bits_Some proper_bounds_all by meson
  show ?thesis
    unfolding parseDescriptor_def w loop_result_simps and_then.simps
    by (simp add: if_distrib [of "map_go id (relocate loc)"] parseEveryDescriptor_relocate
        cong: if_cong)
qed

text \<open>The part of \<open>Parse\<close> that follows the time-zone prefix.\<close>

definition parse_rest :: "SpecParser \<Rightarrow> string \<Rightarrow> location \<Rightarrow> schedule parsed" where
  "parse_rest p spec' loc =
     (if HasPrefix spec' ''@'' then
        (if p_options p AND Descriptor = 0 then Err (DescriptorNotAllowed spec')
         else parseDescriptor spec' loc)
      else and_then (normalizeFields (Fields spec') (p_options p)) (\<lambda>flds.
           and_then (parseScheduleFields flds loc) (\<lambda>schedule. Ret (Spec schedule))))"

lemma Parse_rest:
  "Parse known p spec =
     (if spec = [] then Err EmptySpec
      else and_then (extractLocation known spec) (\<lambda>(spec', loc). parse_rest p spec' loc))"
  by (simp add: Parse_def parse_rest_def)

lemma parse_rest_relocate: "map_go id (relocate loc) (parse_rest p s Local) = parse_rest p s loc"
proof -
  have "and_then (map_go id (\<lambda>s. s\<lparr>sLocation := Some loc\<rparr>) m) (\<lambda>s. Ret (Spec s)) =
      map_go id (relocate loc) (and_then m (\<lambda>s. Ret (Spec s)))" for m :: "SpecSchedule parsed"
    by (cases m) auto
  then show ?thesis
    by (simp add: parse_rest_def map_go_and_then map_go_id parseDescriptor_relocate
        flip: parseScheduleFields_relocate [of loc])
qed

lemma HasPrefix_append: "length p \<le> length x \<Longrightarrow> HasPrefix (x @ s) p = HasPrefix x p"
  by (simp add: HasPrefix_def)

lemma Index_prefix: "c \<notin> set x \<Longrightarrow> Index (x @ c # s) c = int (length x)"
  by (induction x) (auto simp: Let_def)

definition plain_word :: "string \<Rightarrow> bool" where
  "plain_word x \<longleftrightarrow> x \<noteq> [] \<and> list_all plain_char x"

lemma Fields_plain_words: "list_all plain_word xs \<Longrightarrow> Fields (Join xs '' '') = xs"
  by (rule Fields_Join) (auto simp: plain_word_def list_all_iff)

definition zone_prefixed :: "string \<Rightarrow> bool" where
  "zone_prefixed s \<longleftrightarrow> HasPrefix s ''TZ='' \<or> HasPrefix s ''CRON_TZ=''"

lemma extractLocation_prefix:
  assumes pre: "pre = ''TZ'' \<or> pre = ''CRON_TZ''"
    and "plain_word name" "xs \<noteq> []" "list_all plain_word xs"
  shows "extractLocation known (pre @ ''='' @ name @ '' '' @ Join xs '' '') =
    (case LoadLocation known name of
       None \<Rightarrow> Err (BadLocation name)
     | Some loc \<Rightarrow> Ret (Join xs '' '', loc))"
proof -
  define w where "w = pre @ ''='' @ name"
  define s where "s = pre @ ''='' @ name @ '' '' @ Join xs '' ''"
  obtain y ys where xs: "xs = y # ys" using assms(3) by (cases xs) auto
  have s: "s = Join (w # xs) '' ''" by (simp add: xs w_def s_def)
  have "plain_word (''TZ='')" "plain_word (''CRON_TZ='')" by code_simp+
  then have "plain_word w"
    using pre assms(2) by (auto simp: plain_word_def w_def)
  then have f: "Fields s = w # xs"
    unfolding s using assms(4) by (intro Fields_plain_words) simp
  have i: "drop (nat (Index w (CHR ''='') + 1)) w = name"
    using pre Index_prefix [of "CHR ''=''" pre name] by (auto simp: w_def)
  have "zone_prefixed s" using pre by (auto simp: zone_prefixed_def HasPrefix_def s_def)
  then show ?thesis
    using assms(2) xs unfolding s_def [symmetric]
    by (auto simp: extractLocation_def f i Let_def zone_prefixed_def plain_word_def
        simp del: drop_eq_Nil split: option.split)
qed

text \<open>
  C33: a line with the prefix \<open>TZ=name\<close> or \<open>CRON_TZ=name\<close> parses as the rest of the line does,
  the schedule placed in that location; an unknown location is refused.
\<close>

theorem zone_prefix:
  assumes "pre = ''TZ'' \<or> pre = ''CRON_TZ''" "plain_word name" "xs \<noteq> []" "list_all plain_word xs"
    and "\<not> zone_prefixed (Join xs '' '')"
  shows "Parse known p (pre @ ''='' @ name @ '' '' @ Join xs '' '') =
    (case LoadLocation known name of
       None \<Rightarrow> Err (BadLocation name)
     | Some loc \<Rightarrow> map_go id (relocate loc) (Parse known p (Join xs '' '')))"
proof -
  have "Join xs '' '' \<noteq> []"
    using assms(3,4) by (intro Join_neq_Nil) (auto simp: plain_word_def list_all_iff)
  moreover have "extractLocation known (Join xs '' '') = Ret (Join xs '' '', Local)"
    using assms(5) by (simp add: extractLocation_def zone_prefixed_def)
  ultimately have "Parse known p (Join xs '' '') = parse_rest p (Join xs '' '') Local"
    by (simp add: Parse_rest)
  moreover have "pre @ ''='' @ name @ '' '' @ Join xs '' '' \<noteq> []" using assms(1) by auto
  ultimately show ?thesis
    unfolding Parse_rest [of known p "pre @ _"] extractLocation_prefix [OF assms(1-4)]
    by (simp add: parse_rest_relocate split: option.split)
qed

theorem zone_prefix_witness:
  "Parse (\<lambda>_. False) standard_parser (''CRON_TZ='' @ ''UTC'' @ '' '' @ ''@daily'') =
     map_go id (relocate UTC) (Parse (\<lambda>_. False) standard_parser ''@daily'')"
  using zone_prefix [of "''CRON_TZ''" "''UTC''" "[''@daily'']" "\<lambda>_. False" standard_parser]
  by (simp add: plain_word_def plain_char_def white_spaces_def zone_prefixed_def HasPrefix_def LoadLocation_def)

subsection \<open>Accepted although malformed\<close>

text \<open>After a star the rest of a hyphenated range is never looked at.\<close>

lemma star_hyphen:
  assumes "proper_bounds r" "CHR ''/'' \<notin> set junk"
  shows "getRange (''*-'' @ junk) r = getRange ''*'' r"
proof -
  have "\<not> bmax r < bmin r" using assms(1) by (simp add: proper_bounds_def not_less)
  with assms(2) show ?thesis
    by (simp add: getRange_def parseStep_def parseRangeExpr_def validateRange_def Let_def)
qed

text \<open>A field of commas alone has no range, and so no bit.\<close>

lemma comma_getField:
  assumes "set f = {CHR '',''}"
  shows "getField f r = Ret 0"
proof -
  have "filter (\<lambda>x. x \<noteq> []) (split_on (CHR '','') f) = []" if "set f \<subseteq> {CHR '',''}" for f
    using that by (induction f) auto
  then show ?thesis using assms by (simp add: getField_def FieldsFunc_comma_def)
qed

definition standard_bounds :: "bounds list" where
  "standard_bounds = [minuteBounds, hourBounds, dayOfMonthBounds, monthBounds, dayOfWeekBounds]"

definition standard_fields :: "SpecSchedule \<Rightarrow> u64 list" where
  "standard_fields s = [sMinute s, sHour s, sDom s, sMonth s, sDow s]"

definition star_in_days :: "SpecSchedule \<Rightarrow> bool" where
  "star_in_days s \<longleftrightarrow> 0 < sDom s AND starBit \<or> 0 < sDow s AND starBit"

text \<open>A line of five fields, each of which parses, parses.\<close>

lemma five_fields_parse:
  assumes "length xs = 5" "list_all plain_word xs"
    and "\<not> zone_prefixed (Join xs '' '')" "\<not> HasPrefix (Join xs '' '') ''@''"
    and "\<And>j. j < 5 \<Longrightarrow> getField (xs ! j) (standard_bounds ! j) = Ret (bs j)"
  shows "\<exists>s. ParseStandard known (Join xs '' '') = Ret (Spec s) \<and> standard_fields s = map bs [0..<5] \<and>
    sLocation s = Some Local"
proof -
  have "Join xs '' '' \<noteq> []"
    using assms(1,2) by (intro Join_neq_Nil) (auto simp: plain_word_def list_all_iff)
  moreover have "extractLocation known (Join xs '' '') = Ret (Join xs '' '', Local)"
    using assms(3) by (simp add: extractLocation_def zone_prefixed_def)
  moreover have "normalizeFields xs (p_options standard_parser) = Ret (''0'' # xs)"
    using normalize_five(2) [OF assms(1)] by (simp add: standard_parser_def option_defs)
  ultimately have "ParseStandard known (Join xs '' '') =
      and_then (parseScheduleFields (''0'' # xs) Local) (\<lambda>s. Ret (Spec s))"
    using assms(4) Fields_plain_words [OF assms(2)]
    by (simp add: ParseStandard_def NewStandardParser_eq Parse_rest parse_rest_def)
  moreover have "getField ''0'' secondBounds = Ret 1" by code_simp
  moreover obtain a b c d e where xs: "xs = [a, b, c, d, e]"
    using assms(1) by (auto simp: length_Suc_conv numeral_eq_Suc)
  moreover have "getField a minuteBounds = Ret (bs 0)" "getField b hourBounds = Ret (bs 1)"
    "getField c dayOfMonthBounds = Ret (bs 2)" "getField d monthBounds = Ret (bs 3)"
    "getField e dayOfWeekBounds = Ret (bs 4)"
    using assms(5) [of 0] assms(5) [of 1] assms(5) [of 2] assms(5) [of 3] assms(5) [of 4]
    by (simp_all add: xs standard_bounds_def)
  ultimately show ?thesis
    by (simp add: parseScheduleFields_def index_def standard_fields_def upt_rec numeral_eq_Suc)
qed

lemma empty_field_never:
  assumes "i < 5" "standard_fields s ! i = 0" "i \<noteq> 2 \<and> i \<noteq> 4 \<or> star_in_days s"
    and "sLocation s = Some Local" "regular_zone tz (tloc t) k"
  shows "spec_Next tz s t = Ret zero_time"
proof -
  have "i = 0 \<or> i = 1 \<or> i = 2 \<or> i = 3 \<or> i = 4" using assms(1) by linarith
  then have "\<not> matches tz s u" for u
    using assms(2,3)
    by (elim disjE) (auto simp: standard_fields_def star_in_days_def matches_def minuteMatches_def
        hourMatches_def monthMatches_def dayMatches_def hasBit_iff Let_def)
  then have "\<not> activation tz s L u" for L u by (simp add: activation_def)
  moreover have "eval_location Local t = tloc t" by (simp add: eval_location_def)
  ultimately show ?thesis
    using spec_Next_regular [OF assms(4) refl, of tz t k] assms(5) by auto
qed

text \<open>
  C39: inputs that the grammar does not have are accepted. Whatever follows a star and a hyphen in a
  range is ignored, unless it has a slash: \<open>*-xyz\<close> or \<open>*-1-2-3\<close> is read as \<open>*\<close>. And a field of commas
  only, of any length and at any of the five places of a standard line, has no bit set: the line is
  accepted, and when the field is the minute, the hour or the month, or a day with a star in one of the
  two fields of days, \<open>Next\<close> answers with the zero time from every time in a regular zone, so that the
  job never runs.
\<close>

theorem malformed_accepted:
  assumes "proper_bounds r" "CHR ''/'' \<notin> set junk"
    and "length xs = 5" "list_all plain_word xs"
    and "\<not> zone_prefixed (Join xs '' '')" "\<not> HasPrefix (Join xs '' '') ''@''"
    and "i < 5" "set (xs ! i) = {CHR '',''}"
    and "\<And>j. j < 5 \<Longrightarrow> j \<noteq> i \<Longrightarrow> getField (xs ! j) (standard_bounds ! j) = Ret (bs j)"
  shows "getRange (''*-'' @ junk) r = getRange ''*'' r \<and>
    (\<exists>s. ParseStandard known (Join xs '' '') = Ret (Spec s) \<and> standard_fields s ! i = 0 \<and>
      (i \<noteq> 2 \<and> i \<noteq> 4 \<or> star_in_days s \<longrightarrow>
        (\<forall>tz t k. regular_zone tz (tloc t) k \<longrightarrow> spec_Next tz s t = Ret zero_time)))"
proof -
  have "getField (xs ! j) (standard_bounds ! j) = Ret (if j = i then 0 else bs j)" if "j < 5" for j
    using comma_getField [OF assms(8)] assms(9) that by simp
  from five_fields_parse [OF assms(3-6) this] obtain s where
    s: "ParseStandard known (Join xs '' '') = Ret (Spec s)" "sLocation s = Some Local"
      "standard_fields s = map (\<lambda>j. if j = i then 0 else bs j) [0..<5]"
    by blast
  then have "standard_fields s ! i = 0" using assms(7) by simp
  then show ?thesis
    using star_hyphen [OF assms(1,2)] empty_field_never [OF assms(7) _ _ s(2)] s(1) by blast
qed

theorem malformed_accepted_witness:
  "getRange ''*-not a number-at all'' hourBounds = getRange ''*'' hourBounds \<and>
   (\<exists>s. ParseStandard (\<lambda>_. False) ''5 ,,, * * *'' = Ret (Spec s) \<and> spec_Next utc_tz s zero_time = Ret zero_time)"
proof -
  let ?xs = "[''5'', '',,,'', ''*'', ''*'', ''*'']"
  have five: "j = 0 \<or> j = 1 \<or> j = 2 \<or> j = 3 \<or> j = 4" if "j < 5" for j :: nat using that by linarith
  have "getField ''5'' minuteBounds = Ret 32" "getField ''*'' dayOfMonthBounds = Ret 9223372041149743102"
    "getField ''*'' monthBounds = Ret 9223372036854783998" "getField ''*'' dayOfWeekBounds = Ret 9223372036854775935"
    by code_simp+
  then have others: "getField (?xs ! j) (standard_bounds ! j) =
      Ret ([32, 0, 9223372041149743102, 9223372036854783998, 9223372036854775935] ! j)" if "j < 5" "j \<noteq> 1" for j
    using five [OF that(1)] that(2) by (auto simp: standard_bounds_def)
  have "list_all plain_word ?xs" "\<not> zone_prefixed (Join ?xs '' '')" "\<not> HasPrefix (Join ?xs '' '') ''@''"
    by code_simp+
  from malformed_accepted [of hourBounds "''not a number-at all''" ?xs 1, OF _ _ _ this _ _ others, of "\<lambda>_. False"]
  show ?thesis using regular_utc_tz by fastforce
qed

end
