(* ===== verification/Spec_String.thy ===== *)
theory Spec_String
  imports Parser_Inputs
begin

text \<open>
  \<open>SpecSchedule.String\<close>: \<open>fieldString\<close> and \<open>enumerateBits\<close> of spec.go, and what parsing the
  printed line gives back. Printing does not show the star bit of a field that is not full, and
  shows a full field as \<open>*\<close>, so a line parses back to the schedule up to its star bits.
\<close>

subsection \<open>Printing\<close>

text \<open>The loop \<open>for idx := min; idx <= max; idx++\<close>, \<open>n\<close> iterations from \<open>idx\<close>.\<close>

partial_function (option) enumerateBits_loop :: "u64 \<Rightarrow> u64 \<Rightarrow> u64 \<Rightarrow> string list \<Rightarrow> string list option" where
  "enumerateBits_loop bitset idx upper parts =
     (if idx \<le> upper then
        enumerateBits_loop bitset (idx + 1) upper
          (if bitset AND push_bit (unat idx) 1 \<noteq> 0 then parts @ [FormatUint (uint idx)] else parts)
      else Some parts)"

declare enumerateBits_loop.simps [code]

definition enumerateBits :: "u64 \<Rightarrow> bounds \<Rightarrow> string option" where
  "enumerateBits bitset bnd =
     map_option (\<lambda>parts. Join parts '','') (enumerateBits_loop bitset (bmin bnd) (bmax bnd) [])"

definition fieldString :: "u64 \<Rightarrow> bounds \<Rightarrow> string option" where
  "fieldString bitset bnd =
     (case getBits (bmin bnd) (bmax bnd) 1 of
        None \<Rightarrow> None
      | Some allBits \<Rightarrow>
          if bitset AND NOT starBit = allBits then Some ''*'' else enumerateBits bitset bnd)"

definition spec_String :: "SpecSchedule \<Rightarrow> string call" where
  "spec_String s =
     and_then (loop_result (fieldString (sSecond s) secondBounds)) (\<lambda>second.
     and_then (loop_result (fieldString (sMinute s) minuteBounds)) (\<lambda>minute.
     and_then (loop_result (fieldString (sHour s) hourBounds)) (\<lambda>hour.
     and_then (loop_result (fieldString (sDom s) dayOfMonthBounds)) (\<lambda>dom.
     and_then (loop_result (fieldString (sMonth s) monthBounds)) (\<lambda>month.
     and_then (loop_result (fieldString (sDow s) dayOfWeekBounds)) (\<lambda>dow.
       Ret (Join [second, minute, hour, dom, month, dow] '' '')))))))"

subsection \<open>The printed fields\<close>

text \<open>The values of a field in increasing order.\<close>

definition field_values :: "bounds \<Rightarrow> u64 \<Rightarrow> nat list" where
  "field_values r w = filter (bit w) [unat (bmin r)..<Suc (unat (bmax r))]"

lemma enumerateBits_loop_eq:
  assumes "unat upper < 63" "unat idx \<le> Suc (unat upper)"
  shows "enumerateBits_loop bitset idx upper parts =
    Some (parts @ map (\<lambda>n. FormatUint (int n)) (filter (bit bitset) [unat idx..<Suc (unat upper)]))"
  using assms(2)
proof (induction "Suc (unat upper) - unat idx" arbitrary: idx parts)
  case 0
  then have "\<not> idx \<le> upper" by (simp add: word_le_nat_alt)
  then show ?case using 0 by (subst enumerateBits_loop.simps) simp
next
  case (Suc n)
  then have le: "idx \<le> upper" "unat idx \<le> unat upper" by (simp_all add: word_le_nat_alt)
  have plus: "unat (idx + 1) = Suc (unat idx)"
    using le(2) assms(1) by (simp add: unat_word_ariths)
  have up: "[unat idx..<Suc (unat upper)] = unat idx # [unat (idx + 1)..<Suc (unat upper)]"
    using le(2) by (simp add: plus upt_conv_Cons)
  have step: "enumerateBits_loop bitset idx upper parts =
      enumerateBits_loop bitset (idx + 1) upper
        (if bit bitset (unat idx) then parts @ [FormatUint (int (unat idx))] else parts)"
    by (subst enumerateBits_loop.simps) (simp only: le(1) if_True word_and_single_neq_iff uint_nat)
  have rest: "enumerateBits_loop bitset (idx + 1) upper ps =
      Some (ps @ map (\<lambda>n. FormatUint (int n)) (filter (bit bitset) [unat (idx + 1)..<Suc (unat upper)]))" for ps
    using Suc.hyps(2) le(2) by (intro Suc.hyps(1)) (simp_all add: plus)
  show ?case unfolding step rest up by simp
qed

lemma enumerateBits_eq:
  assumes "proper_bounds r"
  shows "enumerateBits w r = Some (Join (map (\<lambda>n. FormatUint (int n)) (field_values r w)) '','')"
proof -
  have "unat (bmax r) < 63" "unat (bmin r) \<le> Suc (unat (bmax r))"
    using assms by (simp_all add: proper_bounds_def word_le_nat_alt)
  then show ?thesis by (simp add: enumerateBits_def enumerateBits_loop_eq field_values_def)
qed

definition full_field :: "bounds \<Rightarrow> u64 \<Rightarrow> bool" where
  "full_field r w \<longleftrightarrow> field_values r w = [unat (bmin r)..<Suc (unat (bmax r))]"

lemma full_field_iff:
  "full_field r w \<longleftrightarrow> (\<forall>i. unat (bmin r) \<le> i \<and> i \<le> unat (bmax r) \<longrightarrow> bit w i)"
  by (auto simp: full_field_def field_values_def filter_id_conv)

lemma fieldString_eq:
  assumes "proper_bounds r" "field_within r w"
  shows "fieldString w r =
    Some (if full_field r w then ''*''
          else Join (map (\<lambda>n. FormatUint (int n)) (field_values r w)) '','')"
proof -
  have m: "unat (bmax r) < 64" using assms(1) by (simp add: proper_bounds_def)
  from getBits_step1 [OF m, of "bmin r"] obtain a where
    a: "getBits (bmin r) (bmax r) 1 = Some a"
      "\<And>n. bit a n \<longleftrightarrow> unat (bmin r) \<le> n \<and> n \<le> unat (bmax r)" by blast
  have "w AND NOT starBit = a \<longleftrightarrow> full_field r w"
  proof
    assume "w AND NOT starBit = a"
    then have "bit (w AND NOT starBit) i = bit a i" for i by simp
    then show "full_field r w" by (auto simp: full_field_iff a(2) bit_and_iff)
  next
    assume f: "full_field r w"
    show "w AND NOT starBit = a"
      using f assms m by (intro bit_eqI)
        (auto simp: bit_and_iff bit_not_iff bit_starBit a(2) full_field_iff field_within_def proper_bounds_def)
  qed
  then show ?thesis by (simp add: fieldString_def a(1) enumerateBits_eq [OF assms(1)])
qed

subsection \<open>Reading a printed field\<close>

definition starred :: "bounds \<Rightarrow> u64 \<Rightarrow> u64" where
  "starred r w = (if full_field r w then w OR starBit else w AND NOT starBit)"

definition one_at :: "nat \<Rightarrow> u64" where
  "one_at n = push_bit n 1"

lemma bit_one_at: "bit (one_at n) i \<longleftrightarrow> i = n \<and> n < 64"
  unfolding one_at_def by (rule bit_single)

lemma getRange_value:
  assumes "proper_bounds r" "unat (bmin r) \<le> n" "n \<le> unat (bmax r)"
  shows "getRange (FormatUint (int n)) r = Ret (one_at n)"
proof -
  let ?f = "(Value (int n), None)"
  have n: "n < 63" using assms by (simp add: proper_bounds_def)
  then have u: "unat (word_of_nat n :: u64) = n"
    using unat_word_of_int [of "int n"] by simp
  have e: "range_error r ?f = None"
    using assms(2,3) by (simp add: range_error_def word_less_nat_alt u)
  have "unat (word_of_int (int n) :: u64) < 64" using n by (simp add: u)
  from getBits_step1 [OF this, of "word_of_int (int n)"] obtain b where
    b: "getBits (word_of_int (int n)) (word_of_int (int n)) 1 = Some b" "\<And>i. bit b i \<longleftrightarrow> n \<le> i \<and> i \<le> n"
    by (auto simp: u)
  have "b = one_at n"
    by (rule bit_eqI) (use n in \<open>auto simp: b(2) bit_one_at\<close>)
  then have "getBits (form_low r ?f) (form_high r ?f) (form_step ?f) = Some (one_at n)"
    using b(1) by simp
  moreover have "readable ?f" using n by (simp add: nat63_def)
  ultimately show ?thesis
    using getRange_show [OF assms(1), of ?f] validateRange_form [of r ?f] by (simp add: e Let_def)
qed

lemma getRange_star:
  assumes "proper_bounds r"
  shows "\<exists>a. getRange ''*'' r = Ret (a OR starBit) \<and>
    (\<forall>i. bit a i \<longleftrightarrow> unat (bmin r) \<le> i \<and> i \<le> unat (bmax r))"
proof -
  let ?f = "(AnyValue, None)"
  have m: "unat (bmax r) < 64" using assms by (simp add: proper_bounds_def)
  have "range_error r ?f = None" using assms by (simp add: range_error_def proper_bounds_def not_less)
  then show ?thesis
    using getRange_show [OF assms, of ?f] validateRange_form [of r ?f starBit]
      getBits_step1 [OF m, of "bmin r"] by (auto simp: Let_def)
qed

lemma getField_single: "CHR '','' \<notin> set x \<Longrightarrow> x \<noteq> [] \<Longrightarrow> getField x r = getRange x r"
  by (simp add: getField_def FieldsFunc_comma_def) (cases "getRange x r"; simp)

lemma getField_values:
  assumes "proper_bounds r" "\<And>n. n \<in> set ns \<Longrightarrow> unat (bmin r) \<le> n \<and> n \<le> unat (bmax r)"
  shows "getField (Join (map (\<lambda>n. FormatUint (int n)) ns) '','') r = Ret (foldr (OR) (map one_at ns) 0)"
proof -
  have n: "nat63 (int n)" if "n \<in> set ns" for n
    using assms that by (fastforce simp: nat63_def proper_bounds_def)
  have "FieldsFunc_comma (Join (map (\<lambda>n. FormatUint (int n)) ns) '','') = map (\<lambda>n. FormatUint (int n)) ns"
    by (rule FieldsFunc_comma_Join) (auto simp: FormatUint_separators n)
  moreover have "list_all2 (\<lambda>e w. getRange e r = Ret w) (map (\<lambda>n. FormatUint (int n)) ns)
      (map one_at ns)"
    using assms by (auto simp: list_all2_conv_all_nth getRange_value)
  ultimately show ?thesis by (simp add: getField_def getField_loop_bits)
qed

lemma set_field_values:
  "n \<in> set (field_values r w) \<longleftrightarrow> unat (bmin r) \<le> n \<and> n \<le> unat (bmax r) \<and> bit w n"
  by (auto simp: field_values_def)

definition printed_field :: "bounds \<Rightarrow> u64 \<Rightarrow> string" where
  "printed_field r w =
     (if full_field r w then ''*'' else Join (map (\<lambda>n. FormatUint (int n)) (field_values r w)) '','')"

lemma getField_printed:
  assumes "proper_bounds r" "field_within r w"
  shows "getField (printed_field r w) r = Ret (starred r w)"
proof (cases "full_field r w")
  case True
  from getRange_star [OF assms(1)] obtain a where
    a: "getRange ''*'' r = Ret (a OR starBit)" "\<And>i. bit a i \<longleftrightarrow> unat (bmin r) \<le> i \<and> i \<le> unat (bmax r)"
    by blast
  have "a OR starBit = w OR starBit"
    using True assms(2) a(2) by (intro bit_eqI)
      (auto simp: bit_or_iff bit_starBit full_field_iff field_within_def)
  then show ?thesis
    using a(1) True by (simp add: printed_field_def getField_single starred_def)
next
  case False
  have m: "unat (bmax r) < 63" using assms(1) by (simp add: proper_bounds_def)
  have "foldr (OR) (map one_at (field_values r w)) 0 = w AND NOT starBit"
  proof (rule bit_eqI)
    fix i
    have "bit (foldr (OR) (map one_at (field_values r w)) 0) i \<longleftrightarrow>
        (\<exists>n \<in> set (field_values r w). bit (one_at n) i)" by (simp add: bit_foldr_or)
    also have "\<dots> \<longleftrightarrow> i \<in> set (field_values r w)"
      using m unfolding bit_one_at by (auto simp: set_field_values)
    also have "\<dots> \<longleftrightarrow> bit (w AND NOT starBit) i"
      using assms(2) m by (auto simp: set_field_values bit_and_iff bit_not_iff bit_starBit field_within_def
          dest: u64_bit_less)
    finally show "bit (foldr (OR) (map one_at (field_values r w)) 0) i = bit (w AND NOT starBit) i" .
  qed
  then show ?thesis
    using False getField_values [OF assms(1), of "field_values r w"]
    by (simp add: printed_field_def starred_def set_field_values)
qed

lemma printed_field_plain:
  assumes "field_values r w \<noteq> []"
  shows "plain_word (printed_field r w)"
proof -
  have d: "plain_char c" if "is_digit c \<or> c = CHR '',''" for c
    using that by (auto simp: plain_char_def white_spaces_def is_digit_def)
  have "plain_char c" if "c \<in> set (Join (map (\<lambda>n. FormatUint (int n)) (field_values r w)) '','')" for c
  proof (rule d)
    have "c \<in> (\<Union>x \<in> set (map (\<lambda>n. FormatUint (int n)) (field_values r w)). set x) \<union> {CHR '',''}"
      using that set_Join [of "map (\<lambda>n. FormatUint (int n)) (field_values r w)" "'',''"] by auto
    then show "is_digit c \<or> c = CHR '',''" by (auto dest: FormatUint_digits [rotated])
  qed
  moreover have "plain_word ''*''" by code_simp
  moreover have "Join (map (\<lambda>n. FormatUint (int n)) (field_values r w)) '','' \<noteq> []"
    using assms by (intro Join_neq_Nil) auto
  ultimately show ?thesis by (simp add: printed_field_def plain_word_def list_all_iff)
qed

subsection \<open>The whole line\<close>

text \<open>No field is empty, so that the line has six words.\<close>

definition no_empty_field :: "SpecSchedule \<Rightarrow> bool" where
  "no_empty_field s \<longleftrightarrow>
     field_values secondBounds (sSecond s) \<noteq> [] \<and> field_values minuteBounds (sMinute s) \<noteq> [] \<and>
     field_values hourBounds (sHour s) \<noteq> [] \<and> field_values dayOfMonthBounds (sDom s) \<noteq> [] \<and>
     field_values monthBounds (sMonth s) \<noteq> [] \<and> field_values dayOfWeekBounds (sDow s) \<noteq> []"

definition reread :: "SpecSchedule \<Rightarrow> SpecSchedule" where
  "reread s = \<lparr>sSecond = starred secondBounds (sSecond s), sMinute = starred minuteBounds (sMinute s),
     sHour = starred hourBounds (sHour s), sDom = starred dayOfMonthBounds (sDom s),
     sMonth = starred monthBounds (sMonth s), sDow = starred dayOfWeekBounds (sDow s),
     sLocation = Some Local\<rparr>"

definition printed_line :: "SpecSchedule \<Rightarrow> string list" where
  "printed_line s =
     [printed_field secondBounds (sSecond s), printed_field minuteBounds (sMinute s),
      printed_field hourBounds (sHour s), printed_field dayOfMonthBounds (sDom s),
      printed_field monthBounds (sMonth s), printed_field dayOfWeekBounds (sDow s)]"

lemma spec_String_printed:
  assumes "well_formed_spec s"
  shows "spec_String s = Ret (Join (printed_line s) '' '')"
  using assms by (simp add: spec_String_def printed_line_def printed_field_def well_formed_spec_def
      fieldString_eq del: Join.simps)

definition six_fields :: "SpecParser \<Rightarrow> bool" where
  "six_fields p \<longleftrightarrow> list_all (enabled (p_options p)) places \<and>
     \<not> enabled (p_options p) SecondOptional \<and> \<not> enabled (p_options p) DowOptional"

lemma normalizeFields_six:
  assumes "six_fields p" "length xs = 6"
  shows "normalizeFields xs (p_options p) = Ret xs"
proof -
  have e: "list_all (enabled (p_options p)) places" and s: "selected (p_options p) = p_options p"
    using assms(1) by (simp_all add: six_fields_def selected_def)
  obtain a b c d f g where xs: "xs = [a, b, c, d, f, g]"
    using assms(2) by (auto simp: numeral_eq_Suc length_Suc_conv)
  have "selected_count (p_options p) = 6"
    using e by (simp add: selected_count_def s places_def)
  then show ?thesis
    using e assms(1) by (simp add: normalizeFields_eq reference_fields_def six_fields_def s xs
        places_def defaults_def)
qed

lemma FormatUint_first:
  "Join (map (\<lambda>n. FormatUint (int n)) (n # ns)) '','' \<noteq> [] \<and>
   is_digit (hd (Join (map (\<lambda>n. FormatUint (int n)) (n # ns)) '',''))"
  using is_digit_hd_FormatUint [of "int n"] is_digit_hd_FormatUint [of "int n" "[]"]
  by (cases ns) auto

lemma printed_field_head:
  assumes "field_values r w \<noteq> []"
  shows "hd (printed_field r w) = CHR ''*'' \<or> is_digit (hd (printed_field r w))"
proof -
  obtain n ns where "field_values r w = n # ns" using assms by (cases "field_values r w") auto
  then show ?thesis using FormatUint_first [of n ns] by (auto simp: printed_field_def)
qed

lemma HasPrefix_head: "HasPrefix s (c # p) \<Longrightarrow> hd s = c \<and> s \<noteq> []"
  by (cases s) (auto simp: HasPrefix_def)

lemma Parse_printed:
  assumes "well_formed_spec s" "no_empty_field s" "six_fields p"
  shows "Parse known p (Join (printed_line s) '' '') = Ret (Spec (reread s))"
proof -
  let ?l = "Join (printed_line s) '' ''"
  have w: "list_all plain_word (printed_line s)"
    using assms(2) by (simp add: printed_line_def no_empty_field_def printed_field_plain)
  let ?x = "printed_field secondBounds (sSecond s)"
  have h: "hd ?x = CHR ''*'' \<or> is_digit (hd ?x)" and n: "?x \<noteq> []"
    using assms(2) printed_field_head printed_field_plain [of secondBounds "sSecond s"]
    by (auto simp: no_empty_field_def plain_word_def)
  have hd: "hd ?l = hd ?x" "?l \<noteq> []" using n by (simp_all add: printed_line_def)
  have letters: "\<not> is_digit (CHR ''T'')" "\<not> is_digit (CHR ''C'')" "\<not> is_digit (CHR ''@'')"
    by (simp_all add: is_digit_def)
  have pre: "\<not> HasPrefix ?l ''TZ=''" "\<not> HasPrefix ?l ''CRON_TZ=''" "\<not> HasPrefix ?l ''@''"
    using h hd letters by (auto dest!: HasPrefix_head)
  have "parseScheduleFields (printed_line s) Local = Ret (reread s)"
    using assms(1) by (simp add: parseScheduleFields_def index_def printed_line_def getField_printed
        well_formed_spec_def reread_def)
  moreover have "normalizeFields (printed_line s) (p_options p) = Ret (printed_line s)"
    by (rule normalizeFields_six [OF assms(3)]) (simp add: printed_line_def)
  ultimately show ?thesis
    using pre hd(2) by (simp add: Parse_def extractLocation_def Fields_plain_words [OF w])
qed

text \<open>
  C24: a well-formed schedule without an empty field prints as a line that a six-field parser
  accepts, and what that gives has the same values in every field; only the star bits (set where a
  field is full) and the location (lost) can differ.
\<close>

theorem String_round_trip:
  assumes "well_formed_spec s" "no_empty_field s" "six_fields p"
  shows "\<exists>line. spec_String s = Ret line \<and> Parse known p line = Ret (Spec (reread s))"
  using spec_String_printed [OF assms(1)] Parse_printed [OF assms] by blast

text \<open>\<open>0 0 9 * * 1,3,5\<close>, nine o'clock on Mondays, Wednesdays and Fridays.\<close>

definition seconds_parser :: SpecParser where
  "seconds_parser = \<lparr>p_options = Second OR Minute OR Hour OR Dom OR Month OR Dow OR Descriptor\<rparr>"

definition weekdays_spec :: SpecSchedule where
  "weekdays_spec = \<lparr>sSecond = 1, sMinute = 1, sHour = 512, sDom = 9223372041149743102,
     sMonth = 9223372036854783998, sDow = 42, sLocation = Some Local\<rparr>"

lemma weekdays_parse: "Parse known seconds_parser ''0 0 9 * * 1,3,5'' = Ret (Spec weekdays_spec)"
  by code_simp

lemma weekdays_fields: "no_empty_field weekdays_spec" "six_fields seconds_parser"
  "reread weekdays_spec = weekdays_spec"
  by code_simp+

lemma weekdays_well_formed: "well_formed_spec weekdays_spec"
  using Parse_well_formed_lemma [OF weekdays_parse] by simp

theorem String_round_trip_witness:
  "\<exists>line. spec_String weekdays_spec = Ret line \<and>
    Parse (\<lambda>_. False) seconds_parser line = Ret (Spec weekdays_spec)"
  using String_round_trip [OF weekdays_well_formed weekdays_fields(1,2), of "\<lambda>_. False"]
  by (simp add: weekdays_fields(3))

subsection \<open>What the round trip loses\<close>

text \<open>\<open>0 0 1-31 * 1\<close>: every day of the month or Mondays, that is every day.\<close>

definition every_day_or_monday :: SpecSchedule where
  "every_day_or_monday = \<lparr>sSecond = 1, sMinute = 1, sHour = 1, sDom = 4294967294,
     sMonth = 9223372036854783998, sDow = 2, sLocation = Some Local\<rparr>"

definition monday_only :: SpecSchedule where
  "monday_only = every_day_or_monday\<lparr>sDom := 9223372041149743102\<rparr>"

lemma every_day_parse: "Parse known seconds_parser ''0 0 0 1-31 * 1'' = Ret (Spec every_day_or_monday)"
  by code_simp

lemma every_day_printed:
  "printed_line every_day_or_monday = [''0'', ''0'', ''0'', ''*'', ''*'', ''1'']"
  by code_simp

lemma every_day_string: "spec_String every_day_or_monday = Ret ''0 0 0 * * 1''"
proof -
  have "well_formed_spec every_day_or_monday"
    using Parse_well_formed_lemma [OF every_day_parse] by simp
  then show ?thesis by (simp add: spec_String_printed every_day_printed)
qed

lemma monday_parse: "Parse known seconds_parser ''0 0 0 * * 1'' = Ret (Spec monday_only)"
  by code_simp

text \<open>January 2 of the year 1 is a Tuesday.\<close>

definition tuesday :: gotime where
  "tuesday = \<lparr>tsec = 86400, tnsec = 0, tloc = UTC\<rparr>"

lemma tuesday_matches:
  "dayMatches utc_tz every_day_or_monday tuesday" "\<not> dayMatches utc_tz monday_only tuesday"
  by code_simp+

text \<open>
  Printing drops the distinction between \<open>1-31\<close> and \<open>*\<close> although the star bit decides how
  the two day fields combine: \<open>0 0 0 1-31 * 1\<close> is active every day, prints as \<open>0 0 0 * * 1\<close>,
  and that line parses to a schedule of Mondays only.
\<close>

lemma String_changes_days:
  "\<exists>s line s'. Parse known seconds_parser ''0 0 0 1-31 * 1'' = Ret (Spec s) \<and>
     spec_String s = Ret line \<and> Parse known seconds_parser line = Ret (Spec s') \<and>
     dayMatches utc_tz s tuesday \<and> \<not> dayMatches utc_tz s' tuesday"
  using every_day_parse every_day_string monday_parse tuesday_matches by blast

end

