(* ===== verification/System_Clock.thy ===== *)
theory System_Clock
  imports Cron_Late
begin

text \<open>
  clock.go: the interfaces \<open>Clock\<close> and \<open>Timer\<close>, the clock of the system, and \<open>processSchedulerEvent\<close>
  driven by a clock. The locale \<open>clock_contract\<close> states what the interfaces document; what the loop
  does with a clock is proved once from it, and the system clock meets it.
\<close>

subsection \<open>Timers of the package time\<close>

text \<open>
  A \<open>time.Timer\<close> is armed until its time or holds a value that waits to be received; \<open>Stop\<close> takes that
  back, too (as of Go 1.23), and tells whether there was anything to stop. The machine has the wall
  clock, which is not set back, and the timers made so far.
\<close>

record std_timer =
  armed :: "int option"
  buffered :: "gotime option"

record machine =
  wall :: gotime
  timers :: "nat \<Rightarrow> std_timer"
  made :: nat

definition set_timer :: "nat \<Rightarrow> std_timer \<Rightarrow> machine \<Rightarrow> machine" where
  "set_timer k t m = m\<lparr>timers := (timers m)(k := t)\<rparr>"

definition go_Now :: "machine \<Rightarrow> gotime" where
  "go_Now m = wall m"

definition go_NewTimer :: "int \<Rightarrow> machine \<Rightarrow> nat \<times> machine" where
  "go_NewTimer d m =
     (made m, set_timer (made m) \<lparr>armed = Some (instant (wall m) + max d 0), buffered = None\<rparr> m\<lparr>made := made m + 1\<rparr>)"

definition go_receive :: "nat \<Rightarrow> machine \<Rightarrow> (gotime \<times> machine) option" where
  "go_receive k m =
     map_option (\<lambda>u. (u, set_timer k ((timers m k)\<lparr>buffered := None\<rparr>) m)) (buffered (timers m k))"

definition go_Stop :: "nat \<Rightarrow> machine \<Rightarrow> bool \<times> machine" where
  "go_Stop k m =
     (armed (timers m k) \<noteq> None \<or> buffered (timers m k) \<noteq> None,
      set_timer k \<lparr>armed = None, buffered = None\<rparr> m)"

text \<open>
  What happens meanwhile: time goes by, or a timer whose time has come sends a time that is not before
  it and not in the future.
\<close>

inductive passes :: "machine \<Rightarrow> machine \<Rightarrow> bool" where
  tick: "valid_time t \<Longrightarrow> instant (wall m) \<le> instant t \<Longrightarrow> passes m (m\<lparr>wall := t\<rparr>)"
| send: "armed (timers m k) = Some d \<Longrightarrow> valid_time u \<Longrightarrow> d \<le> instant u \<Longrightarrow> instant u \<le> instant (wall m) \<Longrightarrow>
    passes m (set_timer k \<lparr>armed = None, buffered = Some u\<rparr> m)"

subsection \<open>The interfaces\<close>

record ('m, 't) Clock =
  clock_Now :: "'m \<Rightarrow> gotime"
  clock_NewTimer :: "int \<Rightarrow> 'm \<Rightarrow> 't \<times> 'm"
  timer_C :: "'t \<Rightarrow> 'm \<Rightarrow> (gotime \<times> 'm) option"
  timer_Stop :: "'t \<Rightarrow> 'm \<Rightarrow> bool \<times> 'm"

record systemTimer =
  Timer :: nat

definition systemClock_Now :: "machine \<Rightarrow> gotime" where
  "systemClock_Now m = go_Now m"

definition systemClock_NewTimer :: "int \<Rightarrow> machine \<Rightarrow> systemTimer \<times> machine" where
  "systemClock_NewTimer d m = (let (timer, m') = go_NewTimer d m in (\<lparr>Timer = timer\<rparr>, m'))"

definition systemTimer_C :: "systemTimer \<Rightarrow> machine \<Rightarrow> (gotime \<times> machine) option" where
  "systemTimer_C t = go_receive (Timer t)"

definition systemTimer_Stop :: "systemTimer \<Rightarrow> machine \<Rightarrow> bool \<times> machine" where
  "systemTimer_Stop t = go_Stop (Timer t)"

definition SystemClock :: "(machine, systemTimer) Clock" where
  "SystemClock =
     \<lparr>clock_Now = systemClock_Now, clock_NewTimer = systemClock_NewTimer,
      timer_C = systemTimer_C, timer_Stop = systemTimer_Stop\<rparr>"

subsection \<open>The scheduler loop with a clock\<close>

text \<open>
  One call of \<open>processSchedulerEvent\<close>, on a machine with the time, the entries and the log of
  Cron_Late; the second argument is what it returns, whether the loop should stop. \<open>idles\<close> is what can
  happen on the machine while the goroutine waits; an entry to add is as in Cron_Late. The timer is stopped in the end in every case.
\<close>

inductive processSchedulerEvent ::
  "('m, 't) Clock \<Rightarrow> ('m \<Rightarrow> 'm \<Rightarrow> bool) \<Rightarrow> location \<Rightarrow>
    'm \<times> gotime \<times> 'j Entry list \<times> 'j happening list \<Rightarrow> bool \<Rightarrow>
    'm \<times> gotime \<times> 'j Entry list \<times> 'j happening list \<Rightarrow> bool"
  for clock idles loc where
  fired: "clock_NewTimer clock (newSchedulerTimer (sortEntriesByNext es) now) m = (timer, m1) \<Longrightarrow>
    idles\<^sup>*\<^sup>* m1 m2 \<Longrightarrow> timer_C clock timer m2 = Some (firedAt, m3) \<Longrightarrow>
    handleTimerFired loc firedAt (sortEntriesByNext es) = Ret (now', started, es') \<Longrightarrow>
    timer_Stop clock timer m3 = (b, m4) \<Longrightarrow> idles\<^sup>*\<^sup>* m4 m5 \<Longrightarrow>
    processSchedulerEvent clock idles loc (m, now, es, log) False (m5, now', es', Ran now' started # log)"
| added: "clock_NewTimer clock (newSchedulerTimer (sortEntriesByNext es) now) m = (timer, m1) \<Longrightarrow>
    idles\<^sup>*\<^sup>* m1 m2 \<Longrightarrow> lawful_entry loc e \<Longrightarrow> ID e \<notin> entered log \<Longrightarrow>
    now' = go_In (clock_Now clock m2) loc \<Longrightarrow> handleEntryAdded now' e (sortEntriesByNext es) = Ret es' \<Longrightarrow>
    timer_Stop clock timer m2 = (b, m3) \<Longrightarrow> idles\<^sup>*\<^sup>* m3 m4 \<Longrightarrow>
    processSchedulerEvent clock idles loc (m, now, es, log) False (m4, now', es', Entered now' (ID e) # log)"
| cancelled: "clock_NewTimer clock (newSchedulerTimer (sortEntriesByNext es) now) m = (timer, m1) \<Longrightarrow>
    idles\<^sup>*\<^sup>* m1 m2 \<Longrightarrow> timer_Stop clock timer m2 = (b, m3) \<Longrightarrow>
    processSchedulerEvent clock idles loc (m, now, es, log) True (m3, now, sortEntriesByNext es, log)"
| removed: "clock_NewTimer clock (newSchedulerTimer (sortEntriesByNext es) now) m = (timer, m1) \<Longrightarrow>
    idles\<^sup>*\<^sup>* m1 m2 \<Longrightarrow>
    handleEntryRemoved loc (clock_Now clock m2) i (sortEntriesByNext es) = (now', es') \<Longrightarrow>
    timer_Stop clock timer m2 = (b, m3) \<Longrightarrow> idles\<^sup>*\<^sup>* m3 m4 \<Longrightarrow>
    processSchedulerEvent clock idles loc (m, now, es, log) False (m4, now', es', Departed now' i # log)"

text \<open>The iterations of \<open>schedulerLoop\<close> before the one that stops.\<close>

definition loop_event ::
  "('m, 't) Clock \<Rightarrow> ('m \<Rightarrow> 'm \<Rightarrow> bool) \<Rightarrow> location \<Rightarrow>
    'm \<times> gotime \<times> 'j Entry list \<times> 'j happening list \<Rightarrow>
    'm \<times> gotime \<times> 'j Entry list \<times> 'j happening list \<Rightarrow> bool" where
  "loop_event clock idles loc s s' \<longleftrightarrow> processSchedulerEvent clock idles loc s False s'"

text \<open>The time of the loop is not ahead of the clock.\<close>

definition in_step ::
  "('m, 't) Clock \<Rightarrow> ('m \<Rightarrow> bool) \<Rightarrow> 'm \<times> gotime \<times> 'j Entry list \<times> 'j happening list \<Rightarrow> bool" where
  "in_step clock ok s \<longleftrightarrow>
     (case s of (m, now, _) \<Rightarrow> ok m \<and> valid_time now \<and> instant now \<le> instant (clock_Now clock m))"

text \<open>
  The contract: readings do not go back, a timer delivers nothing before its time and nothing once it
  is stopped, and it does fire. \<open>live\<close> are the timers that still hold resources.
\<close>

locale clock_contract =
  fixes clock :: "('m, 't) Clock" and idles :: "'m \<Rightarrow> 'm \<Rightarrow> bool" and ok :: "'m \<Rightarrow> bool"
    and live_timers :: "'m \<Rightarrow> 't set"
  assumes reading: "ok m \<Longrightarrow> valid_time (clock_Now clock m)"
    and idling: "ok m \<Longrightarrow> idles m m' \<Longrightarrow>
      ok m' \<and> instant (clock_Now clock m) \<le> instant (clock_Now clock m') \<and> live_timers m' \<subseteq> live_timers m"
    and starting: "ok m \<Longrightarrow> clock_NewTimer clock d m = (t, m') \<Longrightarrow>
      ok m' \<and> clock_Now clock m' = clock_Now clock m \<and> live_timers m' \<subseteq> insert t (live_timers m)"
    and receiving: "ok m \<Longrightarrow> clock_NewTimer clock d m = (t, m1) \<Longrightarrow> idles\<^sup>*\<^sup>* m1 m2 \<Longrightarrow>
      timer_C clock t m2 = Some (u, m3) \<Longrightarrow>
      ok m3 \<and> clock_Now clock m3 = clock_Now clock m2 \<and> live_timers m3 \<subseteq> live_timers m2 \<and> valid_time u \<and>
      instant (clock_Now clock m) + max d 0 \<le> instant u \<and> instant u \<le> instant (clock_Now clock m3)"
    and stopping: "ok m \<Longrightarrow> timer_Stop clock t m = (b, m') \<Longrightarrow>
      ok m' \<and> clock_Now clock m' = clock_Now clock m \<and> live_timers m' \<subseteq> live_timers m - {t}"
    and firing: "ok m \<Longrightarrow> clock_NewTimer clock d m = (t, m1) \<Longrightarrow>
      \<exists>m2 u m3. idles\<^sup>*\<^sup>* m1 m2 \<and> timer_C clock t m2 = Some (u, m3)"
begin

lemma idling_all:
  "idles\<^sup>*\<^sup>* m m' \<Longrightarrow> ok m \<Longrightarrow>
   ok m' \<and> instant (clock_Now clock m) \<le> instant (clock_Now clock m') \<and> live_timers m' \<subseteq> live_timers m"
proof (induction rule: rtranclp_induct)
  case (step m' m'')
  then show ?case using idling [of m' m''] by auto
qed simp

text \<open>The timer that a call waits for, up to the end of the wait.\<close>

lemma waiting:
  assumes "ok m" "clock_NewTimer clock d m = (t, m1)" "idles\<^sup>*\<^sup>* m1 m2"
  shows "ok m2 \<and> instant (clock_Now clock m) \<le> instant (clock_Now clock m2) \<and>
    live_timers m2 \<subseteq> insert t (live_timers m)"
  using starting [OF assms(1,2)] idling_all [OF assms(3)] by auto

lemma settling:
  assumes "ok m" "timer_Stop clock t m = (b, m1)" "idles\<^sup>*\<^sup>* m1 m2" "live_timers m \<subseteq> insert t ts"
  shows "ok m2 \<and> instant (clock_Now clock m) \<le> instant (clock_Now clock m2) \<and> live_timers m2 \<subseteq> ts"
  using stopping [OF assms(1,2)] idling_all [OF assms(3)] assms(4) by auto

lemma event_late:
  assumes "processSchedulerEvent clock idles loc (m, s) False (m', s')" "in_step clock ok (m, s)"
  shows "late None loc s s' \<and> in_step clock ok (m', s') \<and> live_timers m' \<subseteq> live_timers m"
  using assms(1)
proof cases
  case (fired es now timer m1 m2 firedAt m3 now' started es' b m4 log)
  have m: "ok m" "valid_time now" "instant now \<le> instant (clock_Now clock m)"
    using assms(2) fired(1) by (simp_all add: in_step_def)
  note r = receiving [OF m(1) fired(3-5)]
  have "on_time None (timer_fires now es) firedAt"
    using r m fires_props(2) [OF m(2), of "max (newSchedulerTimer (sortEntriesByNext es) now) 0"]
    by (simp add: on_time_def timer_fires_def fires_def)
  then have "late None loc s s'" unfolding fired(1,2) using r fired(6) by (intro late.fired) simp_all
  moreover have "now' = go_In firedAt loc" using fired(6) by (auto simp: handleTimerFired_def Let_def and_then_eq_Ret)
  moreover have "live_timers m3 \<subseteq> insert timer (live_timers m)" using waiting [OF m(1) fired(3,4)] r by blast
  note settling [OF _ fired(7,8) this]
  ultimately show ?thesis using r in_location_In [of firedAt loc]
    by (auto simp: in_step_def fired(2) in_location_def)
next
  case (added es now timer m1 m2 e log now' es' b m3)
  have m: "ok m" "valid_time now" "instant now \<le> instant (clock_Now clock m)"
    using assms(2) added(1) by (simp_all add: in_step_def)
  note w = waiting [OF m(1) added(3,4)]
  have v: "valid_time (clock_Now clock m2)" using w reading by blast
  have "meanwhile None now es (clock_Now clock m2)" using w m v by (simp add: meanwhile_def)
  then have "late None loc s s'" unfolding added(1,2) using added(5-8) by (intro late.added)
  then show ?thesis using settling [OF _ added(9,10), of "live_timers m"] w in_location_In(1) [OF v, of loc] in_location_In(2) [of "clock_Now clock m2" loc]
    by (auto simp: in_step_def added(2,7) in_location_def)
next
  case (removed es now timer m1 m2 i now' es' b m3 log)
  have m: "ok m" "valid_time now" "instant now \<le> instant (clock_Now clock m)"
    using assms(2) removed(1) by (simp_all add: in_step_def)
  note w = waiting [OF m(1) removed(3,4)]
  have v: "valid_time (clock_Now clock m2)" using w reading by blast
  have "meanwhile None now es (clock_Now clock m2)" using w m v by (simp add: meanwhile_def)
  then have "late None loc s s'" unfolding removed(1,2) using removed(5) by (rule late.removed)
  moreover have "now' = go_In (clock_Now clock m2) loc" using removed(5) by (simp add: handleEntryRemoved_def Let_def)
  ultimately show ?thesis using settling [OF _ removed(6,7), of "live_timers m"] w in_location_In(1) [OF v, of loc] in_location_In(2) [of "clock_Now clock m2" loc]
    by (auto simp: in_step_def removed(2) in_location_def)
qed simp

lemma events_late:
  assumes "(loop_event clock idles loc)\<^sup>*\<^sup>* (m, s) (m', s')" "in_step clock ok (m, s)"
  shows "(late None loc)\<^sup>*\<^sup>* s s' \<and> in_step clock ok (m', s') \<and> live_timers m' \<subseteq> live_timers m"
  using assms
proof (induction rule: rtranclp_induct2)
  case (step m1 s1 m2 s2)
  then have IH: "(late None loc)\<^sup>*\<^sup>* s s1" "in_step clock ok (m1, s1)" "live_timers m1 \<subseteq> live_timers m"
    by simp_all
  have "late None loc s1 s2 \<and> in_step clock ok (m2, s2) \<and> live_timers m2 \<subseteq> live_timers m1"
    using event_late [OF _ IH(2)] step.hyps(2) by (simp add: loop_event_def)
  then show ?case using IH by (meson order_trans rtranclp.rtrancl_into_rtrancl)
qed simp

text \<open>A call that stops the loop leaves no timer of its own.\<close>

lemma cancelled_quiet:
  assumes "processSchedulerEvent clock idles loc (m, now, es, log) True (m', s)" "ok m"
  shows "live_timers m' \<subseteq> live_timers m \<and> s = (now, sortEntriesByNext es, log)"
  using assms(1)
proof cases
  case (cancelled timer m1 m2 b)
  then show ?thesis using waiting [OF assms(2) cancelled(2,3)] stopping [OF _ cancelled(4)] by blast
qed simp_all

lemma event_possible:
  assumes "tracked None loc (now, es, log)" "in_step clock ok (m, now, es, log)"
  shows "\<exists>s'. loop_event clock idles loc (m, now, es, log) s'"
proof -
  let ?d = "newSchedulerTimer (sortEntriesByNext es) now"
  have m: "ok m" "instant now \<le> instant (clock_Now clock m)" "valid_time now"
    using assms(2) by (simp_all add: in_step_def)
  obtain t m1 where t: "clock_NewTimer clock ?d m = (t, m1)" by fastforce
  obtain m2 u m3 where u: "idles\<^sup>*\<^sup>* m1 m2" "timer_C clock t m2 = Some (u, m3)"
    using firing [OF m(1) t] by blast
  obtain b m4 where s: "timer_Stop clock t m3 = (b, m4)" by fastforce
  have "on_time None (timer_fires now es) u" "valid_time u"
    using receiving [OF m(1) t u] m fires_props(2) [OF m(3), of "max ?d 0"]
    by (simp_all add: on_time_def timer_fires_def fires_def)
  from fires_tracked(1) [OF assms(1) this(2,1)] show ?thesis
    unfolding loop_event_def by (blast intro: processSchedulerEvent.fired [OF t u _ s])
qed

end

subsection \<open>The system clock meets the contract\<close>

definition live_timers :: "machine \<Rightarrow> systemTimer set" where
  "live_timers m =
     {t. armed (timers m (Timer t)) \<noteq> None \<or> buffered (timers m (Timer t)) \<noteq> None}"

definition machine_ok :: "machine \<Rightarrow> bool" where
  "machine_ok m \<longleftrightarrow> valid_time (wall m)"

lemma SystemClock_sel [simp]:
  "clock_Now SystemClock = wall" "clock_NewTimer SystemClock = systemClock_NewTimer"
  "timer_C SystemClock = systemTimer_C" "timer_Stop SystemClock = systemTimer_Stop"
  by (simp_all add: SystemClock_def systemClock_Now_def [abs_def] go_Now_def)

lemmas timer_ops = systemClock_NewTimer_def systemTimer_C_def systemTimer_Stop_def go_NewTimer_def
  go_receive_def go_Stop_def set_timer_def live_timers_def machine_ok_def

lemma timer_eq: "t = \<lparr>Timer = k\<rparr> \<longleftrightarrow> Timer t = k"
  by (cases t) simp

text \<open>A timer that was asked for at \<open>D\<close> while it runs.\<close>

definition running_timer :: "nat \<Rightarrow> int \<Rightarrow> machine \<Rightarrow> bool" where
  "running_timer k D m \<longleftrightarrow>
     (case buffered (timers m k) of
        None \<Rightarrow> armed (timers m k) = Some D
      | Some u \<Rightarrow> armed (timers m k) = None \<and> valid_time u \<and> D \<le> instant u \<and> instant u \<le> instant (wall m))"

lemma passes_running: "passes m m' \<Longrightarrow> running_timer k D m \<Longrightarrow> running_timer k D m'"
  by (induction rule: passes.induct) (auto simp: running_timer_def set_timer_def split: option.splits)

lemma passes_all_running: "passes\<^sup>*\<^sup>* m m' \<Longrightarrow> running_timer k D m \<Longrightarrow> running_timer k D m'"
  by (induction rule: rtranclp_induct) (auto intro: passes_running)

lemma passes_ok:
  "passes m m' \<Longrightarrow> machine_ok m \<Longrightarrow>
   machine_ok m' \<and> instant (wall m) \<le> instant (wall m') \<and> live_timers m' \<subseteq> live_timers m"
  by (induction rule: passes.induct) (auto simp: timer_ops)

lemma passes_all_ok: "passes\<^sup>*\<^sup>* m m' \<Longrightarrow> machine_ok m \<Longrightarrow> machine_ok m'"
  by (induction rule: rtranclp_induct) (auto dest: passes_ok)

lemma started_running:
  "systemClock_NewTimer d m = (t, m') \<Longrightarrow> running_timer (Timer t) (instant (wall m) + max d 0) m'"
  by (auto simp: timer_ops running_timer_def)

lemma timer_fires_eventually:
  assumes "machine_ok m" "systemClock_NewTimer d m = (t, m1)"
  shows "\<exists>m2 u m3. passes\<^sup>*\<^sup>* m1 m2 \<and> systemTimer_C t m2 = Some (u, m3)"
proof -
  let ?D = "fires (wall m) d"
  have D: "valid_time ?D" "instant ?D = instant (wall m) + max d 0"
    using fires_props(1,2) [of "wall m" "max d 0"] assms(1) by (simp_all add: machine_ok_def fires_def)
  let ?m2 = "m1\<lparr>wall := ?D\<rparr>"
  have "passes m1 ?m2" using assms(2) D by (intro passes.tick) (auto simp: timer_ops)
  moreover have "passes ?m2 (set_timer (Timer t) \<lparr>armed = None, buffered = Some ?D\<rparr> ?m2)"
    using assms(2) D by (intro passes.send) (auto simp: timer_ops)
  ultimately have "passes\<^sup>*\<^sup>* m1 (set_timer (Timer t) \<lparr>armed = None, buffered = Some ?D\<rparr> ?m2)"
    by (rule converse_rtranclp_into_rtranclp [OF _ r_into_rtranclp])
  moreover have "\<exists>u m3. systemTimer_C t (set_timer (Timer t) \<lparr>armed = None, buffered = Some ?D\<rparr> ?m2) = Some (u, m3)"
    by (simp add: timer_ops)
  ultimately show ?thesis by blast
qed

interpretation system: clock_contract SystemClock passes machine_ok live_timers
proof
  fix m m' :: machine and d t
  assume "machine_ok m" "clock_NewTimer SystemClock d m = (t, m')"
  then show "machine_ok m' \<and> clock_Now SystemClock m' = clock_Now SystemClock m \<and>
      live_timers m' \<subseteq> insert t (live_timers m)"
    by (auto simp: timer_ops timer_eq split: if_splits)
next
  fix m m1 m2 m3 :: machine and d t u
  assume a: "machine_ok m" "clock_NewTimer SystemClock d m = (t, m1)" "passes\<^sup>*\<^sup>* m1 m2"
    "timer_C SystemClock t m2 = Some (u, m3)"
  then have "running_timer (Timer t) (instant (wall m) + max d 0) m2"
    using passes_all_running started_running by simp
  moreover have "machine_ok m2"
    using a(1-3) by (intro passes_all_ok [OF a(3)]) (auto simp: timer_ops)
  ultimately show "machine_ok m3 \<and> clock_Now SystemClock m3 = clock_Now SystemClock m2 \<and>
      live_timers m3 \<subseteq> live_timers m2 \<and> valid_time u \<and>
      instant (clock_Now SystemClock m) + max d 0 \<le> instant u \<and> instant u \<le> instant (clock_Now SystemClock m3)"
    using a(4) by (auto simp: timer_ops running_timer_def split: if_splits)
next
  fix m m' :: machine and t b
  assume "machine_ok m" "timer_Stop SystemClock t m = (b, m')"
  then show "machine_ok m' \<and> clock_Now SystemClock m' = clock_Now SystemClock m \<and>
      live_timers m' \<subseteq> live_timers m - {t}"
    by (auto simp: timer_ops timer_eq split: if_splits)
qed (use passes_ok timer_fires_eventually in \<open>auto simp: machine_ok_def\<close>)

text \<open>
  C6: the scheduler loop on the system clock. However the goroutine is delayed and whatever else
  happens, jobs are started at or after their activations as \<open>delayed_schedule\<close> says, the loop's time is
  never ahead of the clock, some event can always happen next, and no timer outlives the call of
  \<open>processSchedulerEvent\<close> that made it, in the last call included.
\<close>

theorem system_clock_loop:
  assumes "list_all (lawful_entry loc) es" "distinct (map ID es)" "machine_ok m0"
    and "t0 = go_In (clock_Now SystemClock m0) loc" "initializeEntries t0 es = Ret es0" "passes\<^sup>*\<^sup>* m0 m1"
    and "(loop_event SystemClock passes loc)\<^sup>*\<^sup>* (m1, begun t0 es0) (m, now, es', log)"
  shows "list_all (delayed_schedule None log) es' \<and> none_overdue now es' log \<and>
    instant now \<le> instant (clock_Now SystemClock m) \<and> live_timers m \<subseteq> live_timers m0 \<and>
    (\<exists>s. loop_event SystemClock passes loc (m, now, es', log) s) \<and>
    (\<forall>m' s. processSchedulerEvent SystemClock passes loc (m, now, es', log) True (m', s) \<longrightarrow>
       live_timers m' \<subseteq> live_timers m0)"
proof -
  have t0: "valid_time t0" "tloc t0 = loc" "instant t0 = instant (clock_Now SystemClock m0)"
    using in_location_In(1) [of "wall m0" loc] in_location_In(2) [of "wall m0" loc] assms(3,4)
    by (simp_all add: machine_ok_def in_location_def)
  note p = system.idling_all [OF assms(6,3)]
  then have "in_step SystemClock machine_ok (m1, begun t0 es0)" using t0 by (simp add: in_step_def begun_def)
  note run = system.events_late [OF assms(7) this]
  have t: "tracked None loc (now, es', log)"
    using late_steps_tracked [OF _ begun_tracked [OF assms(1,2) t0(1,2) assms(5)]] run by blast
  have "live_timers m \<subseteq> live_timers m0" using run p by blast
  moreover have "live_timers m' \<subseteq> live_timers m0"
    if "processSchedulerEvent SystemClock passes loc (m, now, es', log) True (m', s)" for m' s
    using system.cancelled_quiet [OF that] run p by (auto simp: in_step_def)
  ultimately show ?thesis
    using tracked_delayed [OF t] trackedD(7) [OF t] run system.event_possible [OF t] by (auto simp: list_all_iff in_step_def)
qed

text \<open>The entry of Cron_Late, on a machine that adds it at second 5 and is stalled until second 37.\<close>

definition machine_at :: "int \<Rightarrow> nat \<Rightarrow> machine" where
  "machine_at s k = \<lparr>wall = second s, timers = (\<lambda>_. \<lparr>armed = None, buffered = None\<rparr>), made = k\<rparr>"

lemma machine_at_tick:
  assumes "wall m = second a" "a \<le> b"
  shows "passes\<^sup>*\<^sup>* m (m\<lparr>wall := second b\<rparr>)"
  by (rule r_into_rtranclp, rule passes.tick) (use assms in \<open>simp_all add: second_time\<close>)

lemma machine_at_events:
  "loop_event SystemClock passes UTC (machine_at 0 0, second 0, [], [])
     (machine_at 5 1, second 5, [ten 15 zero_time], [Entered (second 5) 1])"
  "loop_event SystemClock passes UTC (machine_at 5 1, second 5, [ten 15 zero_time], log)
     (machine_at 37 2, second 37, [ten 47 (second 15)], Ran (second 37) [ten 15 zero_time] # log)"
proof -
  let ?q = "\<lparr>armed = None, buffered = None\<rparr> :: std_timer"
  have q: "(\<lambda>_. ?q)(k := ?q) = (\<lambda>_. ?q)" for k :: nat by (rule ext) simp
  let ?m1 = "set_timer 0 \<lparr>armed = Some (idleTimerDuration), buffered = None\<rparr> (machine_at 0 1)"
  show "loop_event SystemClock passes UTC (machine_at 0 0, second 0, [], [])
     (machine_at 5 1, second 5, [ten 15 zero_time], [Entered (second 5) 1])"
    unfolding loop_event_def
  proof (rule processSchedulerEvent.added [where e = "ten 0 zero_time" and timer = "\<lparr>Timer = 0\<rparr>" and ?m1.0 = ?m1
        and ?m2.0 = "?m1\<lparr>wall := second 5\<rparr>" and ?m3.0 = "machine_at 5 1" and b = True, simplified ten_sel])
    show "clock_NewTimer SystemClock (newSchedulerTimer (sortEntriesByNext ([] :: unit Entry list)) (second 0)) (machine_at 0 0) =
        (\<lparr>Timer = 0\<rparr>, ?m1)"
      by (simp add: timer_ops machine_at_def newSchedulerTimer_def sortEntriesByNext_key second_time idleTimerDuration_def)
    show "passes\<^sup>*\<^sup>* ?m1 (?m1\<lparr>wall := second 5\<rparr>)"
      by (rule machine_at_tick [of _ 0]) (simp_all add: machine_at_def set_timer_def)
  qed (simp_all add: second_In entered_def handleEntryAdded_def sortEntriesByNext_key ten_sel ten_update timer_ops machine_at_def q)
  let ?n1 = "set_timer 1 \<lparr>armed = Some (15 * nanos), buffered = None\<rparr> (machine_at 5 2)"
  let ?n2 = "?n1\<lparr>wall := second 37\<rparr>"
  let ?n3 = "set_timer 1 \<lparr>armed = None, buffered = Some (second 37)\<rparr> ?n2"
  have "passes ?n2 ?n3" by (rule passes.send [of _ _ "15 * nanos"]) (simp_all add: set_timer_def machine_at_def second_time)
  moreover have "passes\<^sup>*\<^sup>* ?n1 ?n2" by (rule machine_at_tick [of _ 5]) (simp_all add: machine_at_def set_timer_def)
  ultimately have wait: "passes\<^sup>*\<^sup>* ?n1 ?n3" by (rule rtranclp.rtrancl_into_rtrancl [rotated])
  show "loop_event SystemClock passes UTC (machine_at 5 1, second 5, [ten 15 zero_time], log)
     (machine_at 37 2, second 37, [ten 47 (second 15)], Ran (second 37) [ten 15 zero_time] # log)"
    unfolding loop_event_def
  proof (rule processSchedulerEvent.fired [OF _ wait, where timer = "\<lparr>Timer = 1\<rparr>" and firedAt = "second 37"
        and ?m3.0 = "machine_at 37 2" and ?m4.0 = "machine_at 37 2" and b = False])
    show "clock_NewTimer SystemClock (newSchedulerTimer (sortEntriesByNext [ten 15 zero_time]) (second 5)) (machine_at 5 1) =
        (\<lparr>Timer = 1\<rparr>, ?n1)"
      by (simp add: timer_ops machine_at_def newSchedulerTimer_def sortEntriesByNext_key ten_sel second_time go_Sub_def)
  qed (simp_all add: handleTimerFired_def Let_def second_In sortEntriesByNext_key ten_sel ten_update timer_ops machine_at_def q)
qed

theorem system_clock_loop_witness:
  "\<exists>log. (loop_event SystemClock passes UTC)\<^sup>*\<^sup>* (machine_at 0 0, begun (second 0) [])
       (machine_at 37 2, second 37, [ten 47 (second 15)], log) \<and>
     delayed_schedule None log (ten 47 (second 15)) \<and> history 1 log = Some [second 5, second 37]"
proof -
  let ?log = "[Ran (second 37) [ten 15 zero_time], Entered (second 5) 1]"
  have run: "(loop_event SystemClock passes UTC)\<^sup>*\<^sup>* (machine_at 0 0, begun (second 0) [])
      (machine_at 37 2, second 37, [ten 47 (second 15)], ?log)"
    unfolding begun_def list.map
    by (rule converse_rtranclp_into_rtranclp [OF machine_at_events(1) r_into_rtranclp [of "loop_event SystemClock passes UTC", OF machine_at_events(2)]])
  have "history 1 ?log = Some [second 5, second 37]" by (simp add: ten_sel)
  moreover have "machine_ok (machine_at 0 0)" "second 0 = go_In (clock_Now SystemClock (machine_at 0 0)) UTC"
    by (simp_all add: machine_ok_def machine_at_def second_time second_In)
  ultimately show ?thesis using system_clock_loop [OF _ _ _ _ _ rtranclp.rtrancl_refl run, of "[]"] run
    by (intro exI [of _ ?log]) simp
qed

end
