(* ===== verification/Cron_Options.thy ===== *)
theory Cron_Options
  imports Logging Spec_String System_Clock
begin

text \<open>
  option.go and \<open>New\<close>: the fields of a \<open>Cron\<close> that the options set and that do not change after.
  A nil interface or pointer is \<open>None\<close>. A logger is one of Logging; a clock is the system clock of
  System_Clock, or one of the client; what the parser takes from the time-zone data base is a parameter.
\<close>

type_synonym ('u) parser_iface = "string \<Rightarrow> (cron_error + 'u, gotime \<Rightarrow> gotime call) go"

record ('j, 'u, 'lg, 'ck, 'w, 'b) settings =
  s_location :: "location option"
  s_parser :: "'u parser_iface option"
  s_chain :: "'j Chain"
  s_logger :: "'lg option"
  s_clock :: "'ck option"
  s_onError :: "('w, 'b) ErrorFunc option"
  s_hooks :: "('w, 'b) EventHooks"

text \<open>A \<open>SpecParser\<close> as a \<open>Parser\<close>: its schedules are what their \<open>Next\<close> does.\<close>

definition spec_parser :: "tzdata \<Rightarrow> (string \<Rightarrow> bool) \<Rightarrow> SpecParser \<Rightarrow> 'u parser_iface" where
  "spec_parser tz known p spec = map_go Inl (schedule_Next tz) (Parse known p spec)"

subsection \<open>The options\<close>

type_synonym ('j, 'u, 'lg, 'ck, 'w, 'b) Option =
  "('j, 'u, 'lg, 'ck, 'w, 'b) settings \<Rightarrow> ('j, 'u, 'lg, 'ck, 'w, 'b) settings"

definition WithLocation :: "location option \<Rightarrow> ('j, 'u, 'lg, 'ck, 'w, 'b) Option" where
  "WithLocation loc st =
     (case loc of
        None \<Rightarrow> st\<lparr>s_location := Some Local\<rparr>
      | Some l \<Rightarrow> st\<lparr>s_location := Some l\<rparr>)"

definition WithParser :: "'u parser_iface option \<Rightarrow> ('j, 'u, 'lg, 'ck, 'w, 'b) Option" where
  "WithParser p st = (case p of None \<Rightarrow> st | Some q \<Rightarrow> st\<lparr>s_parser := Some q\<rparr>)"

definition WithSeconds ::
  "tzdata \<Rightarrow> (string \<Rightarrow> bool) \<Rightarrow> ('j, 'u, 'lg, 'ck, 'w, 'b) Option call" where
  "WithSeconds tz known =
     and_then (NewSpecParser (Second OR Minute OR Hour OR Dom OR Month OR Dow OR Descriptor)) (\<lambda>p.
       Ret (WithParser (Some (spec_parser tz known p))))"

definition WithChain :: "('j \<Rightarrow> 'j) list \<Rightarrow> ('j, 'u, 'lg, 'ck, 'w, 'b) Option" where
  "WithChain wrappers st = st\<lparr>s_chain := NewChain wrappers\<rparr>"

definition WithLogger :: "'lg option \<Rightarrow> ('j, 'u, 'lg, 'ck, 'w, 'b) Option" where
  "WithLogger l st = (case l of None \<Rightarrow> st | Some x \<Rightarrow> st\<lparr>s_logger := Some x\<rparr>)"

definition WithClock :: "'ck option \<Rightarrow> ('j, 'u, 'lg, 'ck, 'w, 'b) Option" where
  "WithClock k st = (case k of None \<Rightarrow> st | Some x \<Rightarrow> st\<lparr>s_clock := Some x\<rparr>)"

definition WithOnError :: "('w, 'b) ErrorFunc option \<Rightarrow> ('j, 'u, 'lg, 'ck, 'w, 'b) Option" where
  "WithOnError fn st = st\<lparr>s_onError := fn\<rparr>"

definition WithEventHooks :: "('w, 'b) EventHooks \<Rightarrow> ('j, 'u, 'lg, 'ck, 'w, 'b) Option" where
  "WithEventHooks hooks st = st\<lparr>s_hooks := hooks\<rparr>"

subsection \<open>New\<close>

type_synonym 'ck some_clock = "(machine, systemTimer) Clock + 'ck"

definition New ::
  "tzdata \<Rightarrow> (string \<Rightarrow> bool) \<Rightarrow>
    ('j, 'u, ('v, 'b) Handler, 'ck some_clock, 'w, 'b) Option list \<Rightarrow>
    (('j, 'u, ('v, 'b) Handler, 'ck some_clock, 'w, 'b) settings \<times> 'j Cron) call" where
  "New tz known opts =
     and_then NewStandardParser (\<lambda>p.
       let st = fold (\<lambda>opt. opt) opts
             \<lparr>s_location = Some Local, s_parser = Some (spec_parser tz known p), s_chain = NewChain [],
              s_logger = Some DefaultLogger, s_clock = Some (Inl SystemClock), s_onError = None,
              s_hooks = \<lparr>OnJobStart = None, OnJobComplete = None\<rparr>\<rparr>
       in Ret (st, new_cron (s_chain st)))"

definition Location :: "('j, 'u, 'lg, 'ck, 'w, 'b) settings \<Rightarrow> location option" where
  "Location st = s_location st"

text \<open>\<open>now\<close>, for a reading of the clock: \<open>time.In\<close> panics on a nil location.\<close>

definition cron_now :: "('j, 'u, 'lg, 'ck, 'w, 'b) settings \<Rightarrow> gotime \<Rightarrow> gotime call" where
  "cron_now st reading =
     (case s_location st of None \<Rightarrow> Panic NilLocation | Some l \<Rightarrow> Ret (go_In reading l))"

text \<open>The options of the package.\<close>

inductive package_option ::
  "tzdata \<Rightarrow> (string \<Rightarrow> bool) \<Rightarrow> ('j, 'u, 'lg, 'ck, 'w, 'b) Option \<Rightarrow> bool" for tz known where
  "package_option tz known (WithLocation loc)"
| "package_option tz known (WithParser p)"
| "WithSeconds tz known = Ret opt \<Longrightarrow> package_option tz known opt"
| "package_option tz known (WithChain ws)"
| "package_option tz known (WithLogger l)"
| "package_option tz known (WithClock k)"
| "package_option tz known (WithOnError fn)"
| "package_option tz known (WithEventHooks hooks)"

definition valid_settings :: "('j, 'u, 'lg, 'ck, 'w, 'b) settings \<Rightarrow> bool" where
  "valid_settings st \<longleftrightarrow>
     s_location st \<noteq> None \<and> s_parser st \<noteq> None \<and> s_logger st \<noteq> None \<and> s_clock st \<noteq> None"

lemma WithSeconds_eq: "WithSeconds tz known = Ret (WithParser (Some (spec_parser tz known seconds_parser)))"
  by (simp add: WithSeconds_def NewSpecParser_def option_defs seconds_parser_def)

lemma package_option_valid:
  assumes "package_option tz known opt" "valid_settings st"
  shows "valid_settings (opt st)"
  using assms(1)
proof cases
  case 3
  then have "opt = WithParser (Some (spec_parser tz known seconds_parser))"
    by (simp add: WithSeconds_eq)
  then show ?thesis using assms(2) by (simp add: WithParser_def valid_settings_def)
qed (use assms(2) in \<open>auto simp: WithLocation_def WithParser_def WithChain_def WithLogger_def WithClock_def
    WithOnError_def WithEventHooks_def valid_settings_def split: option.split\<close>)

lemma package_options_valid:
  "list_all (package_option tz known) opts \<Longrightarrow> valid_settings st \<Longrightarrow> valid_settings (fold (\<lambda>opt. opt) opts st)"
  by (induction opts arbitrary: st) (auto intro: package_option_valid)

text \<open>
  C37: whatever options of the package are given to \<open>New\<close>, in any order and with nil arguments,
  the instance has a location, a parser, a logger and a clock, so that its clock can always be
  read, which gives a time in its location; it has no entries and does not run, and its chain is that of the settings.
\<close>

theorem New_valid:
  assumes "list_all (package_option tz known) opts"
  shows "\<exists>st c. New tz known opts = Ret (st, c) \<and> valid_settings st \<and>
    (\<exists>t. cron_now st reading = Ret t \<and> instant t = instant reading \<and> Location st = Some (tloc t)) \<and>
    entries c = [] \<and> \<not> running c \<and> chain c = s_chain st"
proof -
  let ?st = "fold (\<lambda>opt. opt) opts
     \<lparr>s_location = Some Local, s_parser = Some (spec_parser tz known standard_parser), s_chain = NewChain [],
      s_logger = Some DefaultLogger, s_clock = Some (Inl SystemClock), s_onError = None,
      s_hooks = \<lparr>OnJobStart = None, OnJobComplete = None\<rparr>\<rparr>"
  have v: "valid_settings ?st"
    by (rule package_options_valid [OF assms]) (simp add: valid_settings_def)
  then obtain l where "s_location ?st = Some l" by (auto simp: valid_settings_def)
  then show ?thesis
    using v by (simp add: New_def NewStandardParser_eq Let_def cron_now_def Location_def new_cron_def go_In_def instant_def)
qed

theorem New_valid_witness:
  "\<exists>st c. New utc_tz (\<lambda>_. False) [WithLocation None, WithParser (None :: unit parser_iface option)] =
      Ret (st :: (unit, unit, (unit, unit) Handler, unit some_clock, unit, unit) settings, c) \<and>
     valid_settings st \<and> Location st = Some Local"
proof -
  let ?opts = "[WithLocation None, WithParser None] ::
    (unit, unit, (unit, unit) Handler, unit some_clock, unit, unit) Option list"
  have o: "list_all (package_option utc_tz (\<lambda>_. False)) ?opts" by (simp add: package_option.intros)
  obtain st c where n: "New utc_tz (\<lambda>_. False) ?opts = Ret (st, c)" "valid_settings st"
    using New_valid [OF o] by blast
  then have "Location st = Some Local"
    by (auto simp: New_def NewStandardParser_eq Let_def WithLocation_def WithParser_def Location_def)
  with n show ?thesis by blast
qed

subsection \<open>Seconds required or optional\<close>

text \<open>The parser of the example in doc.go, whose seconds field is optional.\<close>

definition optional_seconds_parser :: SpecParser where
  "optional_seconds_parser =
     \<lparr>p_options = SecondOptional OR Minute OR Hour OR Dom OR Month OR Dow OR Descriptor\<rparr>"

lemma parser_options:
  "NewSpecParser (SecondOptional OR Minute OR Hour OR Dom OR Month OR Dow OR Descriptor) = Ret optional_seconds_parser"
  "p_options optional_seconds_parser = 382" "p_options seconds_parser = 381" "p_options standard_parser = 380"
  by (simp_all add: NewSpecParser_def optional_seconds_parser_def seconds_parser_def standard_parser_def option_defs)

lemma normalize_six:
  assumes "length xs = 6"
  shows "normalizeFields xs 382 = Ret xs" "normalizeFields xs 381 = Ret xs"
  using assms by (auto simp: field_list length_Suc_conv numeral_eq_Suc)

text \<open>
  C32: the parser with an optional seconds field reads a line of five fields or a descriptor as the
  standard parser does, and a line of six fields as the parser of \<open>WithSeconds\<close> does; that one
  refuses a line of five fields, and reads descriptors all the same.
\<close>

theorem seconds_optional_or_required:
  assumes "spec \<noteq> []" "extractLocation known spec = Ret (rest, loc)"
  shows "(HasPrefix rest ''@'' \<or> length (Fields rest) = 5 \<longrightarrow>
      Parse known optional_seconds_parser spec = ParseStandard known spec) \<and>
    (HasPrefix rest ''@'' \<or> length (Fields rest) = 6 \<longrightarrow>
      Parse known optional_seconds_parser spec = Parse known seconds_parser spec) \<and>
    (\<not> HasPrefix rest ''@'' \<and> length (Fields rest) = 5 \<longrightarrow>
      Parse known seconds_parser spec = Err (FieldCountNot 6 5 (Fields rest)))"
  using normalize_five [of "Fields rest"] normalize_six [of "Fields rest"]
  by (simp add: ParseStandard_def NewStandardParser_eq Parse_rest parse_rest_def assms parser_options Descriptor_def)

theorem seconds_optional_or_required_witness:
  "Parse (\<lambda>_. False) optional_seconds_parser ''5 4 * * *'' = ParseStandard (\<lambda>_. False) ''5 4 * * *'' \<and>
   Parse (\<lambda>_. False) seconds_parser ''5 4 * * *'' = Err (FieldCountNot 6 5 [''5'', ''4'', ''*'', ''*'', ''*''])"
proof -
  have f: "Fields ''5 4 * * *'' = [''5'', ''4'', ''*'', ''*'', ''*'']" "\<not> HasPrefix ''5 4 * * *'' ''@''"
    and e: "extractLocation (\<lambda>_. False) ''5 4 * * *'' = Ret (''5 4 * * *'', Local)"
    by code_simp+
  from seconds_optional_or_required [OF _ e] f show ?thesis by simp
qed

end
