(* ===== verification/Cron_Removal.thy ===== *)
theory Cron_Removal
  imports Cron_Properties
begin

text \<open>
  A removed entry does not come back: its ID is in nobody's hands any more, and IDs are not issued
  twice. The loop and the stale branches of \<open>Schedule\<close> and \<open>Remove\<close> are covered, whatever the
  interleaving.
\<close>

text \<open>The IDs of the entries that a client, or a loop that has received one, is about to add.\<close>

definition pending :: "'j system \<Rightarrow> int set" where
  "pending s = {ID e | x e. to_add s x = Some e}"

definition in_use :: "'j system \<Rightarrow> int set" where
  "in_use s = ids (entries (cron s)) \<union> pending s"

text \<open>A step may issue a new ID; it brings back none that was not in use.\<close>

definition no_return :: "'j system \<Rightarrow> 'j system \<Rightarrow> bool" where
  "no_return s s' \<longleftrightarrow>
     nextID (cron s) \<le> nextID (cron s') \<and>
     (\<forall>k \<in> pending s'. k \<in> pending s \<or> nextID (cron s) < k) \<and>
     (\<forall>k \<in> ids (entries (cron s')). k \<in> in_use s \<or> nextID (cron s) < k)"

lemma no_returnI:
  assumes "nextID (cron s) \<le> nextID (cron s')"
    and "\<And>k. k \<in> ids (entries (cron s')) \<Longrightarrow> k \<in> in_use s \<or> nextID (cron s) < k"
    and "\<And>i e ch. clients s' i = AddWait e ch \<Longrightarrow> clients s i = AddWait e ch \<or> nextID (cron s) < ID e"
    and "\<And>r e. loops s' r = Adding e \<Longrightarrow> loops s r = Adding e \<or> (\<exists>i ch. clients s i = AddWait e ch)"
  shows "no_return s s'"
proof -
  have use: "ID e \<in> pending s" if "to_add s x = Some e" for x e
    using that by (auto simp: pending_def)
  have "ID e \<in> pending s \<or> nextID (cron s) < ID e" if "to_add s' x = Some e" for x e
  proof (cases x)
    case (Inl i)
    then show ?thesis using that assms(3) [of i] use [of "Inl i" e] by (auto simp: to_add_simps)
  next
    case (Inr r)
    then show ?thesis
      using that assms(4) [of r] use [of "Inr r" e] use [of "Inl i" e for i] by (fastforce simp: to_add_simps)
  qed
  then show ?thesis using assms(1,2) unfolding no_return_def pending_def [of s'] by auto
qed

text \<open>The common case: no new ID, and the clients and loops that add are the same or fewer.\<close>

lemma no_return_same:
  assumes "nextID (cron s') = nextID (cron s)" "ids (entries (cron s')) \<subseteq> ids (entries (cron s))"
    and "\<And>i e ch. clients s' i = AddWait e ch \<Longrightarrow> clients s i = AddWait e ch"
    and "\<And>r e. loops s' r = Adding e \<Longrightarrow> loops s r = Adding e"
  shows "no_return s s'"
  by (rule no_returnI) (use assms in \<open>auto simp: in_use_def\<close>)

lemma to_add_in_use: "to_add s x = Some e \<Longrightarrow> ID e \<in> in_use s"
  by (auto simp: in_use_def pending_def)

lemma loop_step_no_return:
  assumes "loop_step s s'" "system_ok s"
  shows "no_return s s'"
  using assms
proof (induction rule: loop_step.induct)
  case (init s r now es)
  show ?case
    by (rule no_return_same) (simp_all add: cron_simps ids_map [OF initializeEntries_ids [OF init.hyps(2)]] split: if_splits)
next
  case (run_due s r now k e t)
  then have m: "map ID ((entries (cron s))[k := e\<lparr>Prev := Next e, Next := t\<rparr>]) = map ID (entries (cron s))"
    by (intro update_ids) simp_all
  show ?case by (rule no_return_same) (simp_all add: cron_simps ids_map [OF m] split: if_splits)
next
  case (mark_close s r c)
  have "c = (cron s)\<lparr>closed := insert (loopDone (lifecycles (cron s) r)) (closed (cron s))\<rparr>"
    using mark_close markStopped_close_Ret [of "cron s" "loops s" r] by (simp add: system_ok_def)
  then show ?case by (intro no_return_same) (simp_all split: if_splits)
next
  case (job_end s r c)
  then have jok: "jobs_ok (cron s) (jobs s)" by (simp add: system_ok_def)
  have a: "r < allocated (cron s)" "0 < activeJobs (lifecycles (cron s) r)"
    using job_end.hyps(1) jobs_okD(1) [OF jok, of r] by (simp_all split: if_splits)
  show ?case
    using job_end.hyps(2) finishJob_eq [OF jok a] by (intro no_return_same) (auto simp: cron_simps)
next
  case (entry_added s r e now es)
  then show ?case
    using to_add_in_use [of s "Inr r" e]
    by (intro no_returnI)
      (auto simp: cron_simps handleEntryAdded_ids to_add_simps in_use_def split: if_splits)
next
  case (entry_removed s r k now)
  then show ?case
    by (intro no_return_same) (auto simp: cron_simps removed_ids split: if_splits)
next
  case (timer s r t now)
  show ?case by (rule no_return_same) (simp_all split: if_splits)
next
  case (due_end s r now k)
  show ?case by (rule no_return_same) (simp_all add: cron_simps split: if_splits)
next
  case (ctx_done s r t)
  show ?case by (rule no_return_same) (simp_all split: if_splits)
next
  case (mark_store s r)
  show ?case by (rule no_return_same) (simp_all add: markStopped_store_def split: if_splits)
qed

lemma rendezvous_no_return: "rendezvous s s' \<Longrightarrow> no_return s s'"
proof (induction rule: rendezvous.induct)
  case (add s r t i e ch)
  then show ?case by (intro no_returnI) (auto simp: in_use_def split: if_splits)
next
  case (remove s r t i k ch)
  show ?case by (rule no_return_same) (auto split: if_splits)
next
  case (snapshot s r t i ch)
  show ?case by (rule no_return_same) (auto split: if_splits)
qed

lemma client_step_no_return: "client_step s s' \<Longrightarrow> no_return s s'"
proof (induction rule: client_step.induct)
  case (start s r c)
  then have "enterRunning (cron s) = (r, c)" by (auto simp: start_run_def split: if_splits)
  from enterRunning_simps [OF this] show ?case by (intro no_return_same) (simp_all split: if_splits)
next
  case (run s i r c)
  then have "enterRunning (cron s) = (r, c)" by (auto simp: Run_def split: if_splits)
  from enterRunning_simps [OF this] show ?case by (intro no_return_same) (simp_all split: if_splits)
next
  case (schedule s i name sched cmd e w c)
  note same = scheduleEntry_same [OF schedule.hyps(2)]
  show ?case
    by (rule no_returnI) (auto simp: same in_use_def ids_def split: if_splits option.splits)
next
  case (add_closed s i e ch)
  then show ?case
    using to_add_in_use [of s "Inl i" e]
    by (intro no_returnI) (auto simp: append_entry_def to_add_simps in_use_def ids_def split: if_splits)
next
  case (remove s i k w c)
  note same = Remove_same [OF remove.hyps(2)]
  show ?case
    using removeEntry_ids(2) [of k]
    by (intro no_return_same) (auto simp: same split: if_splits option.splits)
next
  case (remove_closed s i k ch)
  then show ?case
    using removeEntry_ids(2) [of k]
    by (intro no_return_same) (auto simp: remove_directly_def split: if_splits)
next
  case (stop s i b rs c)
  note same = stopRuns_same [OF stop.hyps(2)]
  show ?case by (rule no_return_same) (auto simp: same split: if_splits)
next
  case (jobs_check s i r rs cap n w c)
  note same = waitForRunJobs_same [OF jobs_check.hyps(2)]
  show ?case by (rule no_return_same) (auto simp: same split: if_splits option.splits)
next
  case (entries s i w)
  show ?case by (rule no_return_same) (auto split: if_splits sum.splits)
qed (auto intro!: no_return_same simp: cron_simps split: if_splits)

text \<open>
  A step in which a call of \<open>Remove\<close> returns: of one that finds the scheduler stopped, as it is called;
  of one that waits, when the loop receives its request or when it sees that the loop has gone.
\<close>

definition Remove_returns :: "int \<Rightarrow> 'j system \<Rightarrow> 'j system \<Rightarrow> bool" where
  "Remove_returns k s s' \<longleftrightarrow> sys_step s s' \<and> (\<exists>i.
     (\<exists>c. clients s i = Idle \<and> Remove k (cron s) = Ret (None, c) \<and> s' = s\<lparr>cron := c\<rparr>) \<or>
     (\<exists>x. clients s i = RemoveWait k x \<and> clients s' i = Idle))"

text \<open>The entry is out of the list, or out of it as soon as the loop that has the request goes on.\<close>

definition gone :: "int \<Rightarrow> 'j system \<Rightarrow> bool" where
  "gone k s \<longleftrightarrow> k \<le> nextID (cron s) \<and> k \<notin> pending s \<and>
     (k \<in> ids (entries (cron s)) \<longrightarrow> (\<exists>r. loops s r = Removing k))"

lemma Remove_gone:
  assumes "Remove_returns k s s'" "system_ok s"
  shows "k \<notin> ids (entries (cron s')) \<or> (\<exists>r. loops s' r = Removing k)"
proof -
  from assms(1) consider c where "Remove k (cron s) = Ret (None, c)" "s' = s\<lparr>cron := c\<rparr>"
    | i x where "clients s i = RemoveWait k x" "clients s' i = Idle" "loop_step s s'"
    | i x where "clients s i = RemoveWait k x" "clients s' i = Idle" "rendezvous s s'"
    | i x where "clients s i = RemoveWait k x" "clients s' i = Idle" "client_step s s'"
    unfolding Remove_returns_def sys_step_def by blast
  then show ?thesis
  proof cases
    case 1
    then show ?thesis using Remove_same(6) [OF 1(1)] by (simp add: removed_ids)
  next
    case 2
    then show ?thesis using loop_step_clients by fastforce
  next
    case 3
    from 3(3) show ?thesis using 3(1,2) by cases (auto split: if_splits)
  next
    case 4
    from 4(3) show ?thesis using 4(1,2) by cases (auto simp: removed_ids remove_directly_def split: if_splits)
  qed
qed

text \<open>A loop that has a request to remove keeps it until it has removed the entry.\<close>

lemma removing_kept:
  assumes "sys_step s s'" "system_ok s" "loops s r = Removing k"
  shows "loops s' r = Removing k \<or> k \<notin> ids (entries (cron s'))"
proof -
  have r: "r < allocated (cron s)"
    using assms(2,3) runs_okD(1) [of "cron s" "loops s" r] by (simp add: system_ok_def not_le)
  from assms(1) consider "loop_step s s'" | "rendezvous s s'" | "client_step s s'"
    by (auto simp: sys_step_def)
  then show ?thesis
  proof cases
    case 1
    then show ?thesis using assms(3) by cases (auto simp: cron_simps removed_ids)
  next
    case 2
    then show ?thesis using assms(3) by cases auto
  next
    case 3
    then show ?thesis
      using assms(3) r enterRunning_simps(1,2) [of "cron s"]
      by cases (auto simp: start_run_def Run_def split: if_splits)
  qed
qed

lemma step_no_return: "sys_step s s' \<Longrightarrow> system_ok s \<Longrightarrow> no_return s s'"
  unfolding sys_step_def using loop_step_no_return rendezvous_no_return client_step_no_return by blast

lemma gone_step:
  assumes "sys_step s s'" "system_ok s" "gone k s"
  shows "gone k s'"
proof -
  have nr: "no_return s s'" by (rule step_no_return [OF assms(1,2)])
  then have n: "k \<le> nextID (cron s')" "k \<notin> pending s'" using assms(3) by (auto simp: no_return_def gone_def)
  show ?thesis
  proof (cases "k \<in> ids (entries (cron s))")
    case False
    then have "k \<notin> ids (entries (cron s'))"
      using nr assms(3) by (auto simp: no_return_def gone_def in_use_def)
    then show ?thesis using n by (simp add: gone_def)
  next
    case True
    then obtain r where "loops s r = Removing k" using assms(3) by (auto simp: gone_def)
    from removing_kept [OF assms(1,2) this] show ?thesis using n by (auto simp: gone_def)
  qed
qed

lemma gone_steps:
  assumes "sys_step\<^sup>*\<^sup>* s s'" "reachable ch s" "gone k s"
  shows "gone k s' \<and> reachable ch s'"
  using assms(1)
proof (induction rule: rtranclp_induct)
  case (step t u)
  then show ?case using gone_step [OF step.hyps(2) reachable_ok] reachable_step by blast
qed (use assms in simp)

text \<open>
  C11: when a call of \<open>Remove\<close> returns, whether it found the scheduler stopped, the loop has received
  its request, or it saw that the loop has gone, the entry is out of the list, or the loop that has the
  request is just about to take it out; and it never gets back: no stopped scheduler has it, and no
  loop that is not about to take it out, so none that waits and shows its list to a client, and none
  that runs jobs. (The ID was issued, and no \<open>Schedule\<close> is still adding its entry.)
\<close>

theorem removed_never_back:
  assumes "reachable ch s" "k \<le> nextID (cron s)" "k \<notin> pending s" "Remove_returns k s s'"
    and "sys_step\<^sup>*\<^sup>* s' s''"
  shows "(k \<in> ids (entries (cron s'')) \<longrightarrow> (\<exists>r. loops s'' r = Removing k)) \<and>
    (\<not> running (cron s'') \<longrightarrow> k \<notin> ids (entries (cron s''))) \<and>
    (\<forall>r. live (loops s'' r) \<and> loops s'' r \<noteq> Removing k \<longrightarrow> k \<notin> ids (entries (cron s'')))"
proof -
  have step: "sys_step s s'" using assms(4) by (simp add: Remove_returns_def)
  have ok: "system_ok s" by (rule reachable_ok [OF assms(1)])
  have "gone k s'"
    using Remove_gone [OF assms(4) ok] step_no_return [OF step ok] assms(2,3)
    by (auto simp: gone_def no_return_def)
  from gone_steps [OF assms(5) reachable_step [OF assms(1) step] this]
  have g: "gone k s''" and ok'': "system_ok s''" using reachable_ok by blast+
  have "running (cron s'') \<and> currentRun (cron s'') = Some r" if "live (loops s'' r)" for r
    using ok'' that runs_okD(2) [of "cron s''" "loops s''" r] by (simp add: system_ok_def)
  then show ?thesis using g unfolding gone_def by (metis live_simps(5) option.inject)
qed

subsection \<open>An execution\<close>

text \<open>
  The scheduler waits; client 0 adds an entry and then calls \<open>Remove\<close> for it, and the loop serves both.
\<close>

definition scheduled_entry :: "unit Entry" where
  "scheduled_entry = late_entry\<lparr>Next := noon\<lparr>tsec := tsec noon + 1\<rparr>\<rparr>"

definition removing :: "unit system" where
  "removing = sys (cron1\<lparr>nextID := 1, entries := [scheduled_entry]\<rparr>) (no_loops(0 := Select noon))
     (no_clients(0 := RemoveWait 1 0))"

lemma scheduled: "handleEntryAdded noon late_entry [] = Ret [scheduled_entry]"
  by (simp add: handleEntryAdded_def scheduled_entry_def late_entry_def secondly_def noon_def
      delay_Next_def Every_def go_Add_def i64_def)

lemma removing_reachable: "reachable [] removing"
proof -
  let ?ls = "no_loops(0 := Select noon)"
  have adding: "reachable [] (sys (cron1\<lparr>nextID := 1\<rparr>) ?ls (no_clients(0 := AddWait late_entry 0)))"
    by (rule reachable_client [OF demo_select])
      (use client_step.schedule [of "sys cron1 ?ls no_clients" 0 "[]" secondly "()"] demo_schedule in simp)
  let ?s = "sys (cron1\<lparr>nextID := 1\<rparr>) (no_loops(0 := Adding late_entry)) no_clients"
  have "reachable [] ?s"
    using rendezvous.add [of "sys (cron1\<lparr>nextID := 1\<rparr>) ?ls (no_clients(0 := AddWait late_entry 0))"
        0 noon 0 late_entry 0]
    by (intro reachable_step [OF adding]) (simp add: sys_step_def fun_upd_idem)
  then have added: "reachable [] (sys (cron1\<lparr>nextID := 1, entries := [scheduled_entry]\<rparr>) ?ls no_clients)"
    by (rule reachable_loop)
      (use loop_step.entry_added [of ?s 0 late_entry noon "[scheduled_entry]"] scheduled in
        \<open>simp add: set_entries_def sortEntriesByNext_key cron1_def\<close>)
  show ?thesis unfolding removing_def
    by (rule reachable_client [OF added])
      (use client_step.remove [of "sys (cron1\<lparr>nextID := 1, entries := [scheduled_entry]\<rparr>) ?ls no_clients" 0 1]
        in \<open>simp add: Remove_def current_loopDone_def demo_defs\<close>)
qed

definition received :: "unit system" where
  "received = removing\<lparr>loops := (loops removing)(0 := Removing 1), clients := (clients removing)(0 := Idle)\<rparr>"

definition removed :: "unit system" where
  "removed = received\<lparr>cron := set_entries [] (cron received), loops := (loops received)(0 := Select noon)\<rparr>"

lemma received_step: "Remove_returns 1 removing received"
proof -
  have "rendezvous removing received"
    unfolding received_def by (rule rendezvous.remove) (simp_all add: removing_def)
  then show ?thesis by (auto simp: Remove_returns_def sys_step_def removing_def received_def)
qed

lemma removed_step: "sys_step received removed"
  using loop_step.entry_removed [of received 0 1 noon]
  by (simp add: sys_step_def removed_def received_def removing_def set_entries_def sortEntriesByNext_key
      removeEntry_def scheduled_entry_def late_entry_def)

lemma removing_pending: "pending removing = {}"
  by (auto simp: pending_def to_add_def removing_def split: sum.splits)

theorem removed_never_back_witness:
  "1 \<in> ids (entries (cron received)) \<and> loops received 0 = Removing 1 \<and> 1 \<notin> ids (entries (cron removed))"
proof -
  have "live (loops removed 0)" "loops removed 0 \<noteq> Removing 1" "1 \<le> nextID (cron removing)"
    by (simp_all add: removed_def removing_def cron1_def)
  then have "1 \<notin> ids (entries (cron removed))"
    using removed_never_back [OF removing_reachable _ _ received_step r_into_rtranclp [of sys_step, OF removed_step]]
      removing_pending by auto
  then show ?thesis by (simp add: received_def removing_def ids_def scheduled_entry_def late_entry_def)
qed

end
