(* ===== verification/Spec_Next_Properties.thy ===== *)
theory Spec_Next_Properties
  imports Spec_Next
begin

text \<open>
  When \<open>SpecSchedule.Next\<close> panics, and a limit of its search: the five-year horizon misses a leap day. What
  it finds is in Zone_Shifts.
\<close>

subsection \<open>Concrete inputs\<close>

definition test_tz :: tzdata where
  "test_tz l u = \<lparr>zone_offset = 0, zone_start = 0, zone_end = 0\<rparr>"

text \<open>\<open>0 0 0 9 Apr-Oct ?\<close> in UTC, asked at 23:35 on July 9, 2012.\<close>

definition ninth_spec :: SpecSchedule where
  "ninth_spec = \<lparr>sSecond = 1, sMinute = 1, sHour = 1, sDom = 512, sMonth = 2032,
     sDow = 127 + 9223372036854775808, sLocation = Some UTC\<rparr>"

definition july_9_2012 :: gotime where
  "july_9_2012 = \<lparr>tsec = 63477473700, tnsec = 0, tloc = UTC\<rparr>"

text \<open>A schedule with an empty second field, as the field \<open>,\<close> gives.\<close>

definition never_spec :: SpecSchedule where
  "never_spec = ninth_spec\<lparr>sSecond := 0\<rparr>"

lemma never_activation: "\<not> activation tz never_spec L u"
  by (simp add: activation_def matches_def secondMatches_def never_spec_def hasBit_iff)

text \<open>
  A schedule with a nil \<open>Location\<close> makes \<open>Next\<close> panic, and only such a schedule does.
\<close>

lemma spec_Next_nil_location:
  "spec_Next tz s t = Panic p \<longleftrightarrow> sLocation s = None \<and> p = NilLocation"
  by (cases "sLocation s")
    (auto simp: spec_Next_def nextActivation_def prepareNext_def loop_result_def Let_def
      split: option.splits)

subsection \<open>Limits of the search\<close>

text \<open>\<open>0 0 0 29 Feb ?\<close>: a leap day, asked for on January 1, 2097; the next one is in 2104.\<close>

definition leap_day_spec :: SpecSchedule where
  "leap_day_spec = ninth_spec\<lparr>sDom := 536870912, sMonth := 4\<rparr>"

definition jan_1_2097 :: gotime where
  "jan_1_2097 = \<lparr>tsec = 66143433600, tnsec = 0, tloc = UTC\<rparr>"

definition feb_29_2104 :: gotime where
  "feb_29_2104 = \<lparr>tsec = 66369283200, tnsec = 0, tloc = UTC\<rparr>"

lemma leap_day_activation: "activation test_tz leap_day_spec UTC feb_29_2104"
  by code_simp

lemma leap_day_horizon: "horizon_year tz UTC jan_1_2097 = 2102"
proof -
  have "horizon_year test_tz UTC jan_1_2097 = 2102" by code_simp
  then show ?thesis
    by (simp add: horizon_year_def t_Year_def local_day_def local_sec_def lookup_zone_def)
qed

lemma single_bit: "bit (2 ^ k :: u64) n \<longleftrightarrow> n = k \<and> k < 64"
  by (auto simp: bit_exp_iff)

lemma leap_day_fields:
  assumes "activation tz leap_day_spec UTC u"
  shows "t_Month tz u = 2" "t_Day tz u = 29"
proof -
  have "bit (2 ^ 2 :: u64) (t_Month tz u)" "bit (2 ^ 29 :: u64) (t_Day tz u)"
    using assms word_and_single_pos_iff [of 63]
    by (simp_all add: activation_def matches_def monthMatches_def dayMatches_def leap_day_spec_def
        ninth_spec_def hasBit_iff Let_def starBit_def and.commute)
  then show "t_Month tz u = 2" "t_Day tz u = 29" unfolding single_bit by simp_all
qed

lemma after_jan_1_2097:
  assumes "After u jan_1_2097" "tloc u = UTC"
  shows "2097 \<le> t_Year tz u"
proof (rule ccontr)
  let ?n = "local_day tz u"
  assume "\<not> 2097 \<le> t_Year tz u"
  then have "?n < days_before_year 2097"
    using year_of_day_bounds(2) [of ?n] days_before_year_mono [of "year_of_day ?n + 1" 2097]
    by (simp add: t_Year_def)
  also have "days_before_year 2097 = 765549" by (simp add: days_before_year_def)
  finally have "local_sec tz u < 66143433600"
    using div_in_scaled(1) [of 765549 "local_sec tz u"] by (simp add: local_day_def not_le [symmetric])
  then show False
    using assms by (simp add: After_def jan_1_2097_def local_sec_def lookup_zone_def)
qed

text \<open>
  A leap day that is more than five years away is not found: asked on January 1, 2097,
  \<open>Next\<close> answers that \<open>0 0 0 29 Feb ?\<close> is never active again, while February 29, 2104 is an
  activation.
\<close>

lemma spec_Next_misses_leap_day:
  "spec_Next test_tz leap_day_spec jan_1_2097 = Ret zero_time \<and>
   activation test_tz leap_day_spec UTC feb_29_2104 \<and> After feb_29_2104 jan_1_2097"
proof -
  have l: "sLocation leap_day_spec = Some UTC" "UTC = eval_location UTC jan_1_2097"
    by (simp_all add: leap_day_spec_def ninth_spec_def eval_location_def)
  have "2102 < t_Year test_tz u"
    if u: "activation test_tz leap_day_spec UTC u" "After u jan_1_2097" for u
  proof (rule ccontr)
    let ?y = "t_Year test_tz u"
    assume "\<not> 2102 < ?y"
    moreover have "2097 \<le> ?y" using u after_jan_1_2097 by (simp add: activation_def)
    ultimately have "?y = 2097 \<or> ?y = 2098 \<or> ?y = 2099 \<or> ?y = 2100 \<or> ?y = 2101 \<or> ?y = 2102"
      by presburger
    moreover have "leap ?y"
      using leap_day_fields [OF u(1)] leap_of_feb_29 by (simp add: t_Month_def t_Day_def t_Year_def)
    ultimately show False by (auto simp: leap_def)
  qed
  then have "spec_Next test_tz leap_day_spec jan_1_2097 = Ret zero_time"
    using spec_Next_cases [OF l fixed_offset_UTC, of test_tz] leap_day_horizon
    by (auto simp: After_def go_In_def dest: leD)
  then show ?thesis
    using leap_day_activation by (simp add: After_def feb_29_2104_def jan_1_2097_def)
qed

end
