(* ===== verification/Zones.thy ===== *)
theory Zones
  imports Spec_String
begin

text \<open>
  In which zone a schedule is read: without a prefix it is the location of the time that \<open>Next\<close> is
  asked at, which is the location of the scheduler; and what happens to a schedule when the clocks
  change.
\<close>

subsection \<open>The search looks at the fields only\<close>

lemma option_eqI:
  assumes "\<And>r. x = Some r \<Longrightarrow> y = Some r" "\<And>r. y = Some r \<Longrightarrow> x = Some r"
  shows "x = y"
  using assms by (cases x; cases y) auto

definition same_fields :: "SpecSchedule \<Rightarrow> SpecSchedule \<Rightarrow> bool" where
  "same_fields s s' \<longleftrightarrow>
     sSecond s = sSecond s' \<and> sMinute s = sMinute s' \<and> sHour s = sHour s' \<and> sDom s = sDom s' \<and>
     sMonth s = sMonth s' \<and> sDow s = sDow s'"

lemma same_fields_sym: "same_fields s s' \<Longrightarrow> same_fields s' s"
  by (simp add: same_fields_def)

lemma same_fields_matches:
  assumes "same_fields s s'"
  shows "monthMatches tz s c = monthMatches tz s' c" "dayMatches tz s c = dayMatches tz s' c"
    "hourMatches tz s c = hourMatches tz s' c" "minuteMatches tz s c = minuteMatches tz s' c"
    "secondMatches tz s c = secondMatches tz s' c"
  using assms
  by (simp_all add: same_fields_def monthMatches_def dayMatches_def hourMatches_def minuteMatches_def
      secondMatches_def)

lemma advanceMonth_Some:
  "advanceMonth tz s loc c a = Some r \<Longrightarrow> \<forall>s'. same_fields s s' \<longrightarrow> advanceMonth tz s' loc c a = Some r"
  by (erule advanceMonth.raw_induct [rotated], subst advanceMonth.simps)
    (auto simp: Let_def same_fields_matches split: if_splits prod.splits)

lemma advanceDay_Some:
  "advanceDay tz s loc c a = Some r \<Longrightarrow> \<forall>s'. same_fields s s' \<longrightarrow> advanceDay tz s' loc c a = Some r"
  by (erule advanceDay.raw_induct [rotated], subst advanceDay.simps)
    (auto simp: Let_def same_fields_matches split: if_splits prod.splits)

lemma advanceHour_Some:
  "advanceHour tz s loc c a = Some r \<Longrightarrow> \<forall>s'. same_fields s s' \<longrightarrow> advanceHour tz s' loc c a = Some r"
  by (erule advanceHour.raw_induct [rotated], subst advanceHour.simps)
    (auto simp: Let_def same_fields_matches split: if_splits prod.splits)

lemma advanceMinute_Some:
  "advanceMinute tz s c a = Some r \<Longrightarrow> \<forall>s'. same_fields s s' \<longrightarrow> advanceMinute tz s' c a = Some r"
  by (erule advanceMinute.raw_induct [rotated], subst advanceMinute.simps)
    (auto simp: Let_def same_fields_matches split: if_splits prod.splits)

lemma advanceSecond_Some:
  "advanceSecond tz s c a = Some r \<Longrightarrow> \<forall>s'. same_fields s s' \<longrightarrow> advanceSecond tz s' c a = Some r"
  by (erule advanceSecond.raw_induct [rotated], subst advanceSecond.simps)
    (auto simp: Let_def same_fields_matches split: if_splits prod.splits)

lemmas advances_Some =
  advanceMonth_Some advanceDay_Some advanceHour_Some advanceMinute_Some advanceSecond_Some

lemma advance_fields:
  assumes "same_fields s s'"
  shows "advance tz s loc = advance tz s' loc"
proof -
  note to = advances_Some [THEN spec, THEN mp, OF _ assms]
    and fro = advances_Some [THEN spec, THEN mp, OF _ same_fields_sym [OF assms]]
  have "advanceMonth tz s loc = advanceMonth tz s' loc" "advanceDay tz s loc = advanceDay tz s' loc"
    "advanceHour tz s loc = advanceHour tz s' loc" "advanceMinute tz s = advanceMinute tz s'"
    "advanceSecond tz s = advanceSecond tz s'"
    by (intro ext, rule option_eqI, (erule to fro)+)+
  then show ?thesis by (simp add: advance_def)
qed

lemma find_activation_Some:
  "find_activation tz s loc lim c a = Some r \<Longrightarrow>
   \<forall>s'. same_fields s s' \<longrightarrow> find_activation tz s' loc lim c a = Some r"
proof (erule find_activation.raw_induct [rotated], intro allI impI)
  fix f :: "tzdata \<Rightarrow> SpecSchedule \<Rightarrow> location \<Rightarrow> int \<Rightarrow> gotime \<Rightarrow> bool \<Rightarrow> (gotime \<times> bool) option"
    and tz s s' loc lim c a r
  assume f: "\<And>tz s loc lim c a r. f tz s loc lim c a = Some r \<Longrightarrow>
      \<forall>s'. same_fields s s' \<longrightarrow> find_activation tz s' loc lim c a = Some r"
    and s': "same_fields s s'"
    and body: "(if t_Year tz c \<le> lim then
        (case advance tz s loc c a of None \<Rightarrow> None
         | Some (c', a', wrapped) \<Rightarrow> if wrapped then f tz s loc lim c' a' else Some (c', True))
      else Some (zero_time, False)) = Some r"
  show "find_activation tz s' loc lim c a = Some r"
    using body f s' by (subst find_activation.simps)
      (auto simp: advance_fields [OF s'] split: if_splits option.splits prod.splits)
qed

lemma find_activation_fields:
  assumes "same_fields s s'"
  shows "find_activation tz s = find_activation tz s'"
  by (intro ext, rule option_eqI)
    (erule find_activation_Some [THEN spec, THEN mp, OF _ assms]
      find_activation_Some [THEN spec, THEN mp, OF _ same_fields_sym [OF assms]])+

subsection \<open>The zone of a schedule without a prefix\<close>

lemma relocated_location: "relocate loc sch = Spec s \<Longrightarrow> sLocation s = Some loc"
  by (cases sch) auto

lemma parse_rest_location: "parse_rest p line loc = Ret (Spec s) \<Longrightarrow> sLocation s = Some loc"
  unfolding parse_rest_relocate [of loc p line, symmetric]
  by (cases "parse_rest p line Local") (auto intro: relocated_location)

lemma local_Next:
  assumes "sLocation s = Some Local"
  shows "spec_Next tz s t = spec_Next tz (s\<lparr>sLocation := Some (tloc t)\<rparr>) t"
proof -
  have "find_activation tz s = find_activation tz (s\<lparr>sLocation := Some (tloc t)\<rparr>)"
    by (rule find_activation_fields) (simp add: same_fields_def)
  moreover have "prepareNext s t = prepareNext (s\<lparr>sLocation := Some (tloc t)\<rparr>) t"
    using assms by (simp add: prepareNext_def go_In_def Let_def)
  ultimately show ?thesis by (simp add: spec_Next_def nextActivation_def)
qed

lemma unprefixed_Local:
  assumes "Parse known p line = Ret (Spec s)" "\<not> zone_prefixed line"
  shows "sLocation s = Some Local"
proof -
  have "extractLocation known line = Ret (line, Local)"
    using assms(2) by (simp add: extractLocation_def zone_prefixed_def)
  then have "parse_rest p line Local = Ret (Spec s)"
    using assms(1) by (simp add: Parse_rest split: if_splits)
  then show ?thesis by (rule parse_rest_location)
qed

lemma Local_prefix:
  assumes "pre = ''TZ'' \<or> pre = ''CRON_TZ''" "xs \<noteq> []" "list_all plain_word xs"
    and "\<not> zone_prefixed (Join xs '' '')"
  shows "Parse known p (pre @ ''=Local '' @ Join xs '' '') = Parse known p (Join xs '' '')"
proof -
  have "plain_word ''Local''" by code_simp
  moreover have "LoadLocation known ''Local'' = Some Local" by (simp add: LoadLocation_def)
  ultimately have "extractLocation known (pre @ ''=Local '' @ Join xs '' '') = Ret (Join xs '' '', Local)"
    using extractLocation_prefix [OF assms(1) _ assms(2,3), of "''Local''" known] by simp
  moreover have "Join xs '' '' \<noteq> []"
    using assms(2,3) by (intro Join_neq_Nil) (auto simp: plain_word_def list_all_iff)
  moreover have "extractLocation known (Join xs '' '') = Ret (Join xs '' '', Local)"
    using assms(4) by (simp add: extractLocation_def zone_prefixed_def)
  moreover have "pre @ ''=Local '' @ Join xs '' '' \<noteq> []" using assms(1) by auto
  ultimately show ?thesis by (simp add: Parse_rest)
qed

text \<open>
  C25: a line without a zone prefix gives a schedule that is read in the location of the time that
  \<open>Next\<close> is given, whatever zones there are: for the scheduler, the location of the instance. The
  prefix \<open>CRON_TZ=Local\<close> or \<open>TZ=Local\<close> does not change that: it does not select the machine's zone.
\<close>

theorem default_zone:
  assumes "xs \<noteq> []" "list_all plain_word xs" "\<not> zone_prefixed (Join xs '' '')"
    and "Parse known p (Join xs '' '') = Ret (Spec s)"
  shows "spec_Next tz s t = spec_Next tz (s\<lparr>sLocation := Some (tloc t)\<rparr>) t \<and>
    Parse known p (''CRON_TZ=Local '' @ Join xs '' '') = Ret (Spec s) \<and>
    Parse known p (''TZ=Local '' @ Join xs '' '') = Ret (Spec s)"
  using local_Next [OF unprefixed_Local [OF assms(4,3)]] assms(4)
    Local_prefix [OF disjI1 [OF refl] assms(1-3)] Local_prefix [OF disjI2 [OF refl] assms(1-3)]
  by simp

subsection \<open>Clock changes\<close>

text \<open>New York in 2024: the clocks went from 2:00 to 3:00 on March 10 and from 2:00 to 1:00 on November 3.\<close>

definition new_york :: location where
  "new_york = Named ''America/New_York''"

definition new_york_tz :: tzdata where
  "new_york_tz l u =
     (if u < 1710054000 then \<lparr>zone_offset = - 18000, zone_start = 1699164000, zone_end = 1710054000\<rparr>
      else if u < 1730613600 then \<lparr>zone_offset = - 14400, zone_start = 1710054000, zone_end = 1730613600\<rparr>
      else \<lparr>zone_offset = - 18000, zone_start = 1730613600, zone_end = 1741503600\<rparr>)"

definition at_unix :: "int \<Rightarrow> gotime" where
  "at_unix u = \<lparr>tsec = unix_epoch + u, tnsec = 0, tloc = new_york\<rparr>"

text \<open>Half past the hour \<open>h\<close>, every day, as a parsed line has it.\<close>

definition half_past :: "nat \<Rightarrow> SpecSchedule" where
  "half_past h = \<lparr>sSecond = 1, sMinute = 1073741824, sHour = push_bit h 1, sDom = 9223372041149743102,
     sMonth = 9223372036854784000 - 2, sDow = 9223372036854775935, sLocation = Some Local\<rparr>"

lemma half_past_parse:
  "Parse (\<lambda>_. False) standard_parser ''30 2 * * *'' = Ret (Spec (half_past 2))"
  "Parse (\<lambda>_. False) standard_parser ''30 1 * * *'' = Ret (Spec (half_past 1))"
  by code_simp+

text \<open>Month, day, hour and minute on the clocks of New York.\<close>

definition clock :: "gotime \<Rightarrow> nat \<times> nat \<times> nat \<times> nat" where
  "clock t = (t_Month new_york_tz t, t_Day new_york_tz t, t_Hour new_york_tz t, t_Minute new_york_tz t)"

lemma spring_Next: "spec_Next new_york_tz (half_past 2) (at_unix 1710046800) = Ret (at_unix 1710138600)"
  by code_simp

lemma autumn_Next: "spec_Next new_york_tz (half_past 1) (at_unix 1730611800) = Ret (at_unix 1730615400)"
  by code_simp

lemma clocks:
  "clock (at_unix 1710046800) = (3, 10, 0, 0)" "clock (at_unix 1710138600) = (3, 11, 2, 30)"
  "clock (at_unix 1730611800) = (11, 3, 1, 30)" "clock (at_unix 1730615400) = (11, 3, 1, 30)"
  by code_simp+

text \<open>
  A job at an hour that the clocks leap over is not run on that day, as the documentation warns:
  after midnight on March 10 the line \<open>30 2 * * *\<close> is next due at 2:30 on March 11. A job in the
  hour that the clocks repeat is run twice: after 1:30 on November 3 the line \<open>30 1 * * *\<close> is
  next due at 1:30 on November 3, one hour later.
\<close>

lemma clock_changes:
  "\<exists>s s' t t'. Parse (\<lambda>_. False) standard_parser ''30 2 * * *'' = Ret (Spec s) \<and>
     clock (at_unix 1710046800) = (3, 10, 0, 0) \<and>
     spec_Next new_york_tz s (at_unix 1710046800) = Ret t \<and> clock t = (3, 11, 2, 30) \<and>
     Parse (\<lambda>_. False) standard_parser ''30 1 * * *'' = Ret (Spec s') \<and>
     clock (at_unix 1730611800) = (11, 3, 1, 30) \<and>
     spec_Next new_york_tz s' (at_unix 1730611800) = Ret t' \<and> clock t' = (11, 3, 1, 30) \<and>
     tsec t' = tsec (at_unix 1730611800) + 3600"
  using half_past_parse spring_Next autumn_Next clocks by (simp add: at_unix_def)

theorem default_zone_witness:
  "spec_Next new_york_tz (half_past 2) (at_unix 0) =
     spec_Next new_york_tz (half_past 2\<lparr>sLocation := Some new_york\<rparr>) (at_unix 0) \<and>
   Parse (\<lambda>_. False) standard_parser ''CRON_TZ=Local 30 2 * * *'' = Ret (Spec (half_past 2))"
proof -
  let ?xs = "[''30'', ''2'', ''*'', ''*'', ''*'']"
  have w: "list_all plain_word ?xs" by code_simp
  from default_zone [OF _ w, of "\<lambda>_. False" standard_parser "half_past 2" new_york_tz "at_unix 0"] show ?thesis
    by (simp add: zone_prefixed_def HasPrefix_def half_past_parse(1)) (simp add: at_unix_def)
qed

end
