(* ===== verification/Zone_Shifts.thy ===== *)
theory Zone_Shifts
  imports Spec_Next_Properties Zones Zone_Search
begin

text \<open>
  What \<open>Next\<close> promises, as far as the clocks of the zone allow. Where they change by whole hours, at a
  full hour, the second, the minute and the hour of what it returns always match; in a regular zone
  (Zone_Regular) the day and the month do, too, and if no midnight is shown twice nothing earlier does.
  Where midnight is skipped the day need not match; where the clocks change by half an hour not even
  the hour does.
\<close>

subsection \<open>What the loops keep\<close>

text \<open>The time stays in its location, and is a valid time.\<close>

abbreviation kept :: "gotime \<Rightarrow> gotime \<Rightarrow> bool" where
  "kept c c' \<equiv> tloc c' = tloc c \<and> valid_time c'"

lemma kept_simps [simp]:
  "tloc (go_Add c d) = tloc c" "valid_time (go_Add c d)"
  "tloc (go_Date tz y m d h mi s ns l) = l" "valid_time (go_Date tz y m d h mi s ns l)"
  "tloc (go_AddDate tz c y m d) = tloc c" "valid_time (go_AddDate tz c y m d)"
  by (simp_all add: go_Add_def go_Date_def go_AddDate_def valid_time_def Let_def nat_less_iff)

lemma kept_normalizeMidnight: "valid_time c \<Longrightarrow> kept c (normalizeMidnight tz c)"
  by (simp add: normalizeMidnight_def)

lemma truncated:
  assumes "valid_time c"
  shows "kept c (go_Truncate c d)" "tsec (go_Truncate c go_Second) = tsec c"
    "tsec (go_Truncate c go_Minute) = tsec c - tsec c mod 60"
proof -
  have n: "0 \<le> int (tnsec c)" "int (tnsec c) < 1000000000" using assms by (simp_all add: valid_time_def)
  show "kept c (go_Truncate c d)" using assms by (simp add: go_Truncate_def)
  have "instant c mod 1000000000 = int (tnsec c)" using n by (simp add: instant_def)
  then show "tsec (go_Truncate c go_Second) = tsec c" by (simp add: go_Truncate_def go_Add_def Let_def)
  have "instant c mod 60000000000 = tsec c mod 60 * 1000000000 + int (tnsec c)"
    using zmod_zmult2_eq [of 60 "instant c" nanos] n by (simp add: instant_def algebra_simps)
  then show "tsec (go_Truncate c go_Minute) = tsec c - tsec c mod 60"
    by (simp add: go_Truncate_def go_Add_def Let_def)
qed

lemma added_sec:
  assumes "valid_time c"
  shows "tsec (go_Add c (k * 1000000000)) = tsec c + k"
  using assms by (simp add: go_Add_def Let_def valid_time_def)

text \<open>
  What a loop keeps: the location; and, unless it wrapped, an enclosing interval of local time, as
  \<open>R\<close> says of one step. \<open>looped\<close> is the outcome of a loop that ended at \<open>c'\<close> with a field that matches.
\<close>

definition looped ::
  "(gotime \<Rightarrow> bool) \<Rightarrow> (gotime \<Rightarrow> gotime \<Rightarrow> bool) \<Rightarrow> gotime \<Rightarrow> gotime \<times> bool \<times> bool \<Rightarrow> bool" where
  "looped ok R c r \<longleftrightarrow> (case r of (c', a', w) \<Rightarrow> kept c c' \<and> (\<not> w \<longrightarrow> ok c' \<and> R c c'))"

lemma looped_step:
  assumes "looped ok R c2 r" "kept c c2" "R c c2" "\<And>x y z. R x y \<Longrightarrow> R y z \<Longrightarrow> R x z"
  shows "looped ok R c r"
  using assms by (auto simp: looped_def)

definition same_block :: "int \<Rightarrow> int \<Rightarrow> gotime \<Rightarrow> gotime \<Rightarrow> bool" where
  "same_block n k c c' \<longleftrightarrow> (tsec c' + k) div n = (tsec c + k) div n"

lemma same_block_trans: "same_block n k x y \<Longrightarrow> same_block n k y z \<Longrightarrow> same_block n k x z"
  by (simp add: same_block_def)

lemma same_div:
  fixes x :: int
  assumes "0 < n" "0 \<le> d" "d \<le> (x + d) mod n"
  shows "(x + d) div n = x div n"
proof -
  have "(x + d) mod n < n" using assms(1) by simp
  then have "x div n = (x + d) div n"
    using assms(2,3) div_mult_mod_eq [of "x + d" n]
    by (intro int_div_pos_eq [of x n _ "(x + d) mod n - d"]) (simp_all add: algebra_simps)
  then show ?thesis by simp
qed

lemma advanceSecond_looped:
  assumes "advanceSecond tz s c a = Some r" "hour_aligned tz (tloc c) k" "valid_time c"
  shows "looped (secondMatches tz s) (same_block 60 k) c r"
proof (rule advanceSecond.raw_induct [where P = "\<lambda>tz s c a r. hour_aligned tz (tloc c) k \<longrightarrow>
      valid_time c \<longrightarrow> looped (secondMatches tz s) (same_block 60 k) c r", OF _ assms(1), rule_format, OF _ assms(2,3)])
  fix f tz s c a r
  assume IH: "\<And>tz s c a r. f tz s c a = Some r \<Longrightarrow> hour_aligned tz (tloc c) k \<Longrightarrow> valid_time c \<Longrightarrow>
      looped (secondMatches tz s) (same_block 60 k) c r"
    and eq: "(if secondMatches tz s c then Some (c, a, False)
      else let (c1, a1) = truncateSecond c a; c2 = go_Add c1 go_Second
           in if t_Second tz c2 = 0 then Some (c2, a1, True) else f tz s c2 a1) = Some r"
    and al: "hour_aligned tz (tloc c) k" and v: "valid_time c"
  let ?c1 = "fst (truncateSecond c a)"
  let ?c2 = "go_Add ?c1 (1 * 1000000000)"
  have c1: "kept c ?c1" "tsec ?c1 = tsec c"
    using truncated(1,2) [OF v] v by (simp_all add: truncateSecond_def)
  have c2: "kept c ?c2" "tsec ?c2 = tsec c + 1" using c1 added_sec [of ?c1 1] by simp_all
  show "looped (secondMatches tz s) (same_block 60 k) c r"
  proof (cases "secondMatches tz s c \<or> t_Second tz ?c2 = 0")
    case True
    then show ?thesis using eq v c2(1)
      by (auto simp: looped_def same_block_def Let_def split: prod.splits if_splits)
  next
    case False
    then have "f tz s ?c2 (snd (truncateSecond c a)) = Some r" using eq by (simp add: Let_def split: prod.splits)
    then have loop: "looped (secondMatches tz s) (same_block 60 k) ?c2 r" using IH al c2(1) by simp
    have "nat ((tsec ?c2 + k) mod 60) \<noteq> 0"
      using False aligned_fields(1) [of tz ?c2 k] al c2(1) by simp
    then have "(tsec c + k + 1) mod 60 \<noteq> 0" using c2(2) by (simp add: algebra_simps)
    moreover have "0 \<le> (tsec c + k + 1) mod 60" by simp
    ultimately have "(tsec c + k + 1) div 60 = (tsec c + k) div 60" by (intro same_div) linarith+
    then have "same_block 60 k c ?c2" using c2(2) by (simp add: same_block_def algebra_simps)
    from looped_step [OF loop c2(1) this same_block_trans] show ?thesis .
  qed
qed

lemma whole_minute:
  fixes x :: int
  assumes "k mod 60 = 0"
  shows "(x - x mod 60 + k) div 3600 = (x + k) div 3600"
proof -
  obtain m where m: "k = m * 60" using assms by (metis mod_0_imp_dvd dvd_div_mult_self)
  have "(x - x mod 60 + k) div 60 = (x + k) div 60"
    by (simp add: m minus_mod_eq_div_mult)
  then have "(x - x mod 60 + k) div 60 div 60 = (x + k) div 60 div 60" by simp
  then show ?thesis by (simp add: zdiv_zmult2_eq [symmetric])
qed

lemma advanceMinute_looped:
  assumes "advanceMinute tz s c a = Some r" "hour_aligned tz (tloc c) k" "valid_time c"
  shows "looped (minuteMatches tz s) (same_block 3600 k) c r"
proof (rule advanceMinute.raw_induct [where P = "\<lambda>tz s c a r. hour_aligned tz (tloc c) k \<longrightarrow>
      valid_time c \<longrightarrow> looped (minuteMatches tz s) (same_block 3600 k) c r", OF _ assms(1), rule_format, OF _ assms(2,3)])
  fix f tz s c a r
  assume IH: "\<And>tz s c a r. f tz s c a = Some r \<Longrightarrow> hour_aligned tz (tloc c) k \<Longrightarrow> valid_time c \<Longrightarrow>
      looped (minuteMatches tz s) (same_block 3600 k) c r"
    and eq: "(if minuteMatches tz s c then Some (c, a, False)
      else let (c1, a1) = truncateMinute c a; c2 = go_Add c1 go_Minute
           in if t_Minute tz c2 = 0 then Some (c2, a1, True) else f tz s c2 a1) = Some r"
    and al: "hour_aligned tz (tloc c) k" and v: "valid_time c"
  let ?c1 = "fst (truncateMinute c a)"
  let ?c2 = "go_Add ?c1 (60 * 1000000000)"
  have c1: "kept c ?c1" "same_block 3600 k c ?c1"
    using truncated(1,3) [OF v] v whole_minute [OF hour_alignedD(1) [OF al]]
    by (simp_all add: truncateMinute_def same_block_def)
  have c2: "kept c ?c2" "tsec ?c2 = tsec ?c1 + 60" using c1 added_sec [of ?c1 60] by simp_all
  show "looped (minuteMatches tz s) (same_block 3600 k) c r"
  proof (cases "minuteMatches tz s c \<or> t_Minute tz ?c2 = 0")
    case True
    then show ?thesis using eq v c2(1)
      by (auto simp: looped_def same_block_def Let_def split: prod.splits if_splits)
  next
    case False
    then have "f tz s ?c2 (snd (truncateMinute c a)) = Some r" using eq by (simp add: Let_def split: prod.splits)
    then have loop: "looped (minuteMatches tz s) (same_block 3600 k) ?c2 r" using IH al c2(1) by simp
    have "nat ((tsec ?c2 + k) mod 3600 div 60) \<noteq> 0"
      using False aligned_fields(2) [of tz ?c2 k] al c2(1) by simp
    then have "(tsec ?c1 + k + 60) mod 3600 div 60 \<noteq> 0" using c2(2) by (simp add: algebra_simps)
    moreover have "0 \<le> (tsec ?c1 + k + 60) mod 3600" by simp
    ultimately have "60 \<le> (tsec ?c1 + k + 60) mod 3600" by linarith
    then have "(tsec ?c1 + k + 60) div 3600 = (tsec ?c1 + k) div 3600" by (intro same_div) simp_all
    then have "same_block 3600 k ?c1 ?c2" using c2(2) by (simp add: same_block_def algebra_simps)
    from looped_step [OF loop c2(1) same_block_trans [OF c1(2) this] same_block_trans] show ?thesis .
  qed
qed

text \<open>The coarser loops: the location, and the hour when that loop ends.\<close>

lemma advanceHour_looped:
  assumes "advanceHour tz s l c a = Some r" "l = tloc c" "valid_time c"
  shows "looped (hourMatches tz s) (\<lambda>_ _. True) c r"
proof (rule advanceHour.raw_induct [where P = "\<lambda>tz s l c a r. l = tloc c \<longrightarrow>
      valid_time c \<longrightarrow> looped (hourMatches tz s) (\<lambda>_ _. True) c r", OF _ assms(1), rule_format, OF _ assms(2,3)])
  fix f tz s l c a r
  assume IH: "\<And>tz s l c a r. f tz s l c a = Some r \<Longrightarrow> l = tloc c \<Longrightarrow> valid_time c \<Longrightarrow>
      looped (hourMatches tz s) (\<lambda>_ _. True) c r"
    and eq: "(if hourMatches tz s c then Some (c, a, False)
      else let (c1, a1) = resetHour tz c a l; c2 = go_Add c1 go_Hour
           in if t_Hour tz c2 = 0 then Some (c2, a1, True) else f tz s l c2 a1) = Some r"
    and l: "l = tloc c" and v: "valid_time c"
  have c1: "kept c (fst (resetHour tz c a l))" using v l by (simp add: resetHour_def)
  show "looped (hourMatches tz s) (\<lambda>_ _. True) c r"
    using eq v c1 l IH [of tz s l "go_Add (fst (resetHour tz c a l)) go_Hour" "snd (resetHour tz c a l)" r]
    by (auto simp: looped_def Let_def split: prod.splits if_splits)
qed

lemma advanceDay_looped:
  assumes "advanceDay tz s l c a = Some r" "l = tloc c" "valid_time c"
  shows "looped (dayMatches tz s) (\<lambda>_ _. True) c r"
proof (rule advanceDay.raw_induct [where P = "\<lambda>tz s l c a r. l = tloc c \<longrightarrow>
      valid_time c \<longrightarrow> looped (dayMatches tz s) (\<lambda>_ _. True) c r", OF _ assms(1), rule_format, OF _ assms(2,3)])
  fix f tz s l c a r
  assume IH: "\<And>tz s l c a r. f tz s l c a = Some r \<Longrightarrow> l = tloc c \<Longrightarrow> valid_time c \<Longrightarrow>
      looped (dayMatches tz s) (\<lambda>_ _. True) c r"
    and eq: "(if dayMatches tz s c then Some (c, a, False)
      else let (c1, a1) = resetDay tz c a l; c2 = normalizeMidnight tz (go_AddDate tz c1 0 0 1)
           in if t_Day tz c2 = 1 then Some (c2, a1, True) else f tz s l c2 a1) = Some r"
    and l: "l = tloc c" and v: "valid_time c"
  let ?c2 = "normalizeMidnight tz (go_AddDate tz (fst (resetDay tz c a l)) 0 0 1)"
  have "tloc (fst (resetDay tz c a l)) = tloc c" using l by (simp add: resetDay_def)
  then have c2: "kept c ?c2" using kept_normalizeMidnight by simp
  show "looped (dayMatches tz s) (\<lambda>_ _. True) c r"
    using eq v c2 l IH [of tz s l ?c2 "snd (resetDay tz c a l)" r]
    by (auto simp: looped_def Let_def split: prod.splits if_splits)
qed

lemma advanceMonth_looped:
  assumes "advanceMonth tz s l c a = Some r" "l = tloc c" "valid_time c"
  shows "looped (monthMatches tz s) (\<lambda>_ _. True) c r"
proof (rule advanceMonth.raw_induct [where P = "\<lambda>tz s l c a r. l = tloc c \<longrightarrow>
      valid_time c \<longrightarrow> looped (monthMatches tz s) (\<lambda>_ _. True) c r", OF _ assms(1), rule_format, OF _ assms(2,3)])
  fix f tz s l c a r
  assume IH: "\<And>tz s l c a r. f tz s l c a = Some r \<Longrightarrow> l = tloc c \<Longrightarrow> valid_time c \<Longrightarrow>
      looped (monthMatches tz s) (\<lambda>_ _. True) c r"
    and eq: "(if monthMatches tz s c then Some (c, a, False)
      else let (c1, a1) = resetMonth tz c a l; c2 = go_AddDate tz c1 0 1 0
           in if t_Month tz c2 = 1 then Some (c2, a1, True) else f tz s l c2 a1) = Some r"
    and l: "l = tloc c" and v: "valid_time c"
  have c1: "tloc (fst (resetMonth tz c a l)) = tloc c" using l by (simp add: resetMonth_def)
  show "looped (monthMatches tz s) (\<lambda>_ _. True) c r"
    using eq v c1 l IH [of tz s l "go_AddDate tz (fst (resetMonth tz c a l)) 0 1 0" "snd (resetMonth tz c a l)" r]
    by (auto simp: looped_def Let_def split: prod.splits if_splits)
qed

subsection \<open>The fields of the clock match\<close>

lemma same_minute_hour: "same_block 60 k c c' \<Longrightarrow> same_block 3600 k c c'"
proof -
  have "x div 3600 = x div 60 div 60" for x :: int by (simp add: zdiv_zmult2_eq [symmetric])
  then show "same_block 60 k c c' \<Longrightarrow> same_block 3600 k c c'" by (simp add: same_block_def)
qed

lemma same_minute:
  assumes "hour_aligned tz (tloc c) k" "tloc c' = tloc c" "same_block 60 k c c'"
  shows "t_Minute tz c' = t_Minute tz c"
proof -
  have "x mod 3600 div 60 = x div 60 mod 60" for x :: int
    using zmod_zmult2_eq [of 60 x 60] by simp
  then show ?thesis using assms aligned_fields(2) [of tz _ k] by (simp add: same_block_def)
qed

definition clock_matches :: "tzdata \<Rightarrow> SpecSchedule \<Rightarrow> gotime \<Rightarrow> bool" where
  "clock_matches tz s c \<longleftrightarrow> hourMatches tz s c \<and> minuteMatches tz s c \<and> secondMatches tz s c"

lemma same_hour:
  assumes "hour_aligned tz (tloc c) k" "tloc c' = tloc c" "same_block 3600 k c c'"
  shows "t_Hour tz c' = t_Hour tz c"
  using aligned_hour [OF assms(1,2)] assms(3) by (simp add: same_block_def)

text \<open>One step of \<open>advance\<close>, and the steps after it if it did not wrap.\<close>

lemma run_steps_looped:
  assumes "run_steps (f # fs) c a = Some r" "\<And>r1. f c a = Some r1 \<Longrightarrow> looped ok R c r1"
    and "\<And>c1 a1. run_steps fs c1 a1 = Some r \<Longrightarrow> kept c c1 \<Longrightarrow> ok c1 \<Longrightarrow> R c c1 \<Longrightarrow>
      looped Q (\<lambda>_ _. True) c1 r"
  shows "looped Q (\<lambda>_ _. True) c r"
proof -
  obtain c1 a1 w1 where f: "f c a = Some (c1, a1, w1)"
    using assms(1) by (auto split: option.splits)
  have l: "kept c c1" "\<not> w1 \<Longrightarrow> ok c1 \<and> R c c1" using assms(2) [OF f] by (simp_all add: looped_def)
  show ?thesis
  proof (cases w1)
    case True
    then show ?thesis using assms(1) f l by (auto simp: looped_def)
  next
    case False
    then have "looped Q (\<lambda>_ _. True) c1 r" using assms(1) f l by (intro assms(3)) auto
    then show ?thesis using l by (auto simp: looped_def)
  qed
qed

lemma advance_looped:
  assumes "advance tz s l c a = Some r" "l = tloc c" "valid_time c" "hour_aligned tz l k"
  shows "looped (clock_matches tz s) (\<lambda>_ _. True) c r"
proof -
  let ?Q = "looped (clock_matches tz s) (\<lambda>_ _. True)"
  have second: "?Q d r" if "run_steps [advanceSecond tz s] d b = Some r" "tloc d = l" "valid_time d"
    "hourMatches tz s d" "minuteMatches tz s d" for d b
  proof (rule run_steps_looped [OF that(1) advanceSecond_looped])
    fix d1 b1
    assume "run_steps [] d1 b1 = Some r" and d1: "kept d d1" "secondMatches tz s d1" "same_block 60 k d d1"
    have al: "hour_aligned tz (tloc d) k" using assms(4) that(2) by simp
    have "t_Minute tz d1 = t_Minute tz d" "t_Hour tz d1 = t_Hour tz d"
      using same_minute [OF al _ d1(3)] same_hour [OF al _ same_minute_hour [OF d1(3)]] d1(1) by simp_all
    then have "clock_matches tz s d1"
      using that(4,5) d1(2) by (simp add: clock_matches_def hourMatches_def minuteMatches_def)
    then show "?Q d1 r" using \<open>run_steps [] d1 b1 = Some r\<close> d1(1) by (auto simp: looped_def)
  qed (use that assms(4) in simp_all)
  have minute: "?Q d r" if "run_steps [advanceMinute tz s, advanceSecond tz s] d b = Some r" "tloc d = l"
    "valid_time d" "hourMatches tz s d" for d b
  proof (rule run_steps_looped [OF that(1) advanceMinute_looped])
    fix d1 b1
    assume run: "run_steps [advanceSecond tz s] d1 b1 = Some r"
      and d1: "kept d d1" "minuteMatches tz s d1" "same_block 3600 k d d1"
    have "t_Hour tz d1 = t_Hour tz d" using same_hour [OF _ _ d1(3)] d1(1) assms(4) that(2) by simp
    then show "?Q d1 r" using second [OF run] d1 that(2,4) by (simp add: hourMatches_def)
  qed (use that assms(4) in simp_all)
  have hour: "?Q d r" if "run_steps [advanceHour tz s l, advanceMinute tz s, advanceSecond tz s] d b = Some r"
    "tloc d = l" "valid_time d" for d b
    by (rule run_steps_looped [OF that(1) advanceHour_looped]) (use that in \<open>auto simp del: run_steps.simps intro: minute\<close>)
  have day: "?Q d r" if "run_steps [advanceDay tz s l, advanceHour tz s l, advanceMinute tz s, advanceSecond tz s] d b
      = Some r" "tloc d = l" "valid_time d" for d b
    by (rule run_steps_looped [OF that(1) advanceDay_looped]) (use that in \<open>auto simp del: run_steps.simps intro: hour\<close>)
  show ?thesis
    by (rule run_steps_looped [OF assms(1) [unfolded advance_def] advanceMonth_looped])
      (use assms(2,3) in \<open>auto simp del: run_steps.simps intro: day\<close>)
qed

lemma find_clock:
  assumes "find_activation tz s l lim c a = Some (c', True)" "l = tloc c" "valid_time c" "hour_aligned tz l k"
  shows "kept c c' \<and> clock_matches tz s c'"
proof (rule find_activation.raw_induct [where P = "\<lambda>tz s l lim c a r. snd r \<longrightarrow> l = tloc c \<longrightarrow>
      valid_time c \<longrightarrow> hour_aligned tz l k \<longrightarrow> kept c (fst r) \<and> clock_matches tz s (fst r)",
      OF _ assms(1), rule_format, unfolded prod.sel, OF _ TrueI assms(2-4)])
  fix f tz s l lim c a r
  assume IH: "\<And>tz s l lim c a r. f tz s l lim c a = Some r \<Longrightarrow> snd r \<Longrightarrow> l = tloc c \<Longrightarrow>
      valid_time c \<Longrightarrow> hour_aligned tz l k \<Longrightarrow> kept c (fst r) \<and> clock_matches tz s (fst r)"
    and eq: "(if t_Year tz c \<le> lim then
        (case advance tz s l c a of
           None \<Rightarrow> None
         | Some (c', added', wrapped) \<Rightarrow>
             if wrapped then f tz s l lim c' added' else Some (c', True))
      else Some (zero_time, False)) = Some r"
    and h: "snd r" "l = tloc c" "valid_time c" "hour_aligned tz l k"
  obtain c1 a1 w1 where step: "advance tz s l c a = Some (c1, a1, w1)"
    "if w1 then f tz s l lim c1 a1 = Some r else r = (c1, True)"
    using eq h(1) by (auto split: if_splits option.splits)
  have "looped (clock_matches tz s) (\<lambda>_ _. True) c (c1, a1, w1)" by (rule advance_looped [OF step(1) h(2-4)])
  then have c1: "kept c c1" "\<not> w1 \<longrightarrow> clock_matches tz s c1" by (simp_all add: looped_def)
  show "kept c (fst r) \<and> clock_matches tz s (fst r)"
  proof (cases w1)
    case True
    then have "f tz s l lim c1 a1 = Some r" using step(2) by simp
    from IH [OF this h(1)] show ?thesis using c1(1) h(2-4) by simp
  qed (use step(2) c1 in simp)
qed

text \<open>
  C20: in a zone whose clocks change at full hours only, and by whole hours, however often and however
  far, the hour, the minute and the second of a time that \<open>Next\<close> returns match the schedule.
\<close>

theorem spec_Next_clock_matches:
  assumes "sLocation s = Some l" "L = eval_location l t" "hour_aligned tz L k"
    and "spec_Next tz s t = Ret r" "\<not> IsZero r"
  shows "hourMatches tz s (go_In r L) \<and> minuteMatches tz s (go_In r L) \<and> secondMatches tz s (go_In r L)"
proof -
  define c where "c = go_Add (if l = Local then t else go_In t l) (go_Second - int (tnsec t))"
  have p: "prepareNext s t = Ret (c, L)"
    using assms(1,2) by (auto simp: prepareNext_def c_def eval_location_def go_In_def)
  have c: "L = tloc c" "valid_time c"
    using assms(2) by (auto simp: c_def eval_location_def go_In_def)
  have z: "IsZero (go_In zero_time l')" "IsZero zero_time" for l' by (simp_all add: IsZero_def go_In_def zero_time_def)
  obtain c' where f: "find_activation tz s L (t_Year tz c + yearSearchSpan) c False = Some (c', True)"
    "r = go_In c' (tloc t)"
    using assms(4,5) z
    by (auto simp: spec_Next_def nextActivation_def p and_then_eq_Ret loop_result_def split: option.splits if_splits)
  have "tloc c' = L" "clock_matches tz s c'" using find_clock [OF f(1) c assms(3)] c(1) by simp_all
  moreover from this have "go_In r L = c'" using f(2) by (cases c') (simp add: go_In_def)
  ultimately show ?thesis by (simp add: clock_matches_def)
qed

text \<open>New York is such a zone, and a regular one.\<close>

lemma new_york_offset:
  assumes "l \<noteq> UTC"
  shows "zone_offset (lookup_zone new_york_tz l u) =
    (if u < 1710054000 \<or> 1730613600 \<le> u then - 18000 else - 14400)"
  using assms by (simp add: lookup_zone_def new_york_tz_def)

lemma new_york_second:
  assumes "l \<noteq> UTC"
  shows "clock_second new_york_tz l x =
    (if x < 63845650800 \<or> 63866210400 \<le> x then x - 18000 else x - 14400)"
  by (simp add: clock_second_def local_sec_def new_york_offset [OF assms] unix_epoch_def)

lemma new_york_date:
  assumes "l \<noteq> UTC"
  shows "date_second new_york_tz l w =
    (if w < 63845632800 \<or> 63866196000 \<le> w then w + 18000 else w + 14400)"
  using assms
  by (simp add: date_second_def go_Date_def Let_def unix_epoch_def day_number_def days_before_year_def
      days_before_month_values lookup_zone_def new_york_tz_def)


lemma new_york_hours:
  assumes "l \<noteq> UTC"
  shows "hour_aligned new_york_tz l (- 18000)"
  unfolding hour_aligned_def
proof (intro conjI allI impI)
  show "zone_offset (lookup_zone new_york_tz l u) mod 3600 = - 18000 mod 3600" for u
    by (simp add: new_york_offset [OF assms])
  fix u v :: int
  assume hour: "(u + - 18000) div 3600 = (v + - 18000) div 3600"
  have "u < 1710054000 \<longleftrightarrow> v < 1710054000" "u < 1730613600 \<longleftrightarrow> v < 1730613600"
    by (rule hour_block_less [OF hour, of _ 475010], simp, rule hour_block_less [OF hour, of _ 480721], simp)
  then show "zone_offset (lookup_zone new_york_tz l u) = zone_offset (lookup_zone new_york_tz l v)"
    by (simp add: new_york_offset [OF assms] not_le [symmetric])
qed simp

lemma new_york_regular:
  assumes "l \<noteq> UTC"
  shows "regular_zone new_york_tz l (- 18000)"
  unfolding regular_zone_def
proof (intro conjI allI impI)
  note ny = new_york_second [OF assms] new_york_date [OF assms]
  show "hour_aligned new_york_tz l (- 18000)" by (rule new_york_hours [OF assms])
  show "clock_second new_york_tz l x div 3600 \<le> clock_second new_york_tz l (x + 3600) div 3600" for x
    by (rule zdiv_mono1) (simp_all add: ny)
  show "\<exists>x. clock_second new_york_tz l x = d * 86400" for d
  proof -
    consider "d \<le> 738954" | "738954 < d" "d \<le> 739192" | "739192 < d" by linarith
    then have "clock_second new_york_tz l (date_second new_york_tz l (d * 86400)) = d * 86400"
      by cases (simp_all add: ny)
    then show ?thesis ..
  qed
  show "clock_second new_york_tz l (date_second new_york_tz l (clock_second new_york_tz l x)) = clock_second new_york_tz l x" for x
    by (simp add: ny)
qed

lemma new_york_single:
  assumes "l \<noteq> UTC"
  shows "single_midnights new_york_tz l"
  unfolding single_midnights_def
proof (intro allI impI)
  fix x y
  note ny = new_york_second [OF assms]
  assume "clock_second new_york_tz l x mod 86400 = 0 \<and> clock_second new_york_tz l x = clock_second new_york_tz l y"
  then obtain d where d: "clock_second new_york_tz l x = d * 86400" "clock_second new_york_tz l y = d * 86400"
    by (metis mod_0_imp_dvd dvd_div_mult_self)
  consider "d \<le> 738954" | "738954 < d" "d \<le> 739192" | "739192 < d" by linarith
  then show "x = y" using d unfolding ny by cases (simp_all split: if_splits)
qed

theorem spec_Next_clock_matches_witness:
  "hourMatches new_york_tz (half_past 1) (at_unix 1730615400) \<and>
   minuteMatches new_york_tz (half_past 1) (at_unix 1730615400) \<and>
   secondMatches new_york_tz (half_past 1) (at_unix 1730615400)"
proof -
  have "sLocation (half_past 1) = Some Local" "new_york = eval_location Local (at_unix 1730611800)"
    by (simp_all add: half_past_def eval_location_def at_unix_def)
  from spec_Next_clock_matches [OF this new_york_hours autumn_Next]
  show ?thesis by (simp add: IsZero_def at_unix_def unix_epoch_def go_In_def new_york_def)
qed

subsection \<open>Every field matches in regular zones\<close>

text \<open>
  C3: in a regular zone (the clocks change by whole hours at a full hour, go back by at most one hour and
  show every midnight; a zone of constant offset is one) \<open>Next\<close> always returns, however empty the
  fields of the schedule are. A time that it returns and that is not the zero time is later than
  the one asked for, matches every field of the schedule in the schedule's location, lies on a whole
  second, and is at most five years past the year the search starts in.
\<close>

theorem spec_Next_sound:
  assumes "sLocation s = Some l" "L = eval_location l t" "regular_zone tz L k"
  shows "\<exists>r. spec_Next tz s t = Ret r \<and>
    (r = zero_time \<or>
     After r t \<and> tnsec r = 0 \<and> tloc r = tloc t \<and> matches tz s (go_In r L) \<and>
     t_Year tz (go_In r L) \<le> t_Year tz (go_In (go_Add t (go_Second - int (tnsec t))) L) + 5)"
proof -
  have h: "horizon_year tz L t = t_Year tz (go_In (go_Add t (go_Second - int (tnsec t))) L) + 5"
    by (cases t) (simp add: horizon_year_def yearSearchSpan_def go_In_def go_Add_def Let_def)
  from spec_Next_regular [OF assms] show ?thesis
    unfolding h [symmetric] by (auto simp: activation_def go_In_def)
qed


theorem spec_Next_sound_witness:
  "After (at_unix 1730615400) (at_unix 1730611800) \<and> matches new_york_tz (half_past 1) (at_unix 1730615400)"
proof -
  have "sLocation (half_past 1) = Some Local" "new_york = eval_location Local (at_unix 1730611800)"
    "new_york \<noteq> UTC"
    by (simp_all add: half_past_def eval_location_def at_unix_def new_york_def)
  from spec_Next_sound [OF this(1,2) new_york_regular [OF this(3)]] autumn_Next
  show ?thesis by (auto simp: at_unix_def unix_epoch_def go_In_def zero_time_def)
qed

subsection \<open>The first activation\<close>

text \<open>
  C2: in a regular zone that shows no midnight twice (zones of constant offset and New York are such),
  if the schedule has an activation after \<open>t\<close> in the search horizon, then \<open>Next\<close> returns one, in
  the caller's location, later than \<open>t\<close>, and no activation after \<open>t\<close> is earlier. Otherwise it returns
  the zero time.
\<close>

theorem spec_Next_earliest:
  assumes "sLocation s = Some l" "L = eval_location l t" "regular_zone tz L k" "single_midnights tz L"
  shows "if \<exists>u. activation tz s L u \<and> After u t \<and> t_Year tz u \<le> horizon_year tz L t
    then \<exists>r. spec_Next tz s t = Ret r \<and> tloc r = tloc t \<and> activation tz s L (go_In r L) \<and>
      After r t \<and> (\<forall>v. activation tz s L v \<and> After v t \<longrightarrow> \<not> Before v r)
    else spec_Next tz s t = Ret zero_time"
proof (cases "\<exists>u. activation tz s L u \<and> After u t \<and> t_Year tz u \<le> horizon_year tz L t")
  case True
  then show ?thesis using spec_Next_found [OF assms(1-3)] assms(4) by (auto dest: leD)
next
  case False
  then have "\<not> (activation tz s L (go_In r L) \<and> After r t \<and> t_Year tz (go_In r L) \<le> horizon_year tz L t)" for r
    by (auto simp: After_def go_In_def)
  then have "spec_Next tz s t = Ret zero_time" using spec_Next_found [OF assms(1-3)] by blast
  then show ?thesis unfolding if_not_P [OF False] .
qed

text \<open>
  The second half past one of November 3, 2024 in New York is the first after the first one; and a
  schedule with an empty field has no activation.
\<close>

theorem spec_Next_earliest_witness:
  "(\<exists>r. r = at_unix 1730615400 \<and> spec_Next new_york_tz (half_past 1) (at_unix 1730611800) = Ret r \<and>
      (\<forall>v. activation new_york_tz (half_past 1) new_york v \<and> After v (at_unix 1730611800) \<longrightarrow> \<not> Before v r)) \<and>
   spec_Next test_tz never_spec july_9_2012 = Ret zero_time"
proof -
  have ny: "sLocation (half_past 1) = Some Local" "new_york = eval_location Local (at_unix 1730611800)"
    "new_york \<noteq> UTC"
    by (simp_all add: half_past_def eval_location_def at_unix_def new_york_def)
  have "at_unix 1730615400 \<noteq> zero_time" by (simp add: at_unix_def zero_time_def unix_epoch_def)
  with spec_Next_earliest [OF ny(1,2) new_york_regular [OF ny(3)] new_york_single [OF ny(3)]] autumn_Next
  have first: "\<forall>v. activation new_york_tz (half_past 1) new_york v \<and> After v (at_unix 1730611800) \<longrightarrow>
      \<not> Before v (at_unix 1730615400)"
    by (auto split: if_splits)
  have l: "sLocation never_spec = Some UTC" "UTC = eval_location UTC july_9_2012"
    by (simp_all add: ninth_spec_def never_spec_def eval_location_def)
  from spec_Next_earliest [OF l fixed_offset_regular [OF fixed_offset_UTC] fixed_offset_single [OF fixed_offset_UTC], of test_tz]
  have "spec_Next test_tz never_spec july_9_2012 = Ret zero_time" by (simp add: never_activation)
  then show ?thesis using first autumn_Next by blast
qed

subsection \<open>Where the fields do not match\<close>

text \<open>
  \<open>0 0 1 3 Nov *\<close> in a zone whose clocks went from midnight to one o'clock on November 4,
  2018, asked at 22:30 on November 3.
\<close>

definition sao_paulo :: location where
  "sao_paulo = Named ''America/Sao_Paulo''"

definition sao_paulo_tz :: tzdata where
  "sao_paulo_tz l u =
     (if u < 1541300400
      then \<lparr>zone_offset = - 10800, zone_start = 1518919200, zone_end = 1541300400\<rparr>
      else \<lparr>zone_offset = - 7200, zone_start = 1541300400, zone_end = 1550368800\<rparr>)"

definition nov_3_spec :: SpecSchedule where
  "nov_3_spec = \<lparr>sSecond = 1, sMinute = 1, sHour = 2, sDom = 8, sMonth = 2048,
     sDow = 127 + 9223372036854775808, sLocation = Some sao_paulo\<rparr>"

definition nov_3_late :: gotime where
  "nov_3_late = \<lparr>tsec = unix_epoch + 1541295000, tnsec = 0, tloc = sao_paulo\<rparr>"

definition nov_4_one :: gotime where
  "nov_4_one = \<lparr>tsec = unix_epoch + 1541300400, tnsec = 0, tloc = sao_paulo\<rparr>"

lemma nov_3_advance:
  "advance sao_paulo_tz nov_3_spec sao_paulo (go_Add nov_3_late go_Second) False =
     Some (nov_4_one, True, False)"
  by code_simp

lemma nov_3_values:
  "t_Year sao_paulo_tz (go_Add nov_3_late go_Second) = 2018" "sLocation nov_3_spec = Some sao_paulo"
  "sao_paulo \<noteq> Local" "go_In nov_3_late sao_paulo = nov_3_late" "tloc nov_3_late = sao_paulo"
  "go_In nov_4_one sao_paulo = nov_4_one" "tnsec nov_3_late = 0"
  by code_simp+

lemma nov_4_day: "t_Day sao_paulo_tz nov_4_one = 4" "\<not> dayMatches sao_paulo_tz nov_3_spec nov_4_one"
  by code_simp+

lemma nov_3_find:
  "find_activation sao_paulo_tz nov_3_spec sao_paulo 2023 (go_Add nov_3_late go_Second) False =
     Some (nov_4_one, True)"
  by (subst find_activation.simps) (simp add: nov_3_advance nov_3_values)

text \<open>
  Lord Howe Island, whose clocks change by half an hour: in 2024 from 2:00 back to 1:30 on April 7, and
  from 2:00 to 2:30 on October 6.
\<close>

definition lord_howe :: location where
  "lord_howe = Named ''Australia/Lord_Howe''"

definition lord_howe_tz :: tzdata where
  "lord_howe_tz l u =
     (if u < 1712415600 then \<lparr>zone_offset = 39600, zone_start = 1696087800, zone_end = 1712415600\<rparr>
      else if u < 1728142200 then \<lparr>zone_offset = 37800, zone_start = 1712415600, zone_end = 1728142200\<rparr>
      else \<lparr>zone_offset = 39600, zone_start = 1728142200, zone_end = 1743865200\<rparr>)"

definition howe_time :: "int \<Rightarrow> gotime" where
  "howe_time u = \<lparr>tsec = unix_epoch + u, tnsec = 0, tloc = lord_howe\<rparr>"

text \<open>Every day at minute \<open>m\<close> past the hour \<open>h\<close>.\<close>

definition daily :: "nat \<Rightarrow> nat \<Rightarrow> SpecSchedule" where
  "daily h m = \<lparr>sSecond = 1, sMinute = push_bit m 1, sHour = push_bit h 1, sDom = 9223372041149743102,
     sMonth = 9223372036854784000 - 2, sDow = 9223372036854775935, sLocation = Some Local\<rparr>"

definition howe_clock :: "gotime \<Rightarrow> nat \<times> nat \<times> nat \<times> nat" where
  "howe_clock t =
     (t_Month lord_howe_tz t, t_Day lord_howe_tz t, t_Hour lord_howe_tz t, t_Minute lord_howe_tz t)"

lemma daily_parse:
  "Parse (\<lambda>_. False) standard_parser ''15 2 * * *'' = Ret (Spec (daily 2 15))"
  "Parse (\<lambda>_. False) standard_parser ''45 1 * * *'' = Ret (Spec (daily 1 45))"
  by code_simp+

lemma howe_autumn: "spec_Next lord_howe_tz (daily 2 15) (howe_time 1712408400) = Ret (howe_time 1712504700)"
  by code_simp

lemma howe_spring: "spec_Next lord_howe_tz (daily 1 45) (howe_time 1728141600) = Ret (howe_time 1728143100)"
  by code_simp

lemma howe_clocks:
  "howe_clock (howe_time 1712408400) = (4, 7, 0, 0)" "howe_clock (howe_time 1712418300) = (4, 7, 2, 15)"
  "howe_clock (howe_time 1712504700) = (4, 8, 2, 15)" "howe_clock (howe_time 1728143100) = (10, 6, 2, 45)"
  by code_simp+

text \<open>
  Three ways in which \<open>Next\<close> goes wrong when the clocks change. Where a zone skips midnight, the
  hour loop steps from 23:00 over the day boundary to 1:00 without noticing that it wrapped: the
  answer for a schedule of November 3 is one o'clock on November 4. Where the clocks leap by half an
  hour, the minute loop steps from 1:59 to 2:30 in the same way: the line \<open>45 1 * * *\<close>, asked at 1:50, is
  due at 2:45. Where they fall back by half an hour, the hour loop, which steps by whole hours, reaches
  2:30 instead of 2:00: the line \<open>15 2 * * *\<close>, asked at midnight, is due on the next day, although the
  clocks show 2:15 on this day, too.
\<close>

lemma spec_Next_clock_shifts:
  "(spec_Next sao_paulo_tz nov_3_spec nov_3_late = Ret nov_4_one \<and>
    \<not> dayMatches sao_paulo_tz nov_3_spec nov_4_one \<and> t_Day sao_paulo_tz nov_4_one = 4) \<and>
   (\<exists>s r. Parse (\<lambda>_. False) standard_parser ''45 1 * * *'' = Ret (Spec s) \<and>
     spec_Next lord_howe_tz s (howe_time 1728141600) = Ret r \<and> howe_clock r = (10, 6, 2, 45)) \<and>
   (\<exists>s r. Parse (\<lambda>_. False) standard_parser ''15 2 * * *'' = Ret (Spec s) \<and>
     howe_clock (howe_time 1712408400) = (4, 7, 0, 0) \<and>
     spec_Next lord_howe_tz s (howe_time 1712408400) = Ret r \<and> howe_clock r = (4, 8, 2, 15) \<and>
     howe_clock (howe_time 1712418300) = (4, 7, 2, 15) \<and> After (howe_time 1712418300) (howe_time 1712408400))"
proof -
  have "spec_Next sao_paulo_tz nov_3_spec nov_3_late = Ret nov_4_one"
    by (simp add: spec_Next_def nextActivation_def prepareNext_def nov_3_values nov_3_find
        yearSearchSpan_def Let_def)
  moreover have "After (howe_time 1712418300) (howe_time 1712408400)" by (simp add: After_def howe_time_def)
  ultimately show ?thesis using nov_4_day daily_parse howe_autumn howe_spring howe_clocks by blast
qed

end
