(* ===== verification/Spec2Isabelle.thy ===== *)
theory Spec2Isabelle
  imports Chain_Order Cron_Exclusion Cron_Options Cron_Removal Zone_Shifts
begin

text \<open>
  A verification development of the Go library \<open>cron\<close> (package \<open>cron\<close>, files at the root of the
  repository): a parser for lines like \<open>30 3-6 * * *\<close>, the schedules they denote, and a scheduler
  that runs jobs on these schedules.

  \<^bold>\<open>The program.\<close> \<open>SpecParser.Parse\<close> (parser.go) turns a line into a \<open>Schedule\<close>: a \<open>SpecSchedule\<close>
  (spec.go), six bit sets and a location, or a \<open>ConstantDelaySchedule\<close> (constantdelay.go). Its
  \<open>Next\<close> maps a time to the next activation, or to the zero time when it finds none; \<open>NextN\<close>
  (schedule.go) lists several. A \<open>Cron\<close> (cron.go, with the options of option.go) keeps a list of
  entries, each a schedule with a job that \<open>Chain.Then\<close> (chain.go) has wrapped. \<open>Start\<close> spawns the
  goroutine of \<open>schedulerLoop\<close>, which sorts the entries by \<open>Next\<close>, sleeps until the first is due,
  starts the jobs of the due entries in goroutines of their own, and serves the requests that
  \<open>Schedule\<close>, \<open>Remove\<close> and \<open>Entries\<close> send it over channels while it runs. \<open>Stop\<close> and \<open>Shutdown\<close>
  cancel every run and wait for its loop and its jobs.

  \<^bold>\<open>Conventions.\<close> A call that may return an error, panic or not return yields a value of type \<open>go\<close>
  (Cron_Prelude), with the constructors \<open>Ret\<close>, \<open>Err\<close>, \<open>Panic\<close> and \<open>Diverge\<close>. A \<open>uint64\<close> is a
  \<open>64 word\<close>; an \<open>int\<close> or \<open>time.Duration\<close> is an integer that \<open>i64\<close> wraps around to 64 bits wherever
  the code adds or multiplies; strings are sequences of bytes. A loop whose end is not evident is a
  \<^theory_text>\<open>partial_function (option)\<close> and not returning is \<open>None\<close>, so there is no fuel anywhere, and that
  a loop returns is always a lemma. Definitions have the names of the code; a prefix (\<open>go_\<close>,
  \<open>spec_\<close>, \<open>t_\<close>) is there where a name is taken.

  \<^bold>\<open>Go's libraries.\<close> Go_Strings holds what the parser uses of \<open>strings\<close> and \<open>strconv\<close>, Go_Duration
  \<open>time.ParseDuration\<close>, Go_Calendar and Go_Time the calendar and the type \<open>time.Time\<close>. The
  time-zone data base is a parameter \<open>tz\<close>, and \<open>known\<close> tells which names \<open>time.LoadLocation\<close>
  accepts. What is proved of \<open>Next\<close> in general holds in zones of constant offset
  (\<open>fixed_offset\<close>, a whole number of minutes), in regular zones (\<open>regular_zone\<close>: the clocks change by whole
  hours at a full hour, go back by one hour at most and show every midnight, as in New York), or where the
  clocks change by whole hours at full hours (\<open>hour_aligned\<close>); other changes of the clock are covered by concrete zones.

  \<^bold>\<open>Schedules.\<close>
  \<^item> Spec_Fields: \<open>bounds\<close>, the six \<open>...Bounds\<close>, \<open>hasBit\<close>, \<open>getBits\<close>, \<open>all\<close>, and which bits they set.
  \<^item> Spec_Schedule: \<open>SpecSchedule\<close> and \<open>Next\<close> with all its helpers.
  \<^item> Time_Units, Unit_Search, Spec_Next: why the search is right. Years, months, days, hours, minutes
    and seconds cut local time into nested intervals; the contract of a search over such units is a
    chain of locales (one loop, the sequence of loops in \<open>advance\<close>, the outer loop \<open>find\<close>), which
    the code's functions meet in a zone of constant offset, where local time is a line. The loops come
    back because the search is bounded by the year \<open>yearSearchSpan\<close> ahead.
  \<^item> Spec_Next_Properties: the five-year horizon misses a leap day.
  \<^item> Spec_String: \<open>String\<close>, and what it keeps and loses (C24).
  \<^item> Schedules: \<open>Every\<close> and its \<open>Next\<close>, \<open>NextN\<close> (C36), and the locale \<open>schedule_law\<close>, the
    contract of the interface \<open>Schedule\<close>, met by both kinds of schedule.
  \<^item> Zones: in which location a line is read (C25), and the days the clocks change.
  \<^item> Zone_Hours, Zone_Regular, Zone_Loops, Zone_Search: the search in a regular zone. Its position is
    counted in standard time, in which a block of an hour has one offset, and the number of the hour on
    the clocks never falls. The loops of the minute and the second are those of Spec_Next (both kinds of
    zone are a \<open>minute_clock\<close>); those of the hour, the day and the month have contracts of their own.
    The search ends because each wrapped pass moves on towards the midnight after the last year
    searched. The contract \<open>schedule_law\<close>, and what rests on it, holds in these zones.
  \<^item> Zone_Shifts: in regular zones \<open>Next\<close> returns, and what it returns is later and matches every field
    (C3); where no midnight is shown twice, as in New York or in a zone of constant offset, it
    is the first activation, and the zero time means that there is none in the horizon
    (C2). In any zone whose clocks change by whole hours at full hours, by induction on the runs of
    the loops, hour, minute and second match (C20); and three concrete answers
    that are wrong (\<open>spec_Next_clock_shifts\<close>).

  \<^bold>\<open>Parser.\<close>
  \<^item> Parser: the whole of parser.go, one definition per function and one constructor per error.
  \<^item> Parser_Fields, Parser_Ranges: \<open>getRange\<close> and \<open>getField\<close> against an abstract syntax of ranges
    with its denotation and its errors (C15, C29).
  \<^item> Parser_Properties: the normalised field list against a reference (C14); every input comes back
    (C22), with a well-formed schedule or an error (C23).
  \<^item> Parser_Inputs: descriptors and \<open>@every\<close> (C35), zone prefixes (C33), and lines that are accepted
    although the grammar excludes them (C39).

  \<^bold>\<open>Jobs.\<close>
  \<^item> Chain: \<open>Then\<close>, \<open>Recover\<close>, \<open>RetryOnError\<close> (C28) and \<open>Timeout\<close> as functions on jobs; the wrappers
    with state between runs as state machines (C30, C31). The order of two wrappers is in Chain_Order
    (C19).
  \<^item> Cron_Jobs: \<open>executeJob\<close> with its callbacks (C16), and what \<open>Recover\<close> protects (C27).

  \<^bold>\<open>Scheduler.\<close>
  \<^item> Cron_Entries: the entry list and the operations of the loop on it. The order of the code's
    comparison is an instance of \<open>linorder\<close>; C18 says which entries a round starts.
  \<^item> Cron_State: the fields of \<open>Cron\<close> under \<open>runningMu\<close> and every critical section, one definition each.
    A \<open>*runLifecycle\<close> is an index into a heap, a channel that is only closed is a number.
  \<^item> Cron_System: the goroutines of loops, jobs and clients, interleaved by the relations \<open>loop_step\<close>,
    \<open>rendezvous\<close> (a client meets the loop at its select: the loop has received, and its handler is a step
    of its own) and \<open>client_step\<close>. What time it is, when a
    timer fires, when a context is cancelled and which ready case a select takes are free. Then the
    invariants \<open>runs_ok\<close> and \<open>jobs_ok\<close>.
  \<^item> Cron_Stop, Cron_Properties: one loop at a time (C4), no nil dereference or double close (C21),
    unique IDs (C38), what \<open>Stop\<close> and \<open>Shutdown\<close> cancel (C9)
    and what they guarantee (C7), and an entry that a restart leaves behind (C26).
  \<^item> Cron_Refinement: the interleaved loop implements an abstract scheduler whose events are whole
    rounds (C8). The events of Cron_Late are events of this scheduler, too.
  \<^item> Cron_Removal, Cron_Exclusion: when \<open>Remove\<close> has returned, no loop that has handled the request and no
    stopped scheduler has the entry, ever again (C11); the loop and
    the clients do not touch the list at the same time (C10).
  \<^item> Cron_Liveness: no waiting client is stuck (C13), \<open>Stop\<close> can return (C12).
    The ways it speaks of are made of steps \<open>unaided\<close>: those of the runs waited for and of the call itself, with no
    start, no cancellation and no step of another client.
  \<^item> Cron_Timeline: the loop with a timer that fires when it was asked to. Jobs start at the
    activations of the entries' schedules, however the rounds fall.
  \<^item> Cron_Late: entries are added and removed under the running loop at any time, also when the timer is
    due already, and the loop may be late, by a bound or by any time (C5). Each entry
    added or removed makes the loop set a new timer, so the bound counts once for the job and once for each
    of these; where the bound is 0, jobs start at the activations themselves.
  \<^item> System_Clock: clock.go. Timers of the package \<open>time\<close> are armed, hold a value, or are stopped; the
    locale \<open>clock_contract\<close> is what the interfaces \<open>Clock\<close> and \<open>Timer\<close> document, the loop driven by a clock is
    studied in it, and the system clock is an interpretation (C6).
  \<^item> Logging: logger.go and the log calls, with as much of \<open>log/slog\<close> as they need (C34, C17).
  \<^item> Cron_Options: the options and \<open>New\<close> (C37), and the parsers they choose (C32).
  \<^item> Spec2Isabelle: from the line to the job (C1), which rests on the parser, \<open>Next\<close>, the entry list and
    the timeline.

  \<^bold>\<open>Bounds.\<close> \<open>Next\<close> looks five calendar years ahead (\<open>yearSearchSpan\<close>); the horizon is part of the
  statements. A timer sleeps for \<open>idleTimerDuration\<close> at most (C1 holds across it). Entry IDs are
  unbounded: \<open>2 ^ 63\<close> additions are out of reach.

  \<^bold>\<open>Not modelled.\<close> In Cron_System the times are free; Cron_Late and System_Clock follow the clock, for
  the goroutine of the loop alone. The wall clock of System_Clock is never set back, and there is one: the
  monotonic reading of a \<open>time.Time\<close> is left out, as is the overflow of a timer that would fire after 292
  years of uptime. Of a log line the level, the message and the attributes are kept, not its bytes, its time
  and its source position; of the three stateful wrappers only the delay that \<open>DelayIfStillRunning\<close> logs is kept. doc.go has no code. Schedules, jobs, hooks, parsers and
  clocks of the client are parameters. A \<open>Next\<close> of a client's schedule that panics or does not return
  takes the loop with it: the relations have no step there. The code reads and writes \<open>entries\<close>
  in the loop without the lock; where a goroutine that found its loop gone does so while a new loop
  runs, the model takes the two accesses as atomic. Tests, examples and tooling are left out.
\<close>

section \<open>From the line to the job\<close>

text \<open>Jobs added by name and line to an instance, one after the other.\<close>

primrec add_all ::
  "(string \<Rightarrow> ('e, gotime \<Rightarrow> gotime call) go) \<Rightarrow> (string \<times> string \<times> 'j) list \<Rightarrow> 'j Cron \<Rightarrow>
    (string \<times> 'e, 'j Cron) go" where
  "add_all parse [] c = Ret c"
| "add_all parse (x # xs) c =
     (case x of (name, line, cmd) \<Rightarrow>
        and_then (AddNamedJob name parse line cmd c) (\<lambda>(e, w, c'). add_all parse xs c'))"

definition parsed_entry ::
  "(string \<Rightarrow> ('e, gotime \<Rightarrow> gotime call) go) \<Rightarrow> string \<times> string \<times> 'j \<Rightarrow> 'j Entry \<Rightarrow> bool" where
  "parsed_entry parse x e \<longleftrightarrow>
     (case x of (name, line, cmd) \<Rightarrow> Name e = name \<and> Job e = cmd \<and> parse line = Ret (eSchedule e))"

lemma AddNamedJob_stopped:
  assumes "AddNamedJob name parse line cmd c = Ret (e, w, c')" "\<not> running c"
  shows "parsed_entry parse (name, line, cmd) e" "c' = c\<lparr>nextID := nextID c + 1, entries := entries c @ [e]\<rparr>"
    "ID e = nextID c + 1"
  using assms
  by (auto simp: AddNamedJob_def parseAndSchedule_def scheduleEntry_def parsed_entry_def Let_def
      split: go.splits)

lemma add_all_entries:
  "add_all parse xs c = Ret c' \<Longrightarrow> \<not> running c \<Longrightarrow> distinct (map ID (entries c)) \<Longrightarrow>
   \<forall>e \<in> set (entries c). ID e \<le> nextID c \<Longrightarrow>
   \<exists>es. entries c' = entries c @ es \<and> list_all2 (parsed_entry parse) xs es \<and> distinct (map ID (entries c'))"
proof (induction xs arbitrary: c)
  case (Cons x xs)
  obtain name line cmd where x: "x = (name, line, cmd)" by (cases x)
  obtain e w c1 where add: "AddNamedJob name parse line cmd c = Ret (e, w, c1)"
    and rest: "add_all parse xs c1 = Ret c'"
    using Cons.prems(1) by (auto simp: x and_then_eq_Ret)
  note e = AddNamedJob_stopped [OF add Cons.prems(2)]
  have "distinct (map ID (entries c1))" using Cons.prems(3,4) by (auto simp: e(2,3) image_iff)
  moreover have "\<forall>f \<in> set (entries c1). ID f \<le> nextID c1" using Cons.prems(4) by (auto simp: e(2,3))
  ultimately obtain es where "entries c' = entries c1 @ es" "list_all2 (parsed_entry parse) xs es"
      "distinct (map ID (entries c'))"
    using Cons.IH [OF rest] Cons.prems(2) by (auto simp: e(2))
  then show ?case using e(1) by (intro exI [of _ "e # es"]) (simp add: e(2) x)
qed simp

text \<open>In regular zones a parsed schedule keeps the contract of \<open>Schedule\<close>.\<close>

lemma parsed_schedule_law:
  assumes "Parse known p line = Ret sch" "\<And>l. regular_zone tz l (k l)"
  shows "schedule_law (schedule_Next tz sch) L"
proof -
  have "well_formed sch" by (rule Parse_well_formed_lemma [OF assms(1)])
  then have "proper_schedule tz L sch"
  proof (cases sch)
    case (Spec s)
    then obtain l where "sLocation s = Some l"
      using \<open>well_formed sch\<close> by (auto simp: well_formed_spec_def)
    then show ?thesis using assms(2) by (auto simp: Spec)
  qed (use \<open>well_formed sch\<close> in simp)
  then show ?thesis by (rule proper_schedule_law)
qed

text \<open>
  \<open>on_schedule\<close>: the entry is that of the line, and in the rounds of \<open>log\<close>, from \<open>now\<close> to \<open>now'\<close>, it
  was started at exactly the activations that \<open>NextN\<close> lists for the line's schedule.
\<close>

definition on_schedule ::
  "tzdata \<Rightarrow> (string \<Rightarrow> bool) \<Rightarrow> SpecParser \<Rightarrow> gotime \<Rightarrow> (gotime \<times> 'j Entry list) list \<Rightarrow> gotime \<Rightarrow>
    string \<times> string \<times> 'j \<Rightarrow> 'j Entry \<Rightarrow> bool" where
  "on_schedule tz known p now log now' x e \<longleftrightarrow>
     (case x of (name, line, cmd) \<Rightarrow>
        Name e = name \<and> Job e = cmd \<and>
        (\<exists>sch u. Parse known p line = Ret sch \<and>
           (let ts = started_at (ID e) log in
              NextN (schedule_Next tz sch) now (int (length ts)) = Ret ts \<and>
              schedule_Next tz sch (last (now # ts)) = Ret u \<and> (IsZero u \<or> After u now'))))"

text \<open>
  C1: from the line to the job: after the lines were added to a new instance, its scheduler, driven by
  a timer that fires when asked to, starts the job of each line at exactly the activations of the
  schedule that the line denotes, as \<open>NextN\<close> lists them from the start of the scheduler on. This holds
  in every regular zone, across the nights on which the clocks change.
\<close>

theorem lines_run_on_schedule:
  assumes "add_all (spec_parser tz known p :: 'u parser_iface) xs (new_cron ch) = Ret c"
    and "\<And>l. regular_zone tz l (k l)" "valid_time now"
  shows "\<exists>es0 log now' es'. initializeEntries now (entries c) = Ret es0 \<and>
    timer_rounds (tloc now) n now es0 = Ret (log, now', es') \<and> instant now + int n \<le> instant now' \<and>
    list_all2 (on_schedule tz known p now log now') xs (entries c)"
proof -
  let ?parse = "spec_parser tz known p :: 'u parser_iface"
  have es: "list_all2 (parsed_entry ?parse) xs (entries c)" "distinct (map ID (entries c))"
    using add_all_entries [OF assms(1)] by (auto simp: new_cron_def)
  have sch: "\<exists>sch. Parse known p (fst (snd x)) = Ret sch \<and> eSchedule e = schedule_Next tz sch"
    if "parsed_entry ?parse x e" for x e
    using that by (cases "Parse known p (fst (snd x))") (auto simp: parsed_entry_def spec_parser_def)
  have "lawful_entry (tloc now) e" if "parsed_entry ?parse x e" for x e
    using sch [OF that] parsed_schedule_law [OF _ assms(2)] by (auto simp: lawful_entry_def)
  then have "list_all (lawful_entry (tloc now)) (entries c)"
    using es(1) unfolding list_all_length list_all2_conv_all_nth by metis
  from rounds_keep_schedule [OF this es(2) assms(3) refl, of n]
  obtain es0 log now' es' where run: "initializeEntries now (entries c) = Ret es0"
    "timer_rounds (tloc now) n now es0 = Ret (log, now', es')" "instant now + int n \<le> instant now'"
    "\<forall>e \<in> set (entries c). let ts = started_at (ID e) log in
       NextN (eSchedule e) now (int (length ts)) = Ret ts \<and>
       (\<exists>u. eSchedule e (last (now # ts)) = Ret u \<and> (IsZero u \<or> After u now'))"
    by (auto simp: list_all_iff)
  have "on_schedule tz known p now log now' x e" if "parsed_entry ?parse x e" "e \<in> set (entries c)" for x e
    using sch [OF that(1)] run(4) [rule_format, OF that(2)] that(1)
    by (auto simp: on_schedule_def parsed_entry_def Let_def)
  then have "list_all2 (on_schedule tz known p now log now') xs (entries c)"
    using es(1) unfolding list_all2_conv_all_nth by (metis nth_mem)
  then show ?thesis using run(1-3) by blast
qed

lemma new_york_everywhere: "regular_zone new_york_tz l (if l = UTC then 0 else - 18000)"
  by (simp add: new_york_regular fixed_offset_regular fixed_offset_UTC)

text \<open>Two lines in New York, from the midnight on before the clocks go forward.\<close>

theorem lines_run_on_schedule_witness:
  "\<exists>c es0 log now' es'.
     add_all (spec_parser new_york_tz (\<lambda>_. False) standard_parser :: unit parser_iface)
       [(''report'', ''*/5 * * * *'', ()), (''poll'', ''@every 90s'', ())] (new_cron []) = Ret c \<and>
     initializeEntries (at_unix 1710046800) (entries c) = Ret es0 \<and>
     timer_rounds new_york 100000 (at_unix 1710046800) es0 = Ret (log, now', es') \<and>
     list_all2 (on_schedule new_york_tz (\<lambda>_. False) standard_parser (at_unix 1710046800) log now')
       [(''report'', ''*/5 * * * *'', ()), (''poll'', ''@every 90s'', ())] (entries c)"
proof -
  let ?parse = "spec_parser new_york_tz (\<lambda>_. False) standard_parser :: unit parser_iface"
  let ?xs = "[(''report'', ''*/5 * * * *'', ()), (''poll'', ''@every 90s'', ())]"
  have "\<exists>a. Parse (\<lambda>_. False) standard_parser ''*/5 * * * *'' = Ret a"
    "\<exists>a. Parse (\<lambda>_. False) standard_parser ''@every 90s'' = Ret a"
    by (rule exI, code_simp)+
  then obtain a b where p: "Parse (\<lambda>_. False) standard_parser ''*/5 * * * *'' = Ret a"
    "Parse (\<lambda>_. False) standard_parser ''@every 90s'' = Ret b" by blast
  have "\<exists>c. add_all ?parse ?xs (new_cron []) = Ret c"
    by (simp add: AddNamedJob_def parseAndSchedule_def spec_parser_def p scheduleEntry_def new_cron_def Let_def)
  then obtain c where c: "add_all ?parse ?xs (new_cron []) = Ret c" ..
  have now: "valid_time (at_unix 1710046800)" "tloc (at_unix 1710046800) = new_york"
    by (simp_all add: valid_time_def at_unix_def)
  from lines_run_on_schedule [OF c new_york_everywhere now(1), of 100000] c show ?thesis
    unfolding now(2) by blast
qed

end
